(* ===== verification/Py_Prelude.thy ===== *)
theory Py_Prelude
  imports Main "HOL-Library.Word" "HOL-Library.AList" "HOL-Library.List_Lexorder" "HOL-Library.Product_Lexorder"
begin

text \<open>
  The shared base of the development: Python exceptions as values, the result type that
  carries them, byte strings and the integer conversions of the Python standard library
  (\<^verbatim>\<open>int.to_bytes\<close>, \<^verbatim>\<open>int.from_bytes\<close>, \<^verbatim>\<open>int.bit_length\<close>, \<^verbatim>\<open>math.isqrt\<close>,
  slices, \<^verbatim>\<open>itertools.batched\<close>), insertion-ordered dictionaries, and the generic lemmas the
  component theories share.
\<close>

section \<open>Exceptions and results\<close>

text \<open>
  The rejection reasons of \<^verbatim>\<open>spec/forks/lstar/errors.py\<close>, in the order of the source.
\<close>

datatype rejection_reason =
    BLOCK_SLOT_NOT_IN_FUTURE
  | BLOCK_OLDER_THAN_LATEST_HEADER
  | BLOCK_SLOT_MISMATCH
  | PARENT_ROOT_MISMATCH
  | STATE_ROOT_MISMATCH
  | UNKNOWN_PARENT_BLOCK
  | PROPOSER_INDEX_OUT_OF_RANGE
  | EMPTY_VALIDATOR_REGISTRY
  | WRONG_PROPOSER
  | TOO_MANY_ATTESTATION_DATA
  | DUPLICATE_ATTESTATION_DATA
  | EMPTY_AGGREGATION_BITS
  | UNKNOWN_SOURCE_BLOCK
  | UNKNOWN_TARGET_BLOCK
  | UNKNOWN_HEAD_BLOCK
  | SOURCE_AFTER_TARGET
  | HEAD_OLDER_THAN_TARGET
  | SOURCE_SLOT_MISMATCH
  | TARGET_SLOT_MISMATCH
  | HEAD_SLOT_MISMATCH
  | SOURCE_NOT_ANCESTOR_OF_TARGET
  | TARGET_NOT_ANCESTOR_OF_HEAD
  | ATTESTATION_TOO_FAR_IN_FUTURE
  | ATTESTATION_SLOT_BEFORE_HEAD
  | VALIDATOR_NOT_IN_STATE
  | VALIDATOR_INDEX_OUT_OF_RANGE
  | JUSTIFIED_SLOT_OUT_OF_RANGE
  | INVALID_SIGNATURE
  | INVALID_BLOCK_PROOF
  | ANCHOR_STATE_ROOT_MISMATCH
  | DECODE_ERROR

text \<open>
  One type for every exception the modelled code raises. Messages are dropped; the class of
  the exception, and the reason of a \<^verbatim>\<open>SpecRejectionError\<close>, are kept. The last value is not an exception: it
  stands for a loop that never ends.
\<close>

datatype py_exn =
    SpecRejectionError rejection_reason
  | AssertionError
  | KeyError
  | IndexError
  | ValueError
  | TypeError
  | OverflowError
  | ZeroDivisionError
  | SSZTypeError
  | SSZValueError
  | SSZSerializationError
  | VarintError
  | RLPDecodingError
  | SnappyDecompressionError
  | UnicodeEncodeError
  | UnicodeDecodeError
  | ProtobufDecodeError
  | CodecError
  | ForkMismatchError
  | AggregationError
  | Diverges

type_synonym 'a result = "py_exn + 'a"

definition rbind :: "'a result \<Rightarrow> ('a \<Rightarrow> 'b result) \<Rightarrow> 'b result" where
  "rbind m f = (case m of Inl e \<Rightarrow> Inl e | Inr x \<Rightarrow> f x)"

lemma rbind_Inl [simp]: "rbind (Inl e) f = Inl e"
  by (simp add: rbind_def)

lemma rbind_Inr [simp]: "rbind (Inr x) f = f x"
  by (simp add: rbind_def)

lemma rbind_eq_Inr [simp]: "rbind m f = Inr y \<longleftrightarrow> (\<exists>x. m = Inr x \<and> f x = Inr y)"
  by (cases m) simp_all

lemma rbind_eq_Inl: "rbind m f = Inl e \<longleftrightarrow> m = Inl e \<or> (\<exists>x. m = Inr x \<and> f x = Inl e)"
  by (cases m) simp_all

lemma rbind_cong [fundef_cong]:
  "m = m' \<Longrightarrow> (\<And>x. m' = Inr x \<Longrightarrow> f x = g x) \<Longrightarrow> rbind m f = rbind m' g"
  by (cases m') simp_all

lemma rbind_assoc: "rbind (rbind m f) g = rbind m (\<lambda>x. rbind (f x) g)"
  by (cases m) simp_all

text \<open>\<^verbatim>\<open>if not cond: raise exn\<close>\<close>

definition require :: "bool \<Rightarrow> py_exn \<Rightarrow> unit result" where
  "require c e = (if c then Inr () else Inl e)"

lemma require_eq_Inr [simp]: "require c e = Inr u \<longleftrightarrow> c"
  by (simp add: require_def)

lemma require_eq_Inl [simp]: "require c e = Inl e' \<longleftrightarrow> \<not> c \<and> e' = e"
  by (auto simp: require_def)

lemma require_True [simp]: "require True e = Inr ()"
  by (simp add: require_def)

lemma require_False [simp]: "require False e = Inl e"
  by (simp add: require_def)

text \<open>
  \<open>outcome E P m\<close>: the computation returns a value that satisfies \<open>P\<close> or raises one of the exceptions \<open>E\<close>.
\<close>

definition outcome :: "(py_exn \<Rightarrow> bool) \<Rightarrow> ('a \<Rightarrow> bool) \<Rightarrow> 'a result \<Rightarrow> bool" where
  "outcome E P m \<longleftrightarrow> (case m of Inl e \<Rightarrow> E e | Inr x \<Rightarrow> P x)"

definition is_rejection :: "py_exn \<Rightarrow> bool" where
  "is_rejection e \<longleftrightarrow> (case e of SpecRejectionError _ \<Rightarrow> True | _ \<Rightarrow> False)"

lemma is_rejection_simps [simp]: "is_rejection (SpecRejectionError r)"
  by (simp add: is_rejection_def)

lemma outcome_simps [simp]: "outcome E P (Inl e) = E e" "outcome E P (Inr x) = P x"
  by (simp_all add: outcome_def)

lemma outcome_bind:
  "outcome E P m \<Longrightarrow> (\<And>x. m = Inr x \<Longrightarrow> P x \<Longrightarrow> outcome E Q (f x)) \<Longrightarrow> outcome E Q (rbind m f)"
  by (cases m) auto

lemma outcome_mono:
  "outcome E P m \<Longrightarrow> (\<And>e. E e \<Longrightarrow> F e) \<Longrightarrow> (\<And>x. m = Inr x \<Longrightarrow> P x \<Longrightarrow> Q x) \<Longrightarrow> outcome F Q m"
  by (cases m) auto

lemma outcome_Inr: "outcome E P m \<Longrightarrow> m = Inr x \<Longrightarrow> P x"
  by simp

text \<open>\<^verbatim>\<open>try: m except e: raise e'\<close>\<close>

definition reraise :: "py_exn \<Rightarrow> py_exn \<Rightarrow> 'a result \<Rightarrow> 'a result" where
  "reraise e e' m = (case m of Inl x \<Rightarrow> Inl (if x = e then e' else x) | Inr y \<Rightarrow> Inr y)"

lemma reraise_Inr [simp]: "reraise e e' (Inr y) = Inr y"
  by (simp add: reraise_def)

lemma reraise_Inl [simp]: "reraise e e' (Inl x) = Inl (if x = e then e' else x)"
  by (simp add: reraise_def)

lemma reraise_eq_Inr [simp]: "reraise e e' m = Inr y \<longleftrightarrow> m = Inr y"
  by (cases m) simp_all

text \<open>A loop that builds a list and stops at the first exception.\<close>

fun rmap :: "('a \<Rightarrow> 'b result) \<Rightarrow> 'a list \<Rightarrow> 'b list result" where
  "rmap f [] = Inr []"
| "rmap f (x # xs) = rbind (f x) (\<lambda>y. rbind (rmap f xs) (\<lambda>ys. Inr (y # ys)))"

lemma rmap_cong [fundef_cong]:
  "xs = ys \<Longrightarrow> (\<And>x. x \<in> set ys \<Longrightarrow> f x = g x) \<Longrightarrow> rmap f xs = rmap g ys"
proof (induction ys arbitrary: xs)
  case (Cons y ys)
  then have "rmap f ys = rmap g ys" by simp
  with Cons.prems show ?case by simp
qed simp

lemma rmap_length: "rmap f xs = Inr ys \<Longrightarrow> length ys = length xs"
  by (induction xs arbitrary: ys) auto

lemma rmap_Inr_iff: "rmap f xs = Inr ys \<longleftrightarrow> list_all2 (\<lambda>x y. f x = Inr y) xs ys"
  by (induction xs arbitrary: ys) (auto simp: list_all2_Cons1)

text \<open>A loop that updates a state and stops at the first exception, and a comprehension with a condition that can raise.\<close>

fun rfold :: "('a \<Rightarrow> 's \<Rightarrow> 's result) \<Rightarrow> 'a list \<Rightarrow> 's \<Rightarrow> 's result" where
  "rfold f [] s = Inr s"
| "rfold f (x # xs) s = rbind (f x s) (rfold f xs)"

fun rfilter :: "('a \<Rightarrow> bool result) \<Rightarrow> 'a list \<Rightarrow> 'a list result" where
  "rfilter p [] = Inr []"
| "rfilter p (x # xs) = rbind (p x) (\<lambda>c. rbind (rfilter p xs) (\<lambda>ys. Inr (if c then x # ys else ys)))"

lemma rfold_append: "rfold f (xs @ ys) s = rbind (rfold f xs s) (rfold f ys)"
proof (induction xs arbitrary: s)
  case (Cons x xs)
  then show ?case by (cases "f x s") simp_all
qed simp

lemma rfold_pure: "(\<And>x s. x \<in> set xs \<Longrightarrow> f x s = Inr (g x s)) \<Longrightarrow> rfold f xs s = Inr (fold g xs s)"
  by (induction xs arbitrary: s) simp_all

lemma outcome_rfold:
  assumes "\<And>x s. x \<in> set xs \<Longrightarrow> P s \<Longrightarrow> outcome E P (f x s)" and "P s"
  shows "outcome E P (rfold f xs s)"
  using assms by (induction xs arbitrary: s) (auto intro!: outcome_bind [where P = P])

lemma rfilter_pure: "(\<And>x. x \<in> set xs \<Longrightarrow> p x = Inr (q x)) \<Longrightarrow> rfilter p xs = Inr (filter q xs)"
  by (induction xs) simp_all

section \<open>Bytes\<close>

type_synonym byte = "8 word"
type_synonym bytes = "byte list"

text \<open>\<^verbatim>\<open>int.to_bytes(k, "little")\<close> and \<^verbatim>\<open>int.from_bytes(_, "little")\<close>.\<close>

primrec le_bytes :: "nat \<Rightarrow> nat \<Rightarrow> bytes" where
  "le_bytes 0 n = []"
| "le_bytes (Suc k) n = word_of_nat n # le_bytes k (n div 256)"

primrec le_nat :: "bytes \<Rightarrow> nat" where
  "le_nat [] = 0"
| "le_nat (b # bs) = unat b + 256 * le_nat bs"

definition be_bytes :: "nat \<Rightarrow> nat \<Rightarrow> bytes" where
  "be_bytes k n = rev (le_bytes k n)"

definition be_nat :: "bytes \<Rightarrow> nat" where
  "be_nat bs = le_nat (rev bs)"

text \<open>\<^verbatim>\<open>n.to_bytes(k, "little")\<close> raises when \<open>n\<close> does not fit.\<close>

definition to_bytes_le :: "nat \<Rightarrow> nat \<Rightarrow> bytes result" where
  "to_bytes_le k n = (if n < 256 ^ k then Inr (le_bytes k n) else Inl OverflowError)"

lemma unat_byte_less [simp]: "unat (b :: byte) < 256"
  using unsigned_less [of b] by simp

lemma unat_of_nat_byte: "unat (word_of_nat n :: byte) = n mod 256"
  by (simp add: unat_of_nat)

lemma unat_of_nat_byte_small [simp]: "n < 256 \<Longrightarrow> unat (word_of_nat n :: byte) = n"
  by (simp add: unat_of_nat_byte)

lemma of_nat_unat_byte [simp]: "word_of_nat (unat (b :: byte)) = b"
  by simp

lemma le_bytes_numeral: "le_bytes (numeral k) n = word_of_nat (n mod 256) # le_bytes (pred_numeral k) (n div 256)"
proof -
  have "word_of_nat (n mod 256) = (word_of_nat n :: byte)"
    using of_nat_unat_byte [of "word_of_nat n"] by (simp only: unat_of_nat_byte)
  then show ?thesis by (simp add: numeral_eq_Suc [of k])
qed

lemma length_le_bytes [simp]: "length (le_bytes k n) = k"
  by (induction k arbitrary: n) simp_all

lemma length_be_bytes [simp]: "length (be_bytes k n) = k"
  by (simp add: be_bytes_def)

lemma le_nat_le_bytes: "le_nat (le_bytes k n) = n mod 256 ^ k"
proof (induction k arbitrary: n)
  case (Suc k)
  have "le_nat (le_bytes (Suc k) n) = n mod 256 + 256 * (n div 256 mod 256 ^ k)"
    by (simp add: Suc.IH unat_of_nat_byte)
  also have "\<dots> = n mod (256 * 256 ^ k)"
    by (simp add: mod_mult2_eq)
  finally show ?case by simp
qed simp

lemma le_nat_le_bytes_small [simp]: "n < 256 ^ k \<Longrightarrow> le_nat (le_bytes k n) = n"
  by (simp add: le_nat_le_bytes)

lemma le_nat_less: "le_nat bs < 256 ^ length bs"
proof (induction bs)
  case (Cons b bs)
  then have "le_nat bs + 1 \<le> 256 ^ length bs" by simp
  then have "256 * (le_nat bs + 1) \<le> 256 * 256 ^ length bs" by (rule mult_le_mono2)
  moreover have "unat b + 256 * le_nat bs < 256 * (le_nat bs + 1)" by simp
  ultimately have "unat b + 256 * le_nat bs < 256 * 256 ^ length bs" by (rule less_le_trans [rotated])
  then show ?case by simp
qed simp

lemma le_bytes_le_nat: "k = length bs \<Longrightarrow> le_bytes k (le_nat bs) = bs"
proof (induction bs arbitrary: k)
  case (Cons b bs)
  have "(word_of_nat (unat b + 256 * le_nat bs) :: byte) = b"
    by (rule word_unat_eq_iff [THEN iffD2]) (simp add: unat_of_nat_byte del: of_nat_add of_nat_mult)
  moreover have "(unat b + 256 * le_nat bs) div 256 = le_nat bs"
    by simp
  ultimately show ?case using Cons by simp
qed simp

lemma be_nat_be_bytes_small [simp]: "n < 256 ^ k \<Longrightarrow> be_nat (be_bytes k n) = n"
  by (simp add: be_nat_def be_bytes_def)

lemma be_bytes_be_nat: "k = length bs \<Longrightarrow> be_bytes k (be_nat bs) = bs"
  by (simp add: be_nat_def be_bytes_def le_bytes_le_nat)

lemma be_nat_less: "be_nat bs < 256 ^ length bs"
  using le_nat_less [of "rev bs"] by (simp add: be_nat_def)

lemma be_nat_append: "be_nat (xs @ ys) = be_nat xs * 256 ^ length ys + be_nat ys"
proof -
  have le: "le_nat (as @ bs) = le_nat as + 256 ^ length as * le_nat bs" for as bs
    by (induction as) (simp_all add: algebra_simps)
  show ?thesis by (simp add: be_nat_def le)
qed

section \<open>Integers\<close>

text \<open>\<^verbatim>\<open>int.bit_length\<close>\<close>

fun bit_length :: "nat \<Rightarrow> nat" where
  "bit_length n = (if n = 0 then 0 else Suc (bit_length (n div 2)))"

declare bit_length.simps [simp del]

lemma bit_length_0 [simp]: "bit_length 0 = 0"
  by (simp add: bit_length.simps)

lemma bit_length_pos: "0 < n \<Longrightarrow> bit_length n = Suc (bit_length (n div 2))"
  by (simp add: bit_length.simps)

lemma less_exp_bit_length: "n < 2 ^ bit_length n"
proof (induction n rule: bit_length.induct)
  case (1 n)
  show ?case
  proof (cases "n = 0")
    case False
    with 1 have "n div 2 < 2 ^ bit_length (n div 2)" by simp
    with False show ?thesis by (simp add: bit_length_pos)
  qed simp
qed

lemma exp_bit_length_le: "0 < n \<Longrightarrow> 2 ^ (bit_length n - 1) \<le> n"
proof (induction n rule: bit_length.induct)
  case (1 n)
  show ?case
  proof (cases "n div 2 = 0")
    case True
    with 1(2) have "bit_length n = 1" by (simp add: bit_length_pos)
    with 1(2) show ?thesis by simp
  next
    case False
    with 1 have "2 ^ (bit_length (n div 2) - 1) \<le> n div 2" by simp
    then have "2 * 2 ^ (bit_length (n div 2) - 1) \<le> n" by linarith
    moreover from False have "0 < bit_length (n div 2)" by (simp add: bit_length_pos)
    ultimately show ?thesis using 1(2) by (simp add: bit_length_pos flip: power_Suc)
  qed
qed

lemma bit_length_le_iff: "bit_length n \<le> k \<longleftrightarrow> n < 2 ^ k"
proof
  assume "bit_length n \<le> k"
  then have "(2::nat) ^ bit_length n \<le> 2 ^ k" by simp
  with less_exp_bit_length [of n] show "n < 2 ^ k" by linarith
next
  assume lt: "n < 2 ^ k"
  show "bit_length n \<le> k"
  proof (cases "n = 0")
    case False
    then have "2 ^ (bit_length n - 1) \<le> n" by (intro exp_bit_length_le) simp
    with lt have "(2::nat) ^ (bit_length n - 1) < 2 ^ k" by linarith
    then have "bit_length n - 1 < k" by simp
    then show ?thesis by linarith
  qed simp
qed

text \<open>\<^verbatim>\<open>math.isqrt\<close>: the floor of the square root.\<close>

fun isqrt :: "nat \<Rightarrow> nat" where
  "isqrt n = (if n = 0 then 0
     else let r = isqrt (n div 4) in if (2 * r + 1) * (2 * r + 1) \<le> n then 2 * r + 1 else 2 * r)"

declare isqrt.simps [simp del]

lemma isqrt_bounds: "isqrt n * isqrt n \<le> n \<and> n < (isqrt n + 1) * (isqrt n + 1)"
proof (induction n rule: isqrt.induct)
  case (1 n)
  show ?case
  proof (cases "n = 0")
    case True
    then show ?thesis by (simp add: isqrt.simps)
  next
    case False
    let ?r = "isqrt (n div 4)"
    from False 1 have lo: "?r * ?r \<le> n div 4" and hi: "n div 4 < (?r + 1) * (?r + 1)"
      by auto
    have lo': "4 * (?r * ?r) \<le> n" using lo by linarith
    have hi': "n < 4 * ((?r + 1) * (?r + 1))" using hi by linarith
    have eq: "isqrt n = (if (2 * ?r + 1) * (2 * ?r + 1) \<le> n then 2 * ?r + 1 else 2 * ?r)"
      using False by (subst isqrt.simps) (simp add: Let_def)
    show ?thesis
    proof (cases "(2 * ?r + 1) * (2 * ?r + 1) \<le> n")
      case True
      with eq hi' show ?thesis by (simp add: algebra_simps)
    next
      case False
      with eq lo' show ?thesis by (simp add: algebra_simps)
    qed
  qed
qed

lemma isqrt_eqI:
  assumes "r * r \<le> n" and "n < (r + 1) * (r + 1)"
  shows "isqrt n = r"
proof -
  have mono: "a \<le> b" if "a * a \<le> n" "n < (b + 1) * (b + 1)" for a b
  proof (rule ccontr)
    assume "\<not> a \<le> b"
    then have "(b + 1) * (b + 1) \<le> a * a" by (intro mult_le_mono) auto
    with that show False by linarith
  qed
  from isqrt_bounds [of n] assms show ?thesis
    by (meson mono le_antisym)
qed

lemma isqrt_square_iff: "isqrt n ^ 2 = n \<longleftrightarrow> (\<exists>m. n = m ^ 2)"
proof
  assume "\<exists>m. n = m ^ 2"
  then obtain m where m: "n = m ^ 2" ..
  have "isqrt n = m" by (rule isqrt_eqI) (simp_all add: m power2_eq_square)
  with m show "isqrt n ^ 2 = n" by simp
qed metis

lemma isqrt_of_square [simp]: "isqrt (m * m) = m"
  by (rule isqrt_eqI) simp_all

text \<open>\<^verbatim>\<open>math.ceil(a / b)\<close> on non-negative integers.\<close>

definition ceil_div :: "nat \<Rightarrow> nat \<Rightarrow> nat" where
  "ceil_div a b = (a + b - 1) div b"

lemma ceil_div_upper: "0 < b \<Longrightarrow> a \<le> ceil_div a b * b"
proof -
  assume b: "0 < b"
  have "a + b - 1 = (a + b - 1) div b * b + (a + b - 1) mod b" by simp
  moreover have "(a + b - 1) mod b < b" using b by simp
  ultimately have "a + b - 1 < ceil_div a b * b + b" unfolding ceil_div_def by linarith
  with b show ?thesis by linarith
qed

lemma ceil_div_le_iff: "0 < b \<Longrightarrow> ceil_div a b \<le> k \<longleftrightarrow> a \<le> k * b"
proof
  assume b: "0 < b" and le: "a \<le> k * b"
  have "a + b - 1 < (k + 1) * b" using b le by simp
  then have "(a + b - 1) div b < k + 1" using b by (simp add: div_less_iff_less_mult)
  then show "ceil_div a b \<le> k" by (simp add: ceil_div_def)
next
  assume b: "0 < b" and le: "ceil_div a b \<le> k"
  have "a \<le> ceil_div a b * b" using b by (rule ceil_div_upper)
  also have "\<dots> \<le> k * b" using le by simp
  finally show "a \<le> k * b" .
qed

text \<open>The shortest big-endian form of a positive integer.\<close>

lemma be_bytes_leading:
  assumes "256 ^ (k - 1) \<le> n" and "n < 256 ^ k" and "0 < k"
  shows "be_bytes k n ! 0 \<noteq> 0"
proof
  assume zero: "be_bytes k n ! 0 = 0"
  obtain d ds where b: "be_bytes k n = d # ds" "length ds = k - 1"
    using assms(3) length_be_bytes [of k n] by (cases "be_bytes k n") auto
  have "n = be_nat (d # ds)" using be_nat_be_bytes_small [OF assms(2)] b(1) by simp
  also have "\<dots> = be_nat [d] * 256 ^ (k - 1) + be_nat ds" using be_nat_append [of "[d]" ds] b(2) by simp
  also have "be_nat [d] = 0" using zero b(1) by (simp add: be_nat_def)
  finally have "n < 256 ^ (k - 1)" using be_nat_less [of ds] b(2) by simp
  with assms(1) show False by simp
qed

lemma length_field_bounds:
  assumes "0 < n"
  shows "256 ^ (ceil_div (bit_length n) 8 - 1) \<le> n" and "n < 256 ^ ceil_div (bit_length n) 8"
    and "0 < ceil_div (bit_length n) 8"
proof -
  let ?k = "ceil_div (bit_length n) 8"
  have exp: "256 ^ m = (2 ^ (8 * m) :: nat)" for m by (simp add: power_mult)
  have pos: "0 < bit_length n" using assms by (simp add: bit_length_pos)
  have "\<not> ?k \<le> ?k - 1" if "0 < ?k" using that by simp
  moreover show k: "0 < ?k" using pos ceil_div_le_iff [of 8 "bit_length n" 0] by simp
  ultimately have "8 * (?k - 1) \<le> bit_length n - 1"
    using ceil_div_le_iff [of 8 "bit_length n" "?k - 1"] by simp
  then have "(2 :: nat) ^ (8 * (?k - 1)) \<le> 2 ^ (bit_length n - 1)" by (rule power_increasing) simp
  also have "\<dots> \<le> n" by (rule exp_bit_length_le [OF assms])
  finally show "256 ^ (?k - 1) \<le> n" by (simp add: exp)
  have "n < 2 ^ bit_length n" by (rule less_exp_bit_length)
  also have "\<dots> \<le> 2 ^ (8 * ?k)" using ceil_div_upper [of 8 "bit_length n"] by (intro power_increasing) simp_all
  finally show "n < 256 ^ ?k" by (simp add: exp)
qed

lemma be_nat_pos: "bs \<noteq> [] \<Longrightarrow> hd bs \<noteq> 0 \<Longrightarrow> 256 ^ (length bs - 1) \<le> be_nat bs"
proof (cases bs)
  case (Cons b r)
  assume "hd bs \<noteq> 0"
  then have "1 \<le> unat b" using Cons by (simp add: unat_gt_0 Suc_le_eq)
  then have "256 ^ length r \<le> unat b * 256 ^ length r" by simp
  moreover have "be_nat bs = unat b * 256 ^ length r + be_nat r"
    using Cons be_nat_append [of "[b]" r] by (simp add: be_nat_def [of "[b]"])
  ultimately have "256 ^ length r \<le> be_nat bs" by linarith
  then show ?thesis using Cons by simp
qed simp

lemma be_bytes_shortest:
  assumes "bs \<noteq> []" and "hd bs \<noteq> 0"
  shows "be_bytes (ceil_div (bit_length (be_nat bs)) 8) (be_nat bs) = bs"
proof -
  let ?n = "be_nat bs" and ?k = "ceil_div (bit_length (be_nat bs)) 8"
  have lo: "256 ^ (length bs - 1) \<le> ?n" by (rule be_nat_pos [OF assms])
  then have "0 < ?n" by (metis gr_zeroI le_zero_eq power_not_zero zero_neq_numeral)
  note k = length_field_bounds [OF this]
  have "(256 :: nat) ^ (length bs - 1) < 256 ^ ?k" using lo k(2) by (rule le_less_trans)
  moreover have "(256 :: nat) ^ (?k - 1) < 256 ^ length bs" using k(1) be_nat_less [of bs] by (rule le_less_trans)
  ultimately have "length bs - 1 < ?k" "?k - 1 < length bs" by simp_all
  then have "?k = length bs" by linarith
  then show ?thesis by (rule be_bytes_be_nat)
qed

section \<open>Sequences\<close>

text \<open>\<^verbatim>\<open>xs[a:b]\<close> for non-negative bounds.\<close>

definition py_slice :: "'a list \<Rightarrow> nat \<Rightarrow> nat \<Rightarrow> 'a list" where
  "py_slice xs a b = take (b - a) (drop a xs)"

text \<open>\<^verbatim>\<open>xs[i]\<close> for a non-negative index.\<close>

definition py_index :: "'a list \<Rightarrow> nat \<Rightarrow> 'a result" where
  "py_index xs i = (if i < length xs then Inr (xs ! i) else Inl IndexError)"

lemma py_index_eq_Inr [simp]: "py_index xs i = Inr x \<longleftrightarrow> i < length xs \<and> x = xs ! i"
  by (auto simp: py_index_def)

lemma py_index_eq_Inl [simp]: "py_index xs i = Inl e \<longleftrightarrow> length xs \<le> i \<and> e = IndexError"
  by (auto simp: py_index_def)

text \<open>\<^verbatim>\<open>itertools.batched(xs, n)\<close> for \<open>n > 0\<close>: the last batch may be short.\<close>

function batched :: "nat \<Rightarrow> 'a list \<Rightarrow> 'a list list" where
  "batched n xs = (if n = 0 \<or> xs = [] then [] else take n xs # batched n (drop n xs))"
  by pat_completeness auto
termination by (relation "measure (\<lambda>(n, xs). length xs)") auto

declare batched.simps [simp del]

lemma batched_Nil [simp]: "batched n [] = []"
  by (simp add: batched.simps)

lemma batched_step: "0 < n \<Longrightarrow> xs \<noteq> [] \<Longrightarrow> batched n xs = take n xs # batched n (drop n xs)"
  by (simp add: batched.simps)

lemma batched_append:
  "length xs = n \<Longrightarrow> 0 < n \<Longrightarrow> batched n (xs @ ys) = xs # batched n ys"
  by (subst batched.simps) auto

lemma batched_concat:
  "0 < n \<Longrightarrow> \<forall>xs \<in> set xss. length xs = n \<Longrightarrow> batched n (concat xss) = xss"
  by (induction xss) (auto simp: batched_append)

lemma length_concat_uniform:
  "\<forall>xs \<in> set xss. length xs = n \<Longrightarrow> length (concat xss) = length xss * n"
  by (induction xss) auto

lemma batched_uniform:
  assumes "0 < n" and "length xs = k * n"
  shows "length (batched n xs) = k" and "\<forall>ys \<in> set (batched n xs). length ys = n"
    and "concat (batched n xs) = xs"
  using assms(2)
proof (induction k arbitrary: xs)
  case (Suc k)
  {
    case 1
    with assms(1) Suc.IH(1) [of "drop n xs"] show ?case
      by (subst batched_step) auto
  next
    case 2
    with assms(1) Suc.IH(2) [of "drop n xs"] show ?case
      by (subst batched_step) auto
  next
    case 3
    with assms(1) Suc.IH(3) [of "drop n xs"] show ?case
      by (subst batched_step) auto
  }
qed (simp_all add: batched.simps)

section \<open>Dictionaries\<close>

text \<open>
  A Python \<^verbatim>\<open>dict\<close> keeps insertion order: an association list with distinct keys. Storing
  under a present key keeps its position, a new key goes last, which is what the update of
  \<open>HOL-Library.AList\<close> does.
\<close>

type_synonym ('k, 'v) dict = "('k \<times> 'v) list"

definition dget :: "('k, 'v) dict \<Rightarrow> 'k \<Rightarrow> 'v option" where
  "dget d k = map_of d k"

definition dput :: "('k, 'v) dict \<Rightarrow> 'k \<Rightarrow> 'v \<Rightarrow> ('k, 'v) dict" where
  "dput d k v = AList.update k v d"

definition ddel :: "('k, 'v) dict \<Rightarrow> 'k \<Rightarrow> ('k, 'v) dict" where
  "ddel d k = filter (\<lambda>p. fst p \<noteq> k) d"

definition dkeys :: "('k, 'v) dict \<Rightarrow> 'k list" where
  "dkeys d = map fst d"

definition dfilter :: "('k \<Rightarrow> bool) \<Rightarrow> ('k, 'v) dict \<Rightarrow> ('k, 'v) dict" where
  "dfilter p d = filter (\<lambda>kv. p (fst kv)) d"

definition dwf :: "('k, 'v) dict \<Rightarrow> bool" where
  "dwf d \<longleftrightarrow> distinct (map fst d)"

text \<open>\<^verbatim>\<open>d[k]\<close>\<close>

definition dlookup :: "('k, 'v) dict \<Rightarrow> 'k \<Rightarrow> 'v result" where
  "dlookup d k = (case dget d k of None \<Rightarrow> Inl KeyError | Some v \<Rightarrow> Inr v)"

lemma dlookup_eq_Inr [simp]: "dlookup d k = Inr v \<longleftrightarrow> dget d k = Some v"
  by (simp add: dlookup_def split: option.split)

lemma dlookup_eq_Inl [simp]: "dlookup d k = Inl e \<longleftrightarrow> dget d k = None \<and> e = KeyError"
  by (auto simp: dlookup_def split: option.split)

text \<open>The laws a dictionary promises its clients.\<close>

locale py_dict =
  fixes get :: "'d \<Rightarrow> 'k \<Rightarrow> 'v option"
    and put :: "'d \<Rightarrow> 'k \<Rightarrow> 'v \<Rightarrow> 'd"
    and del :: "'d \<Rightarrow> 'k \<Rightarrow> 'd"
    and keys :: "'d \<Rightarrow> 'k list"
    and restrict :: "('k \<Rightarrow> bool) \<Rightarrow> 'd \<Rightarrow> 'd"
    and wf :: "'d \<Rightarrow> bool"
  assumes get_put: "get (put d k v) k' = (if k' = k then Some v else get d k')"
    and get_del: "get (del d k) k' = (if k' = k then None else get d k')"
    and get_restrict: "get (restrict p d) k = (if p k then get d k else None)"
    and set_keys: "set (keys d) = {k. get d k \<noteq> None}"
    and distinct_keys: "wf d \<longleftrightarrow> distinct (keys d)"
    and wf_put: "wf d \<Longrightarrow> wf (put d k v)"
    and wf_del: "wf d \<Longrightarrow> wf (del d k)"
    and wf_restrict: "wf d \<Longrightarrow> wf (restrict p d)"
begin

lemma get_put_same: "get (put d k v) k = Some v"
  by (simp add: get_put)

lemma get_put_other: "k' \<noteq> k \<Longrightarrow> get (put d k v) k' = get d k'"
  by (simp add: get_put)

lemma keys_put: "set (keys (put d k v)) = insert k (set (keys d))"
  by (auto simp: set_keys get_put)

lemma get_put_mono: "get d k = None \<Longrightarrow> get d k' = Some x \<Longrightarrow> get (put d k v) k' = Some x"
  by (auto simp: get_put)

lemma keys_restrict: "set (keys (restrict p d)) = {k \<in> set (keys d). p k}"
  by (auto simp: set_keys get_restrict)

end

lemma dget_filter: "map_of (filter (\<lambda>kv. p (fst kv)) d) k = (if p k then map_of d k else None)"
  by (induction d) auto

interpretation dict: py_dict dget dput ddel dkeys dfilter dwf
proof
  fix d :: "('k, 'v) dict" and k k' :: 'k and v :: 'v and p :: "'k \<Rightarrow> bool"
  show "dget (dput d k v) k' = (if k' = k then Some v else dget d k')"
    by (simp add: dget_def dput_def update_conv')
  show "dget (ddel d k) k' = (if k' = k then None else dget d k')"
    using dget_filter [of "\<lambda>x. x \<noteq> k" d k'] by (simp add: dget_def ddel_def)
  show "dget (dfilter p d) k = (if p k then dget d k else None)"
    by (simp add: dget_def dfilter_def dget_filter)
  show "set (dkeys d) = {k. dget d k \<noteq> None}"
    by (auto simp: dkeys_def dget_def map_of_eq_None_iff)
  show "dwf d \<longleftrightarrow> distinct (dkeys d)"
    by (simp add: dwf_def dkeys_def)
  show "dwf d \<Longrightarrow> dwf (dput d k v)"
    by (simp add: dwf_def dput_def distinct_update)
  show "dwf d \<Longrightarrow> dwf (ddel d k)"
    by (simp add: dwf_def ddel_def distinct_map_filter)
  show "dwf d \<Longrightarrow> dwf (dfilter p d)"
    by (simp add: dwf_def dfilter_def distinct_map_filter)
qed

lemma dget_Nil [simp]: "dget [] k = None"
  by (simp add: dget_def)

lemma dget_Cons [simp]: "dget ((k, v) # d) k' = (if k' = k then Some v else dget d k')"
  by (simp add: dget_def)

lemma dget_in_set: "dget d k = Some v \<Longrightarrow> (k, v) \<in> set d"
  by (simp add: dget_def map_of_SomeD)

lemma dget_iff_mem: "dwf d \<Longrightarrow> dget d k = Some v \<longleftrightarrow> (k, v) \<in> set d"
  by (simp add: dget_def dwf_def)

lemma dput_new: "dget xs k = None \<Longrightarrow> dput xs k v = xs @ [(k, v)]"
  by (induction xs) (auto simp: dget_def dput_def split: if_splits)

lemma dget_append: "dget (xs @ ys) k = (case dget xs k of Some v \<Rightarrow> Some v | None \<Rightarrow> dget ys k)"
  by (simp add: dget_def map_add_def split: option.split)

text \<open>Dict comprehensions: later entries replace earlier ones.\<close>

definition dict_of :: "('k \<times> 'v) list \<Rightarrow> ('k, 'v) dict" where
  "dict_of kvs = foldl (\<lambda>d (k, v). dput d k v) [] kvs"

lemma dget_foldl_dput:
  "dget (foldl (\<lambda>d (k, v). dput d k v) d kvs) k = (case dget (rev kvs) k of Some v \<Rightarrow> Some v | None \<Rightarrow> dget d k)"
proof (induction kvs arbitrary: d)
  case (Cons kv kvs)
  obtain k' v' where "kv = (k', v')" by (cases kv)
  then show ?case by (simp add: Cons dict.get_put dget_append split: option.split)
qed simp

lemma dget_dict_of: "dget (dict_of kvs) k = dget (rev kvs) k"
  by (simp add: dict_of_def dget_foldl_dput split: option.split)

lemma dict_of_distinct: "distinct (map fst kvs) \<Longrightarrow> dict_of kvs = kvs"
proof (induction kvs rule: rev_induct)
  case (snoc kv kvs)
  then have "dict_of kvs = kvs" by simp
  with snoc.prems show ?case by (cases kv) (simp add: dict_of_def dput_new dget_def map_of_eq_None_iff)
qed (simp add: dict_of_def)

text \<open>
  Python sets have no defined iteration order: \<open>iter\<close> is the order in which a set is traversed.
\<close>

definition set_order :: "('a set \<Rightarrow> 'a list) \<Rightarrow> bool" where
  "set_order iter \<longleftrightarrow> (\<forall>S. finite S \<longrightarrow> set (iter S) = S \<and> distinct (iter S))"

section \<open>Maxima\<close>

text \<open>\<^verbatim>\<open>max(xs, key=key)\<close>: the first element with the largest key.\<close>

fun max_by :: "('a \<Rightarrow> 'k::linorder) \<Rightarrow> 'a list \<Rightarrow> 'a option" where
  "max_by key [] = None"
| "max_by key (x # xs) = Some (foldl (\<lambda>m y. if key m < key y then y else m) x xs)"

lemma foldl_max:
  "\<exists>m. foldl (\<lambda>m y. if key m < key y then y else m) x xs = m \<and> m \<in> insert x (set xs) \<and>
     (\<forall>y \<in> insert x (set xs). key y \<le> (key m :: 'k::linorder))"
proof (induction xs arbitrary: x)
  case (Cons y ys)
  let ?x = "if key x < key y then y else x"
  obtain m where m: "foldl (\<lambda>m y. if key m < key y then y else m) ?x ys = m" "m \<in> insert ?x (set ys)"
      "\<forall>y \<in> insert ?x (set ys). key y \<le> key m"
    using Cons [of ?x] by blast
  then have "key x \<le> key m \<and> key y \<le> key m" by (auto split: if_splits intro: order.trans less_imp_le)
  with m show ?case by (auto split: if_splits)
qed simp

lemma max_by_iff:
  assumes "inj_on key (set xs)"
  shows "max_by key xs = Some m \<longleftrightarrow> m \<in> set xs \<and> (\<forall>y \<in> set xs. key y \<le> (key m :: 'k::linorder))"
proof (cases xs)
  case (Cons x ys)
  obtain m' where m': "max_by key xs = Some m'" "m' \<in> set xs" "\<forall>y \<in> set xs. key y \<le> key m'"
    using foldl_max [of key x ys] Cons by auto
  show ?thesis
  proof
    assume *: "m \<in> set xs \<and> (\<forall>y \<in> set xs. key y \<le> key m)"
    with m' have "key m = key m'" by (meson order.antisym)
    with m' assms * show "max_by key xs = Some m" by (auto dest: inj_onD)
  qed (use m' in auto)
qed simp

lemma max_by_in: "max_by key xs = Some m \<Longrightarrow> m \<in> set xs \<and> (\<forall>y \<in> set xs. key y \<le> (key m :: 'k::linorder))"
  using foldl_max [of key "hd xs" "tl xs"] by (cases xs) auto

lemma length_remove1_less: "x \<in> set xs \<Longrightarrow> length (remove1 x xs) < length xs"
  by (induction xs) auto

lemma max_by_None [simp]: "max_by key xs = None \<longleftrightarrow> xs = []"
  by (cases xs) simp_all

lemma max_by_cong:
  assumes "inj_on key (set xs)" and "set xs = set ys"
  shows "max_by key xs = max_by (key :: 'a \<Rightarrow> 'k::linorder) ys"
proof (cases "max_by key ys")
  case None
  then show ?thesis using assms(2) by simp
next
  case (Some m)
  then show ?thesis using max_by_iff [of key ys m] max_by_iff [of key xs m] assms by simp
qed

section \<open>State machines\<close>

text \<open>
  The contract of a component that starts in an initial state and moves by steps: an invariant
  that holds at the start and is kept by every step holds in every reachable state.
\<close>

inductive reach :: "('s \<Rightarrow> bool) \<Rightarrow> ('s \<Rightarrow> 's \<Rightarrow> bool) \<Rightarrow> 's \<Rightarrow> bool"
  for init :: "'s \<Rightarrow> bool" and step :: "'s \<Rightarrow> 's \<Rightarrow> bool" where
  reach_init: "init s \<Longrightarrow> reach init step s"
| reach_step: "reach init step s \<Longrightarrow> step s t \<Longrightarrow> reach init step t"

locale machine =
  fixes init :: "'s \<Rightarrow> bool" and step :: "'s \<Rightarrow> 's \<Rightarrow> bool" and inv :: "'s \<Rightarrow> bool"
  assumes inv_init: "init s \<Longrightarrow> inv s"
    and inv_step: "inv s \<Longrightarrow> step s t \<Longrightarrow> inv t"
begin

lemma reach_inv: "reach init step s \<Longrightarrow> inv s"
  by (induction rule: reach.induct) (auto intro: inv_init inv_step)

lemma run_inv: "step\<^sup>*\<^sup>* s t \<Longrightarrow> inv s \<Longrightarrow> inv t"
  by (induction rule: rtranclp_induct) (auto intro: inv_step)

end

section \<open>Decoders that read at an offset\<close>

text \<open>
  The contract of the wire formats whose decoder takes the whole buffer and an offset and returns
  the value with the number of bytes it consumed: reading back an encoding inside any buffer.
\<close>

locale offset_codec =
  fixes ok :: "'a \<Rightarrow> bool" and enc :: "'a \<Rightarrow> bytes" and dec :: "bytes \<Rightarrow> nat \<Rightarrow> ('a \<times> nat) result"
  assumes dec_enc: "ok x \<Longrightarrow> dec (pre @ enc x @ rest) (length pre) = Inr (x, length (enc x))"
begin

lemma dec_enc_start: "ok x \<Longrightarrow> dec (enc x @ rest) 0 = Inr (x, length (enc x))"
  using dec_enc [of x "[]" rest] by simp

lemma prefix_free: "ok x \<Longrightarrow> ok y \<Longrightarrow> enc x @ r = enc y @ s \<Longrightarrow> x = y \<and> r = s"
  using dec_enc_start [of x r] dec_enc_start [of y s] by auto

lemma enc_inj: "ok x \<Longrightarrow> ok y \<Longrightarrow> enc x = enc y \<Longrightarrow> x = y"
  using prefix_free [of x y "[]" "[]"] by simp

lemma concat_inj:
  "list_all ok xs \<Longrightarrow> list_all ok ys \<Longrightarrow> length xs = length ys \<Longrightarrow>
   concat (map enc xs) = concat (map enc ys) \<Longrightarrow> xs = ys"
proof (induction xs arbitrary: ys)
  case (Cons x xs)
  then obtain y ys' where "ys = y # ys'" by (cases ys) auto
  with Cons prefix_free [of x y] show ?case by auto
qed simp

end

section \<open>Loops that read a buffer\<close>

text \<open>
  \<open>advances loop seg s s'\<close>: wherever the segment stands in a buffer, the loop started at its first
  byte in state \<open>s\<close> continues behind it in state \<open>s'\<close>.
\<close>

definition advances :: "(bytes \<Rightarrow> nat \<Rightarrow> 's \<Rightarrow> 'r) \<Rightarrow> bytes \<Rightarrow> 's \<Rightarrow> 's \<Rightarrow> bool" where
  "advances loop seg s s' \<longleftrightarrow>
     (\<forall>pre rest. loop (pre @ seg @ rest) (length pre) s = loop (pre @ seg @ rest) (length (pre @ seg)) s')"

lemma advances_refl [simp]: "advances loop [] s s"
  by (simp add: advances_def)

lemma advances_trans:
  assumes "advances loop s1 a b" and "advances loop s2 b c"
  shows "advances loop (s1 @ s2) a c"
  unfolding advances_def
proof (intro allI)
  fix pre rest
  have "loop (pre @ s1 @ (s2 @ rest)) (length pre) a = loop (pre @ s1 @ (s2 @ rest)) (length (pre @ s1)) b"
    using assms(1) unfolding advances_def by blast
  moreover have "loop ((pre @ s1) @ s2 @ rest) (length (pre @ s1)) b = loop ((pre @ s1) @ s2 @ rest) (length ((pre @ s1) @ s2)) c"
    using assms(2) unfolding advances_def by blast
  ultimately show "loop (pre @ (s1 @ s2) @ rest) (length pre) a = loop (pre @ (s1 @ s2) @ rest) (length (pre @ s1 @ s2)) c"
    by simp
qed

lemma advances_whole: "advances loop seg s s' \<Longrightarrow> loop seg 0 s = loop seg (length seg) s'"
  unfolding advances_def by (metis append_Nil append_Nil2 list.size(3))

text \<open>
  A sequence of \<^verbatim>\<open>encoded.extend(...)\<close> calls, guarded ones included, and what reading the pieces
  back does to a loop's state.
\<close>

fun rconcat :: "bytes result list \<Rightarrow> bytes result" where
  "rconcat [] = Inr []"
| "rconcat (m # ms) = rbind m (\<lambda>b. rbind (rconcat ms) (\<lambda>r. Inr (b @ r)))"

definition emit_if :: "bool \<Rightarrow> bytes result \<Rightarrow> bytes result" where
  "emit_if c m = (if c then m else Inr [])"

definition writes :: "(bytes \<Rightarrow> nat \<Rightarrow> 's \<Rightarrow> 'r) \<Rightarrow> bytes result \<Rightarrow> 's \<Rightarrow> 's \<Rightarrow> bool" where
  "writes loop m s s' \<longleftrightarrow> (\<forall>b. m = Inr b \<longrightarrow> advances loop b s s')"

lemma writes_Nil: "writes loop (rconcat []) s s"
  by (simp add: writes_def)

lemma writes_Cons: "writes loop m s s1 \<Longrightarrow> writes loop (rconcat ms) s1 s2 \<Longrightarrow> writes loop (rconcat (m # ms)) s s2"
  using advances_trans unfolding writes_def by fastforce

lemma writes_emit_if: "(c \<Longrightarrow> writes loop m s s') \<Longrightarrow> (\<not> c \<Longrightarrow> s' = s) \<Longrightarrow> writes loop (emit_if c m) s s'"
  by (auto simp: writes_def emit_if_def)

lemma writes_map:
  "(\<And>x s. x \<in> set xs \<Longrightarrow> writes loop (f x) s (add s x)) \<Longrightarrow> writes loop (rconcat (map f xs)) s (foldl add s xs)"
proof (induction xs arbitrary: s)
  case (Cons x xs)
  then show ?case using writes_Cons [of loop "f x" s "add s x" "map f xs"] by simp
qed (simp add: writes_def)

lemma rconcat_append: "rconcat (ms @ ns) = rbind (rconcat ms) (\<lambda>a. rbind (rconcat ns) (\<lambda>b. Inr (a @ b)))"
  by (induction ms) (simp_all add: rbind_assoc rbind_def split: sum.split)

lemma writes_append:
  assumes "writes loop (rconcat ms) s s1" and "writes loop (rconcat ns) s1 s2"
  shows "writes loop (rconcat (ms @ ns)) s s2"
  using assms advances_trans unfolding writes_def rconcat_append by fastforce

lemma writes_run: "writes loop m s s' \<Longrightarrow> m = Inr b \<Longrightarrow> loop b 0 s = loop b (length b) s'"
  by (simp add: writes_def advances_whole)

lemma foldl_snoc_map: "foldl (\<lambda>acc x. acc @ [f x]) acc xs = acc @ map f xs"
  by (induction xs arbitrary: acc) simp_all

end
