(* ===== verification/Uint.thy ===== *)
theory Uint
  imports Py_Prelude
begin

unbundle bit_operations_syntax

text \<open>
  The fixed-width unsigned integers of \<^verbatim>\<open>spec/ssz/uint.py\<close> and of their subclasses. A value
  carries its class, since every operator of \<^verbatim>\<open>BaseUint\<close> refuses an operand of another class, and
  an unbounded integer, since the arithmetic is Python's: the constructor checks the range of
  every result, so an operation either is exact or raises, and never wraps around.
\<close>

section \<open>Classes and construction\<close>

datatype uint_class =
    Uint8 | Uint16 | Uint32 | Uint64
  | Slot_class | Interval_class | ValidatorIndex_class | SubnetId_class

fun uint_BITS :: "uint_class \<Rightarrow> nat" where
  "uint_BITS Uint8 = 8"
| "uint_BITS Uint16 = 16"
| "uint_BITS Uint32 = 32"
| "uint_BITS Uint64 = 64"
| "uint_BITS Slot_class = 64"
| "uint_BITS Interval_class = 64"
| "uint_BITS ValidatorIndex_class = 64"
| "uint_BITS SubnetId_class = 64"

record uint =
  uint_type :: uint_class
  uint_int :: int

definition uint_new :: "uint_class \<Rightarrow> int \<Rightarrow> uint result" where
  "uint_new cls value =
     (let max_value = 2 ^ uint_BITS cls - 1
      in if 0 \<le> value \<and> value \<le> max_value then Inr \<lparr>uint_type = cls, uint_int = value\<rparr>
         else Inl SSZValueError)"

definition uint_ok :: "uint \<Rightarrow> bool" where
  "uint_ok u \<longleftrightarrow> 0 \<le> uint_int u \<and> uint_int u < 2 ^ uint_BITS (uint_type u)"

definition uint_max_value :: "uint_class \<Rightarrow> uint result" where
  "uint_max_value cls = uint_new cls (2 ^ uint_BITS cls - 1)"

section \<open>Operators\<close>

text \<open>Every binary operator checks the class of the other operand first.\<close>

definition same_type :: "uint \<Rightarrow> uint \<Rightarrow> 'a result \<Rightarrow> 'a result" where
  "same_type self other r = (if uint_type other \<noteq> uint_type self then Inl TypeError else r)"

definition uint_add :: "uint \<Rightarrow> uint \<Rightarrow> uint result" where
  "uint_add self other = same_type self other
     (uint_new (uint_type self) (uint_int self + uint_int other))"

definition uint_sub :: "uint \<Rightarrow> uint \<Rightarrow> uint result" where
  "uint_sub self other = same_type self other
     (uint_new (uint_type self) (uint_int self - uint_int other))"

definition uint_mul :: "uint \<Rightarrow> uint \<Rightarrow> uint result" where
  "uint_mul self other = same_type self other
     (uint_new (uint_type self) (uint_int self * uint_int other))"

definition uint_floordiv :: "uint \<Rightarrow> uint \<Rightarrow> uint result" where
  "uint_floordiv self other = same_type self other
     (if uint_int other = 0 then Inl ZeroDivisionError
      else uint_new (uint_type self) (uint_int self div uint_int other))"

definition uint_mod :: "uint \<Rightarrow> uint \<Rightarrow> uint result" where
  "uint_mod self other = same_type self other
     (if uint_int other = 0 then Inl ZeroDivisionError
      else uint_new (uint_type self) (uint_int self mod uint_int other))"

definition uint_divmod :: "uint \<Rightarrow> uint \<Rightarrow> (uint \<times> uint) result" where
  "uint_divmod self other = same_type self other
     (if uint_int other = 0 then Inl ZeroDivisionError
      else rbind (uint_new (uint_type self) (uint_int self div uint_int other)) (\<lambda>quotient.
           rbind (uint_new (uint_type self) (uint_int self mod uint_int other)) (\<lambda>remainder.
           Inr (quotient, remainder))))"

definition uint_pow :: "uint \<Rightarrow> uint \<Rightarrow> uint option \<Rightarrow> uint result" where
  "uint_pow self value mod_arg = same_type self value
     (case mod_arg of
        None \<Rightarrow> uint_new (uint_type self) (uint_int self ^ nat (uint_int value))
      | Some m \<Rightarrow> same_type self m
          (if uint_int m = 0 then Inl ValueError
           else uint_new (uint_type self) (uint_int self ^ nat (uint_int value) mod uint_int m)))"

definition uint_and :: "uint \<Rightarrow> uint \<Rightarrow> uint result" where
  "uint_and self other = same_type self other
     (uint_new (uint_type self) (uint_int self AND uint_int other))"

definition uint_or :: "uint \<Rightarrow> uint \<Rightarrow> uint result" where
  "uint_or self other = same_type self other
     (uint_new (uint_type self) (uint_int self OR uint_int other))"

definition uint_xor :: "uint \<Rightarrow> uint \<Rightarrow> uint result" where
  "uint_xor self other = same_type self other
     (uint_new (uint_type self) (uint_int self XOR uint_int other))"

definition uint_lshift :: "uint \<Rightarrow> uint \<Rightarrow> uint result" where
  "uint_lshift self other = same_type self other
     (uint_new (uint_type self) (push_bit (nat (uint_int other)) (uint_int self)))"

definition uint_rshift :: "uint \<Rightarrow> uint \<Rightarrow> uint result" where
  "uint_rshift self other = same_type self other
     (uint_new (uint_type self) (drop_bit (nat (uint_int other)) (uint_int self)))"

definition uint_eq :: "uint \<Rightarrow> uint \<Rightarrow> bool result" where
  "uint_eq self other = same_type self other (Inr (uint_int self = uint_int other))"

definition uint_lt :: "uint \<Rightarrow> uint \<Rightarrow> bool result" where
  "uint_lt self other = same_type self other (Inr (uint_int self < uint_int other))"

definition uint_le :: "uint \<Rightarrow> uint \<Rightarrow> bool result" where
  "uint_le self other = same_type self other (Inr (uint_int self \<le> uint_int other))"

section \<open>Encoding\<close>

definition uint_get_byte_length :: "uint_class \<Rightarrow> nat" where
  "uint_get_byte_length cls = uint_BITS cls div 8"

definition uint_encode_bytes :: "uint \<Rightarrow> bytes" where
  "uint_encode_bytes self = le_bytes (uint_get_byte_length (uint_type self)) (nat (uint_int self))"

definition uint_decode_bytes :: "uint_class \<Rightarrow> bytes \<Rightarrow> uint result" where
  "uint_decode_bytes cls data =
     (let expected_length = uint_get_byte_length cls
      in if length data \<noteq> expected_length then Inl SSZSerializationError
         else uint_new cls (int (le_nat data)))"

definition uint_deserialize :: "uint_class \<Rightarrow> bytes \<Rightarrow> nat \<Rightarrow> (uint \<times> bytes) result" where
  "uint_deserialize cls stream scope =
     (let byte_length = uint_get_byte_length cls
      in if scope \<noteq> byte_length then Inl SSZSerializationError
         else let serialized_bytes = take byte_length stream
              in if length serialized_bytes \<noteq> byte_length then Inl SSZSerializationError
                 else rbind (uint_decode_bytes cls serialized_bytes) (\<lambda>u. Inr (u, drop byte_length stream)))"

section \<open>Lemmas\<close>

lemma uint_new_eq_Inr:
  "uint_new cls v = Inr u \<longleftrightarrow> 0 \<le> v \<and> v < 2 ^ uint_BITS cls \<and> u = \<lparr>uint_type = cls, uint_int = v\<rparr>"
  by (auto simp: uint_new_def Let_def)

lemma uint_new_eq_Inl:
  "uint_new cls v = Inl e \<longleftrightarrow> \<not> (0 \<le> v \<and> v < 2 ^ uint_BITS cls) \<and> e = SSZValueError"
  by (auto simp: uint_new_def Let_def)

lemma same_type_eq_Inr [simp]:
  "same_type a b r = Inr x \<longleftrightarrow> uint_type b = uint_type a \<and> r = Inr x"
  by (simp add: same_type_def)

lemmas uint_op_defs =
  uint_add_def uint_sub_def uint_mul_def uint_floordiv_def uint_mod_def uint_pow_def
  uint_and_def uint_or_def uint_xor_def uint_lshift_def uint_rshift_def

lemma uint_BITS_bytes: "8 * uint_get_byte_length cls = uint_BITS cls"
  by (cases cls) (simp_all add: uint_get_byte_length_def)

lemma exp_byte_length: "(256::nat) ^ uint_get_byte_length cls = 2 ^ uint_BITS cls"
proof -
  have "(256::nat) ^ uint_get_byte_length cls = (2 ^ 8) ^ uint_get_byte_length cls" by simp
  also have "\<dots> = 2 ^ uint_BITS cls" by (simp only: flip: power_mult uint_BITS_bytes)
  finally show ?thesis .
qed

text \<open>The bitwise operators and the right shift never leave the range.\<close>

lemma int_div_le_self: "0 \<le> a \<Longrightarrow> 0 \<le> b \<Longrightarrow> a div b \<le> (a :: int)"
proof (cases "b = 0")
  case False
  assume "0 \<le> a" and "0 \<le> b"
  with False have "a div b \<le> a div 1" by (intro zdiv_mono2) auto
  then show ?thesis by simp
qed simp

lemma uint_new_take_bit:
  "take_bit (uint_BITS cls) v = v \<Longrightarrow> \<exists>u. uint_new cls v = Inr u"
  by (simp add: uint_new_eq_Inr take_bit_int_eq_self_iff)

lemma uint_bitwise_total:
  assumes "uint_ok a" and "uint_ok b" and "uint_type b = uint_type a"
  shows "(\<exists>u. uint_and a b = Inr u) \<and> (\<exists>u. uint_or a b = Inr u) \<and>
         (\<exists>u. uint_xor a b = Inr u) \<and> (\<exists>u. uint_rshift a b = Inr u)"
proof -
  let ?n = "uint_BITS (uint_type a)"
  from assms have ab: "take_bit ?n (uint_int a) = uint_int a" "take_bit ?n (uint_int b) = uint_int b"
    and pos: "0 \<le> uint_int a" and hi: "uint_int a < 2 ^ ?n"
    by (simp_all add: uint_ok_def take_bit_int_eq_self_iff)
  have "uint_int a div 2 ^ k \<le> uint_int a" for k
    using pos by (rule int_div_le_self) simp
  then have "take_bit ?n (drop_bit k (uint_int a)) = drop_bit k (uint_int a)" for k
    using pos hi
    by (auto simp: take_bit_int_eq_self_iff drop_bit_eq_div pos_imp_zdiv_nonneg_iff intro: le_less_trans)
  then show ?thesis
    using assms(3) ab
    by (simp add: uint_op_defs same_type_def uint_new_take_bit take_bit_and take_bit_or take_bit_xor)
qed

lemma uint_new_ok: "uint_new cls v = Inr u \<Longrightarrow> uint_ok u"
  by (auto simp: uint_new_eq_Inr uint_ok_def)



end
