(* ===== verification/Ssz_Types.thy ===== *)
theory Ssz_Types
  imports Py_Prelude
begin

unbundle bit_operations_syntax

text \<open>
  The SSZ type system of \<^verbatim>\<open>spec/ssz/\<close>: type descriptors (the Python classes), values (their
  instances), and the stream codec of every type family: \<^verbatim>\<open>serialize\<close> and \<^verbatim>\<open>deserialize\<close> with
  the byte budget (scope), \<^verbatim>\<open>encode_bytes\<close> and \<^verbatim>\<open>decode_bytes\<close>. A binary stream is the list of
  bytes still to be read. The proofs about the codec are in \<^theory_text>\<open>Ssz_Codec\<close>.
\<close>

section \<open>Types and values\<close>

text \<open>
  A subclass of an SSZ base class is the base with its class-level constants: \<^verbatim>\<open>BITS\<close>,
  \<^verbatim>\<open>LENGTH\<close>, \<^verbatim>\<open>LIMIT\<close>, \<^verbatim>\<open>ELEMENT_TYPE\<close>; a container is the list of its field types in
  declaration order.
\<close>

datatype ssz_type =
    TUint nat
  | TBoolean
  | TFp
  | TBytes nat
  | TByteList nat
  | TBitvector nat
  | TBitlist nat
  | TVector ssz_type nat
  | TList ssz_type nat
  | TContainer "ssz_type list"

datatype ssz_value =
    VUint nat
  | VBoolean bool
  | VFp nat
  | VBytes bytes
  | VByteList bytes
  | VBitvector "bool list"
  | VBitlist "bool list"
  | VVector "ssz_value list"
  | VList "ssz_value list"
  | VContainer "ssz_value list"

text \<open>The KoalaBear prime of \<^verbatim>\<open>spec/crypto/koalabear.py\<close> and the width of a field element.\<close>

definition koalabear_P :: nat where
  "koalabear_P = 2 ^ 31 - 2 ^ 24 + 1"

definition P_BYTES :: nat where
  "P_BYTES = ceil_div (bit_length koalabear_P) 8"

definition BYTES_PER_LENGTH_OFFSET :: nat where
  "BYTES_PER_LENGTH_OFFSET = 4"

lemma size_zip_left [termination_simp]: "(x, y) \<in> set (zip xs ys) \<Longrightarrow> size x < Suc (size_list size xs)"
  by (metis in_set_zipE le_imp_less_Suc order_refl size_list_estimation')

lemma size_zip_right [termination_simp]: "(x, y) \<in> set (zip xs ys) \<Longrightarrow> size y < Suc (size_list size ys)"
  by (metis in_set_zipE le_imp_less_Suc order_refl size_list_estimation')

text \<open>What the validating constructor of each class accepts.\<close>

fun ssz_ok :: "ssz_type \<Rightarrow> ssz_value \<Rightarrow> bool" where
  "ssz_ok (TUint b) v = (case v of VUint n \<Rightarrow> n < 2 ^ b | _ \<Rightarrow> False)"
| "ssz_ok TBoolean v = (case v of VBoolean _ \<Rightarrow> True | _ \<Rightarrow> False)"
| "ssz_ok TFp v = (case v of VFp n \<Rightarrow> n < koalabear_P | _ \<Rightarrow> False)"
| "ssz_ok (TBytes k) v = (case v of VBytes bs \<Rightarrow> length bs = k | _ \<Rightarrow> False)"
| "ssz_ok (TByteList lim) v = (case v of VByteList bs \<Rightarrow> length bs \<le> lim | _ \<Rightarrow> False)"
| "ssz_ok (TBitvector k) v = (case v of VBitvector bits \<Rightarrow> length bits = k | _ \<Rightarrow> False)"
| "ssz_ok (TBitlist lim) v = (case v of VBitlist bits \<Rightarrow> length bits \<le> lim | _ \<Rightarrow> False)"
| "ssz_ok (TVector t k) v =
     (case v of VVector vs \<Rightarrow> length vs = k \<and> list_all (ssz_ok t) vs | _ \<Rightarrow> False)"
| "ssz_ok (TList t lim) v =
     (case v of VList vs \<Rightarrow> length vs \<le> lim \<and> list_all (ssz_ok t) vs | _ \<Rightarrow> False)"
| "ssz_ok (TContainer ts) v =
     (case v of VContainer vs \<Rightarrow> length vs = length ts \<and> list_all (\<lambda>(t, w). ssz_ok t w) (zip ts vs)
      | _ \<Rightarrow> False)"

section \<open>Sizes\<close>

fun is_fixed_size :: "ssz_type \<Rightarrow> bool" where
  "is_fixed_size (TUint b) = True"
| "is_fixed_size TBoolean = True"
| "is_fixed_size TFp = True"
| "is_fixed_size (TBytes k) = True"
| "is_fixed_size (TByteList lim) = False"
| "is_fixed_size (TBitvector k) = True"
| "is_fixed_size (TBitlist lim) = False"
| "is_fixed_size (TVector t k) = is_fixed_size t"
| "is_fixed_size (TList t lim) = False"
| "is_fixed_size (TContainer ts) = list_all is_fixed_size ts"

text \<open>The width of a fixed-size type; \<open>get_byte_length\<close> raises on the others.\<close>

fun byte_width :: "ssz_type \<Rightarrow> nat" where
  "byte_width (TUint b) = b div 8"
| "byte_width TBoolean = 1"
| "byte_width TFp = P_BYTES"
| "byte_width (TBytes k) = k"
| "byte_width (TByteList lim) = 0"
| "byte_width (TBitvector k) = ceil_div k 8"
| "byte_width (TBitlist lim) = 0"
| "byte_width (TVector t k) = byte_width t * k"
| "byte_width (TList t lim) = 0"
| "byte_width (TContainer ts) = sum_list (map byte_width ts)"

definition get_byte_length :: "ssz_type \<Rightarrow> nat result" where
  "get_byte_length t = (if is_fixed_size t then Inr (byte_width t) else Inl SSZTypeError)"

section \<open>Bitfields\<close>

text \<open>\<^verbatim>\<open>sum(1 << i for i, bit in enumerate(bits) if bit)\<close>\<close>

definition packed_bits :: "bool list \<Rightarrow> nat" where
  "packed_bits bits = sum_list (map (\<lambda>(i, bit). if bit then 2 ^ i else 0) (enumerate 0 bits))"

text \<open>\<^verbatim>\<open>[Boolean((data[i // 8] >> (i % 8)) & 1) for i in range(n)]\<close>\<close>

definition unpack_bits :: "bytes \<Rightarrow> nat \<Rightarrow> bool list" where
  "unpack_bits data n = map (\<lambda>i. bit (data ! (i div 8)) (i mod 8)) [0..<n]"

definition bitvector_encode :: "nat \<Rightarrow> bool list \<Rightarrow> bytes" where
  "bitvector_encode k bits = le_bytes (ceil_div k 8) (packed_bits bits)"

definition bitvector_decode :: "nat \<Rightarrow> bytes \<Rightarrow> ssz_value result" where
  "bitvector_decode k data =
     (if length data \<noteq> ceil_div k 8 then Inl SSZValueError
      else if k mod 8 \<noteq> 0 \<and> drop_bit (k mod 8) (last data) \<noteq> 0 then Inl SSZValueError
      else Inr (VBitvector (unpack_bits data k)))"

definition bitlist_encode :: "bool list \<Rightarrow> bytes" where
  "bitlist_encode bits =
     (let num_bits = length bits
      in if num_bits = 0 then [1]
         else le_bytes (ceil_div (num_bits + 1) 8) (packed_bits bits OR push_bit num_bits 1))"

definition bitlist_decode :: "nat \<Rightarrow> bytes \<Rightarrow> ssz_value result" where
  "bitlist_decode lim data =
     (if length data = 0 then Inl SSZSerializationError
      else let packed_integer = le_nat data
      in if packed_integer = 0 then Inl SSZSerializationError
      else let delimiter_pos = bit_length packed_integer - 1
      in if delimiter_pos div 8 \<noteq> length data - 1 then Inl SSZSerializationError
      else if delimiter_pos > lim then Inl SSZValueError
      else Inr (VBitlist (unpack_bits data delimiter_pos)))"

section \<open>Serialization\<close>

text \<open>\<^verbatim>\<open>Uint32(offset).serialize(stream)\<close>: the constructor range-checks the offset.\<close>

definition offset_bytes :: "nat \<Rightarrow> bytes result" where
  "offset_bytes off = (if off < 2 ^ 32 then Inr (le_bytes BYTES_PER_LENGTH_OFFSET off) else Inl SSZValueError)"

text \<open>
  \<^verbatim>\<open>_SSZSequence._write_variable_payload\<close>: the loop writes an offset to the stream and a body
  to the buffer for every element; the result is the pair of the two.
\<close>

fun variable_payload :: "bytes result list \<Rightarrow> nat \<Rightarrow> (bytes \<times> bytes) result" where
  "variable_payload [] offset = Inr ([], [])"
| "variable_payload (element # elements) offset =
     rbind (offset_bytes offset) (\<lambda>off.
     rbind element (\<lambda>body.
     rbind (variable_payload elements (offset + length body)) (\<lambda>(table, bodies).
     Inr (off @ table, body @ bodies))))"

text \<open>
  The loop of \<^verbatim>\<open>Container.serialize\<close>: a fixed-size field goes to the stream, a variable-size
  field leaves an offset there and goes to the tail.
\<close>

fun container_payload :: "(bool \<times> bytes result) list \<Rightarrow> nat \<Rightarrow> (bytes \<times> bytes) result" where
  "container_payload [] offset = Inr ([], [])"
| "container_payload ((fixed, field) # fields) offset =
     (if fixed then
        rbind field (\<lambda>body.
        rbind (container_payload fields offset) (\<lambda>(head, tail).
        Inr (body @ head, tail)))
      else
        rbind (offset_bytes offset) (\<lambda>off.
        rbind field (\<lambda>body.
        rbind (container_payload fields (offset + length body)) (\<lambda>(head, tail).
        Inr (off @ head, body @ tail)))))"

text \<open>The leading-part slot of a field: its width, or one offset.\<close>

definition slot_width :: "ssz_type \<Rightarrow> nat" where
  "slot_width t = (if is_fixed_size t then byte_width t else BYTES_PER_LENGTH_OFFSET)"

definition vector_serialize :: "(ssz_value \<Rightarrow> bytes result) \<Rightarrow> bool \<Rightarrow> nat \<Rightarrow> ssz_value list \<Rightarrow> bytes result" where
  "vector_serialize ser fixed k vs =
     (if fixed then rbind (rmap ser vs) (\<lambda>bodies. Inr (concat bodies))
      else rbind (variable_payload (map ser vs) (k * BYTES_PER_LENGTH_OFFSET))
             (\<lambda>(table, bodies). Inr (table @ bodies)))"

definition list_serialize :: "(ssz_value \<Rightarrow> bytes result) \<Rightarrow> bool \<Rightarrow> ssz_value list \<Rightarrow> bytes result" where
  "list_serialize ser fixed vs =
     (if fixed then rbind (rmap ser vs) (\<lambda>bodies. Inr (concat bodies))
      else rbind (variable_payload (map ser vs) (length vs * BYTES_PER_LENGTH_OFFSET))
             (\<lambda>(table, bodies). Inr (table @ bodies)))"

definition container_serialize :: "(bool \<times> bytes result) list \<Rightarrow> nat list \<Rightarrow> bytes result" where
  "container_serialize fields widths =
     rbind (container_payload fields (sum_list widths)) (\<lambda>(head, tail). Inr (head @ tail))"

definition boolean_encode :: "bool \<Rightarrow> bytes" where
  "boolean_encode c = (if c then [1] else [0])"

definition fp_serialize :: "nat \<Rightarrow> bytes" where
  "fp_serialize n = le_bytes P_BYTES n"

text \<open>Dispatch on the class of the value; a value of another class is a type error.\<close>

fun serialize :: "ssz_type \<Rightarrow> ssz_value \<Rightarrow> bytes result" where
  "serialize (TUint b) v = (case v of VUint n \<Rightarrow> Inr (le_bytes (b div 8) n) | _ \<Rightarrow> Inl TypeError)"
| "serialize TBoolean v = (case v of VBoolean c \<Rightarrow> Inr (boolean_encode c) | _ \<Rightarrow> Inl TypeError)"
| "serialize TFp v = (case v of VFp n \<Rightarrow> Inr (fp_serialize n) | _ \<Rightarrow> Inl TypeError)"
| "serialize (TBytes k) v = (case v of VBytes bs \<Rightarrow> Inr bs | _ \<Rightarrow> Inl TypeError)"
| "serialize (TByteList lim) v = (case v of VByteList bs \<Rightarrow> Inr bs | _ \<Rightarrow> Inl TypeError)"
| "serialize (TBitvector k) v =
     (case v of VBitvector bits \<Rightarrow> Inr (bitvector_encode k bits) | _ \<Rightarrow> Inl TypeError)"
| "serialize (TBitlist lim) v =
     (case v of VBitlist bits \<Rightarrow> Inr (bitlist_encode bits) | _ \<Rightarrow> Inl TypeError)"
| "serialize (TVector t k) v =
     (case v of VVector vs \<Rightarrow> vector_serialize (serialize t) (is_fixed_size t) k vs | _ \<Rightarrow> Inl TypeError)"
| "serialize (TList t lim) v =
     (case v of VList vs \<Rightarrow> list_serialize (serialize t) (is_fixed_size t) vs | _ \<Rightarrow> Inl TypeError)"
| "serialize (TContainer ts) v =
     (case v of VContainer vs \<Rightarrow>
        container_serialize (map (\<lambda>(t, w). (is_fixed_size t, serialize t w)) (zip ts vs)) (map slot_width ts)
      | _ \<Rightarrow> Inl TypeError)"

section \<open>Deserialization\<close>

type_synonym decoder = "bytes \<Rightarrow> nat \<Rightarrow> (ssz_value \<times> bytes) result"

text \<open>\<^verbatim>\<open>stream.read(n)\<close> followed by the check that the stream did not end early.\<close>

definition read_exact :: "nat \<Rightarrow> bytes \<Rightarrow> (bytes \<times> bytes) result" where
  "read_exact n stream =
     (if length (take n stream) \<noteq> n then Inl SSZSerializationError
      else Inr (take n stream, drop n stream))"

definition boolean_decode :: "bytes \<Rightarrow> ssz_value result" where
  "boolean_decode data =
     (if length data \<noteq> 1 then Inl SSZSerializationError
      else if data ! 0 \<noteq> 0 \<and> data ! 0 \<noteq> 1 then Inl SSZSerializationError
      else Inr (VBoolean (data ! 0 = 1)))"

text \<open>\<^verbatim>\<open>[int(Uint32.deserialize(stream, 4)) for _ in range(n)]\<close>\<close>

primrec read_offsets :: "nat \<Rightarrow> bytes \<Rightarrow> (nat list \<times> bytes) result" where
  "read_offsets 0 stream = Inr ([], stream)"
| "read_offsets (Suc n) stream =
     rbind (read_exact BYTES_PER_LENGTH_OFFSET stream) (\<lambda>(data, rest).
     rbind (read_offsets n rest) (\<lambda>(offsets, rest').
     Inr (le_nat data # offsets, rest')))"

fun offsets_monotone :: "nat list \<Rightarrow> bool" where
  "offsets_monotone (a # b # offsets) = (a \<le> b \<and> offsets_monotone (b # offsets))"
| "offsets_monotone offsets = True"

definition validate_offsets :: "nat list \<Rightarrow> nat \<Rightarrow> unit result" where
  "validate_offsets offsets scope =
     (if offsets = [] then Inr ()
      else rbind (require (offsets_monotone offsets) SSZSerializationError) (\<lambda>_.
           require (last offsets \<le> scope) SSZSerializationError))"

text \<open>The spans \<^verbatim>\<open>end - start for start, end in pairwise(offsets)\<close>.\<close>

fun spans :: "nat list \<Rightarrow> nat list" where
  "spans (a # b # offsets) = (b - a) # spans (b # offsets)"
| "spans offsets = []"

text \<open>A list comprehension of element decodes, one per byte budget, from one stream.\<close>

primrec read_elements :: "decoder \<Rightarrow> nat list \<Rightarrow> bytes \<Rightarrow> (ssz_value list \<times> bytes) result" where
  "read_elements dec [] stream = Inr ([], stream)"
| "read_elements dec (scope # scopes) stream =
     rbind (dec stream scope) (\<lambda>(v, rest).
     rbind (read_elements dec scopes rest) (\<lambda>(vs, rest').
     Inr (v # vs, rest')))"

text \<open>Phase 1 of \<^verbatim>\<open>Container.deserialize\<close>: a slot is a decoded field or an offset.\<close>

fun read_slots :: "(bool \<times> nat \<times> decoder) list \<Rightarrow> bytes \<Rightarrow> ((ssz_value + nat) list \<times> bytes) result" where
  "read_slots [] stream = Inr ([], stream)"
| "read_slots ((fixed, width, dec) # fields) stream =
     (if fixed then
        rbind (dec stream width) (\<lambda>(v, rest).
        rbind (read_slots fields rest) (\<lambda>(slots, rest').
        Inr (Inl v # slots, rest')))
      else
        rbind (read_exact BYTES_PER_LENGTH_OFFSET stream) (\<lambda>(data, rest).
        rbind (read_slots fields rest) (\<lambda>(slots, rest').
        Inr (Inr (le_nat data) # slots, rest'))))"

text \<open>Phase 2: every variable field spans from its offset to the next boundary.\<close>

fun read_windows :: "decoder list \<Rightarrow> nat list \<Rightarrow> bytes \<Rightarrow> (ssz_value list \<times> bytes) result" where
  "read_windows [] boundaries stream = Inr ([], stream)"
| "read_windows (dec # decs) (start # stop # boundaries) stream =
     (if stop < start then Inl SSZSerializationError
      else rbind (dec stream (stop - start)) (\<lambda>(v, rest).
           rbind (read_windows decs (stop # boundaries) rest) (\<lambda>(vs, rest').
           Inr (v # vs, rest'))))"
| "read_windows (dec # decs) boundaries stream = Inl ValueError"

fun slot_offsets :: "(ssz_value + nat) list \<Rightarrow> nat list" where
  "slot_offsets [] = []"
| "slot_offsets (Inl v # slots) = slot_offsets slots"
| "slot_offsets (Inr offset # slots) = offset # slot_offsets slots"

text \<open>\<^verbatim>\<open>cls(**fields)\<close>: the decoded fields in declaration order.\<close>

fun fill_slots :: "(ssz_value + nat) list \<Rightarrow> ssz_value list \<Rightarrow> ssz_value list" where
  "fill_slots [] vs = []"
| "fill_slots (Inl v # slots) vs = v # fill_slots slots vs"
| "fill_slots (Inr offset # slots) (v # vs) = v # fill_slots slots vs"
| "fill_slots (Inr offset # slots) [] = []"

definition make_list :: "nat \<Rightarrow> ssz_value list \<Rightarrow> ssz_value result" where
  "make_list lim vs = (if length vs > lim then Inl SSZValueError else Inr (VList vs))"

definition make_vector :: "nat \<Rightarrow> ssz_value list \<Rightarrow> ssz_value result" where
  "make_vector k vs = (if length vs \<noteq> k then Inl SSZValueError else Inr (VVector vs))"

definition vector_deserialize :: "decoder \<Rightarrow> bool \<Rightarrow> nat \<Rightarrow> nat \<Rightarrow> decoder" where
  "vector_deserialize dec fixed width k stream scope =
     (if fixed then
        if scope \<noteq> width * k then Inl SSZSerializationError
        else rbind (read_elements dec (replicate k width) stream) (\<lambda>(vs, rest).
             rbind (make_vector k vs) (\<lambda>v. Inr (v, rest)))
      else
        let expected_first = k * BYTES_PER_LENGTH_OFFSET
        in if scope < expected_first then Inl SSZSerializationError
        else rbind (read_offsets k stream) (\<lambda>(offsets, rest).
             rbind (py_index offsets 0) (\<lambda>first.
             if first \<noteq> expected_first then Inl SSZSerializationError
             else rbind (validate_offsets (offsets @ [scope]) scope) (\<lambda>_.
                  rbind (read_elements dec (spans (offsets @ [scope])) rest) (\<lambda>(vs, rest').
                  rbind (make_vector k vs) (\<lambda>v. Inr (v, rest')))))))"

definition list_deserialize :: "decoder \<Rightarrow> bool \<Rightarrow> nat \<Rightarrow> nat \<Rightarrow> decoder" where
  "list_deserialize dec fixed width lim stream scope =
     (if scope = 0 then rbind (make_list lim []) (\<lambda>v. Inr (v, stream))
      else if fixed then
        if width = 0 then Inl ZeroDivisionError
        else if scope mod width \<noteq> 0 then Inl SSZSerializationError
        else let num_elements = scope div width
             in if num_elements > lim then Inl SSZValueError
             else rbind (read_elements dec (replicate num_elements width) stream) (\<lambda>(vs, rest).
                  rbind (make_list lim vs) (\<lambda>v. Inr (v, rest)))
      else if scope < BYTES_PER_LENGTH_OFFSET then Inl SSZSerializationError
      else rbind (read_exact BYTES_PER_LENGTH_OFFSET stream) (\<lambda>(data, rest).
           let first_offset = le_nat data
           in if first_offset > scope \<or> first_offset mod BYTES_PER_LENGTH_OFFSET \<noteq> 0
              then Inl SSZSerializationError
           else let num_elements = first_offset div BYTES_PER_LENGTH_OFFSET
           in if num_elements > lim then Inl SSZValueError
           else rbind (read_offsets (num_elements - 1) rest) (\<lambda>(others, rest').
                let offsets = first_offset # others @ [scope]
                in rbind (validate_offsets offsets scope) (\<lambda>_.
                   rbind (read_elements dec (spans offsets) rest') (\<lambda>(vs, rest'').
                   rbind (make_list lim vs) (\<lambda>v. Inr (v, rest'')))))))"

definition container_deserialize ::
    "(bool \<times> nat \<times> decoder) list \<Rightarrow> decoder list \<Rightarrow> nat \<Rightarrow> decoder" where
  "container_deserialize fields variable_decs bytes_read stream scope =
     rbind (read_slots fields stream) (\<lambda>(slots, rest).
       let offsets = slot_offsets slots
       in if offsets = [] then Inr (VContainer (fill_slots slots []), rest)
       else if hd offsets \<noteq> bytes_read then Inl SSZSerializationError
       else rbind (read_windows variable_decs (offsets @ [scope]) rest) (\<lambda>(vs, rest').
            Inr (VContainer (fill_slots slots vs), rest')))"

definition uint_stream_deserialize :: "nat \<Rightarrow> decoder" where
  "uint_stream_deserialize b stream scope =
     (if scope \<noteq> b div 8 then Inl SSZSerializationError
      else rbind (read_exact (b div 8) stream) (\<lambda>(data, rest).
           let n = le_nat data in if n < 2 ^ b then Inr (VUint n, rest) else Inl SSZValueError))"

definition boolean_deserialize :: decoder where
  "boolean_deserialize stream scope =
     (if scope \<noteq> 1 then Inl SSZSerializationError
      else rbind (boolean_decode (take 1 stream)) (\<lambda>v. Inr (v, drop 1 stream)))"

definition fp_deserialize :: decoder where
  "fp_deserialize stream scope =
     (if scope \<noteq> P_BYTES then Inl SSZSerializationError
      else rbind (read_exact P_BYTES stream) (\<lambda>(data, rest).
           let n = le_nat data in if n \<ge> koalabear_P then Inl SSZValueError else Inr (VFp n, rest)))"

definition bytes_deserialize :: "nat \<Rightarrow> decoder" where
  "bytes_deserialize k stream scope =
     (if scope \<noteq> k then Inl SSZSerializationError
      else rbind (read_exact scope stream) (\<lambda>(data, rest). Inr (VBytes data, rest)))"

definition byte_list_deserialize :: "nat \<Rightarrow> decoder" where
  "byte_list_deserialize lim stream scope =
     (if scope > lim then Inl SSZValueError
      else rbind (read_exact scope stream) (\<lambda>(data, rest). Inr (VByteList data, rest)))"

definition bitvector_deserialize :: "nat \<Rightarrow> decoder" where
  "bitvector_deserialize k stream scope =
     (if scope \<noteq> ceil_div k 8 then Inl SSZSerializationError
      else rbind (read_exact scope stream) (\<lambda>(data, rest).
           rbind (bitvector_decode k data) (\<lambda>v. Inr (v, rest))))"

definition bitlist_deserialize :: "nat \<Rightarrow> decoder" where
  "bitlist_deserialize lim stream scope =
     rbind (read_exact scope stream) (\<lambda>(data, rest).
     rbind (bitlist_decode lim data) (\<lambda>v. Inr (v, rest)))"

fun deserialize :: "ssz_type \<Rightarrow> decoder" where
  "deserialize (TUint b) = uint_stream_deserialize b"
| "deserialize TBoolean = boolean_deserialize"
| "deserialize TFp = fp_deserialize"
| "deserialize (TBytes k) = bytes_deserialize k"
| "deserialize (TByteList lim) = byte_list_deserialize lim"
| "deserialize (TBitvector k) = bitvector_deserialize k"
| "deserialize (TBitlist lim) = bitlist_deserialize lim"
| "deserialize (TVector t k) = vector_deserialize (deserialize t) (is_fixed_size t) (byte_width t) k"
| "deserialize (TList t lim) = list_deserialize (deserialize t) (is_fixed_size t) (byte_width t) lim"
| "deserialize (TContainer ts) =
     container_deserialize
       (map (\<lambda>t. (is_fixed_size t, byte_width t, deserialize t)) ts)
       (map deserialize (filter (\<lambda>t. \<not> is_fixed_size t) ts))
       (sum_list (map slot_width ts))"

section \<open>Top-level decoding\<close>

text \<open>\<^verbatim>\<open>SSZType.decode_bytes\<close>, with the trailing-byte check.\<close>

definition stream_decode_bytes :: "ssz_type \<Rightarrow> bytes \<Rightarrow> ssz_value result" where
  "stream_decode_bytes t data =
     rbind (deserialize t data (length data)) (\<lambda>(v, rest).
     if rest \<noteq> [] then Inl SSZSerializationError else Inr v)"

fun decode_bytes :: "ssz_type \<Rightarrow> bytes \<Rightarrow> ssz_value result" where
  "decode_bytes (TUint b) data =
     (if length data \<noteq> b div 8 then Inl SSZSerializationError
      else let n = le_nat data in if n < 2 ^ b then Inr (VUint n) else Inl SSZValueError)"
| "decode_bytes TBoolean data = boolean_decode data"
| "decode_bytes (TBytes k) data = (if length data \<noteq> k then Inl SSZValueError else Inr (VBytes data))"
| "decode_bytes (TByteList lim) data =
     (if length data > lim then Inl SSZValueError else Inr (VByteList data))"
| "decode_bytes (TBitvector k) data = bitvector_decode k data"
| "decode_bytes (TBitlist lim) data = bitlist_decode lim data"
| "decode_bytes t data = stream_decode_bytes t data"

definition encode_bytes :: "ssz_type \<Rightarrow> ssz_value \<Rightarrow> bytes result" where
  "encode_bytes t v = serialize t v"

text \<open>
  The types the code declares: integers of whole bytes, vectors of variable-size elements with at
  least one element, list elements of positive width.
\<close>

fun ssz_wf :: "ssz_type \<Rightarrow> bool" where
  "ssz_wf (TUint b) \<longleftrightarrow> b mod 8 = 0"
| "ssz_wf (TVector t k) \<longleftrightarrow> ssz_wf t \<and> (is_fixed_size t \<or> 0 < k)"
| "ssz_wf (TList t lim) \<longleftrightarrow> ssz_wf t \<and> (is_fixed_size t \<longrightarrow> 0 < byte_width t)"
| "ssz_wf (TContainer ts) \<longleftrightarrow> list_all ssz_wf ts"
| "ssz_wf t \<longleftrightarrow> True"

end
