(* ===== verification/Ssz_Codec.thy ===== *)
theory Ssz_Codec
  imports Ssz_Types
begin

unbundle bit_operations_syntax

text \<open>
  Correctness of the SSZ codec of \<^theory_text>\<open>Ssz_Types\<close>: the bit packing of bitfields, the shared
  loops over elements and fields, and then by induction on the type descriptor that decoding
  inverts encoding, that only canonical encodings decode, and that fixed-size types have the
  declared width.
\<close>

lemmas leaf_codecs [simp] =
  vector_serialize_def list_serialize_def container_serialize_def boolean_encode_def fp_serialize_def
  uint_stream_deserialize_def boolean_deserialize_def fp_deserialize_def bytes_deserialize_def
  byte_list_deserialize_def bitvector_deserialize_def bitlist_deserialize_def

section \<open>Bit packing\<close>

lemma packed_bits_Nil [simp]: "packed_bits [] = 0"
  by (simp add: packed_bits_def)

lemma sum_enumerate_Suc:
  "sum_list (map (\<lambda>(i, b). if b then 2 ^ i else 0) (enumerate (Suc k) bits)) =
   2 * (sum_list (map (\<lambda>(i, b). if b then 2 ^ i else 0) (enumerate k bits)) :: nat)"
  by (induction bits arbitrary: k) auto

lemma packed_bits_Cons [simp]: "packed_bits (b # bits) = (if b then 1 else 0) + 2 * packed_bits bits"
  by (simp add: packed_bits_def sum_enumerate_Suc)

lemma packed_bits_less: "packed_bits bits < 2 ^ length bits"
  by (induction bits) auto

lemma bit_packed_bits: "bit (packed_bits bits) i \<longleftrightarrow> i < length bits \<and> bits ! i"
proof (induction bits arbitrary: i)
  case (Cons b bits)
  show ?case
    by (cases i) (auto simp: bit_0 bit_Suc Cons.IH)
qed simp

lemma bit_le_nat: "bit (le_nat data) i \<longleftrightarrow> i div 8 < length data \<and> bit (data ! (i div 8)) (i mod 8)"
proof (induction data arbitrary: i)
  case (Cons b data)
  have "unat b + push_bit 8 (le_nat data) = unat b OR push_bit 8 (le_nat data)"
    by (rule disjunctive_add) (auto simp: bit_push_bit_iff bit_unsigned_iff dest: bit_imp_le_length)
  then have split: "le_nat (b # data) = unat b OR push_bit 8 (le_nat data)"
    by (simp add: push_bit_eq_mult)
  show ?case
  proof (cases "i < 8")
    case True
    then show ?thesis by (simp add: split bit_or_iff bit_push_bit_iff bit_unsigned_iff del: le_nat.simps)
  next
    case False
    then obtain j where "i = j + 8" by (metis add.commute le_Suc_ex not_less)
    moreover have "(j + 8) div 8 = Suc (j div 8)" by simp
    ultimately show ?thesis
      by (auto simp: split bit_or_iff bit_push_bit_iff bit_unsigned_iff Cons.IH simp del: le_nat.simps
          dest: bit_imp_le_length)
  qed
qed simp

lemma unpack_bits_eq: "n \<le> 8 * length data \<Longrightarrow> unpack_bits data n = map (bit (le_nat data)) [0..<n]"
  by (auto simp: unpack_bits_def bit_le_nat)

lemma packed_bits_unpack: "packed_bits (map (bit m) [0..<n]) = take_bit n m"
  by (rule bit_eqI) (auto simp: bit_packed_bits bit_take_bit_iff)

lemma unpack_packed: "map (bit (packed_bits bits)) [0..<length bits] = bits"
  by (rule nth_equalityI) (auto simp: bit_packed_bits)

lemma high_bits_zero: "(\<And>i. k \<le> i \<Longrightarrow> \<not> bit m i) \<Longrightarrow> m < 2 ^ k" for m :: nat
  by (metis bit_eqI bit_take_bit_iff not_le take_bit_nat_less_exp)

lemma bit_length_eqI: "2 ^ n \<le> m \<Longrightarrow> m < 2 ^ Suc n \<Longrightarrow> bit_length m = Suc n"
  by (metis bit_length_le_iff le_antisym not_less_eq_eq not_less)

lemma exp_256: "256 ^ k = (2 ^ (8 * k) :: nat)"
  by (simp add: power_mult)

lemma ceil_div_8: "ceil_div k 8 = k div 8 + (if k mod 8 = 0 then 0 else 1)"
  unfolding ceil_div_def by (auto intro!: div_nat_eqI) (use mult_div_mod_eq [of 8 k] in linarith)

lemma ceil_div_Suc_8: "ceil_div (Suc n) 8 = Suc (n div 8)"
  unfolding ceil_div_def by auto

lemma div_mod_8: "r < 8 \<Longrightarrow> (8 * q + r) div 8 = q \<and> (8 * q + r) mod 8 = r" for q r :: nat
  by simp

lemma packed_bits_or: "packed_bits bits OR 2 ^ length bits = packed_bits bits + 2 ^ length bits"
  by (subst disjunctive_add [symmetric]) (auto simp: bit_packed_bits bit_exp_iff)

lemma packed_bits_fits: "length bits \<le> 8 * k \<Longrightarrow> packed_bits bits < 256 ^ k"
  by (metis exp_256 one_le_numeral order_less_le_trans packed_bits_less power_increasing)

lemma bitvector_decode_encode:
  assumes "length bits = k"
  shows "bitvector_decode k (bitvector_encode k bits) = Inr (VBitvector bits)"
proof -
  let ?data = "bitvector_encode k bits"
  have len: "k \<le> 8 * ceil_div k 8" using ceil_div_upper [of 8 k] by simp
  have lenD: "length ?data = ceil_div k 8" by (simp add: bitvector_encode_def)
  from len have val: "le_nat ?data = packed_bits bits"
    unfolding bitvector_encode_def by (simp add: packed_bits_fits assms)
  have "drop_bit (k mod 8) (last ?data) = 0" if "k mod 8 \<noteq> 0"
  proof (rule bit_eqI, clarsimp simp: bit_drop_bit_eq)
    fix n
    assume n: "bit (last ?data) (k mod 8 + n)"
    then have "k mod 8 + n < 8" using bit_imp_le_length [OF n] by simp
    then have idx: "(k + n) div 8 = k div 8 \<and> (k + n) mod 8 = k mod 8 + n"
      using div_mod_8 [of "k mod 8 + n" "k div 8"] unfolding add.assoc [symmetric] mult_div_mod_eq by simp
    have "last ?data = ?data ! (k div 8)"
      using that by (subst last_conv_nth) (auto simp: lenD ceil_div_8 simp flip: length_0_conv)
    then have "bit (le_nat ?data) (k + n)"
      unfolding bit_le_nat using n idx that lenD by (simp add: ceil_div_8)
    then show False using assms by (simp add: val bit_packed_bits)
  qed
  moreover have "unpack_bits ?data k = map (bit (le_nat ?data)) [0..<k]"
    by (rule unpack_bits_eq) (simp add: lenD len)
  then have "unpack_bits ?data k = bits" unfolding val using unpack_packed [of bits] assms by simp
  ultimately show ?thesis using lenD by (auto simp: bitvector_decode_def)
qed

lemma bitvector_decode_sound:
  assumes "bitvector_decode k data = Inr v"
  shows "\<exists>bits. v = VBitvector bits \<and> length bits = k \<and> bitvector_encode k bits = data"
proof -
  from assms have len: "length data = ceil_div k 8"
    and pad: "k mod 8 \<noteq> 0 \<Longrightarrow> drop_bit (k mod 8) (last data) = 0"
    and v: "v = VBitvector (unpack_bits data k)"
    by (auto simp: bitvector_decode_def split: if_splits)
  have k: "k \<le> 8 * length data" using ceil_div_upper [of 8 k] len by simp
  have "le_nat data < 2 ^ k"
  proof (rule high_bits_zero)
    fix i
    assume "k \<le> i"
    show "\<not> bit (le_nat data) i"
    proof
      assume "bit (le_nat data) i"
      then have i: "i div 8 < length data" "bit (data ! (i div 8)) (i mod 8)" by (simp_all add: bit_le_nat)
      have "k div 8 \<le> i div 8" using \<open>k \<le> i\<close> by (rule div_le_mono)
      with i(1) have nz: "k mod 8 \<noteq> 0" and q: "i div 8 = k div 8"
        by (auto simp: len ceil_div_8 split: if_splits)
      from q \<open>k \<le> i\<close> have r: "k mod 8 \<le> i mod 8"
        using div_mult_mod_eq [of k 8] div_mult_mod_eq [of i 8] by linarith
      from nz q have "last data = data ! (i div 8)"
        by (subst last_conv_nth) (auto simp: len ceil_div_8 simp flip: length_0_conv)
      then have "bit (drop_bit (k mod 8) (last data)) (i mod 8 - k mod 8)"
        using i r by (simp add: bit_drop_bit_eq)
      then show False by (simp add: pad nz)
    qed
  qed
  then have "bitvector_encode k (unpack_bits data k) = data"
    using k by (simp add: bitvector_encode_def unpack_bits_eq packed_bits_unpack take_bit_nat_eq_self
        le_bytes_le_nat len)
  then show ?thesis using v by (auto simp: unpack_bits_def)
qed

lemma bitlist_encode_eq:
  "bitlist_encode bits = le_bytes (ceil_div (Suc (length bits)) 8) (packed_bits bits + 2 ^ length bits)"
  by (auto simp: bitlist_encode_def Let_def packed_bits_or ceil_div_def)

lemma bitlist_value:
  "2 ^ length bits \<le> packed_bits bits + 2 ^ length bits \<and> packed_bits bits + 2 ^ length bits < 2 ^ Suc (length bits)"
  using packed_bits_less [of bits] by simp

lemma le_nat_bitlist: "le_nat (bitlist_encode bits) = packed_bits bits + 2 ^ length bits"
proof -
  have "Suc (length bits) \<le> 8 * ceil_div (Suc (length bits)) 8"
    using ceil_div_upper [of 8 "Suc (length bits)"] by simp
  then have "packed_bits bits + 2 ^ length bits < 256 ^ ceil_div (Suc (length bits)) 8"
    unfolding exp_256
    by (rule order_less_le_trans [OF conjunct2 [OF bitlist_value] power_increasing]) simp
  then show ?thesis unfolding bitlist_encode_eq by (rule le_nat_le_bytes_small)
qed

lemma bitlist_decode_encode:
  assumes "length bits \<le> lim"
  shows "bitlist_decode lim (bitlist_encode bits) = Inr (VBitlist bits)"
proof -
  let ?data = "bitlist_encode bits"
  have len: "length ?data = Suc (length bits div 8)" by (simp add: bitlist_encode_eq ceil_div_Suc_8)
  have bl: "bit_length (packed_bits bits + 2 ^ length bits) = Suc (length bits)"
    using bitlist_value by (blast intro: bit_length_eqI)
  have low: "bit (packed_bits bits + 2 ^ length bits) i \<longleftrightarrow> bits ! i" if "i < length bits" for i
    unfolding packed_bits_or [symmetric]
    using that by (simp add: bit_or_iff bit_exp_iff bit_packed_bits)
  have "unpack_bits ?data (length bits) = map (bit (le_nat ?data)) [0..<length bits]"
    by (rule unpack_bits_eq) (simp add: len)
  also have "\<dots> = bits" by (rule nth_equalityI) (simp_all add: le_nat_bitlist low)
  finally show ?thesis using assms bl len
    by (auto simp: bitlist_decode_def Let_def le_nat_bitlist)
qed

lemma bitlist_decode_sound:
  assumes "bitlist_decode lim data = Inr v"
  shows "\<exists>bits. v = VBitlist bits \<and> length bits \<le> lim \<and> bitlist_encode bits = data"
proof -
  define m where "m = le_nat data"
  define p where "p = bit_length m - 1"
  from assms have m0: "0 < m" and len: "length data = Suc (p div 8)" and lim: "p \<le> lim"
    and v: "v = VBitlist (unpack_bits data p)"
    by (auto simp: bitlist_decode_def Let_def p_def m_def split: if_splits)
  have bounds: "2 ^ p \<le> m" "m < 2 ^ Suc p"
    using exp_bit_length_le [OF m0] less_exp_bit_length [of m] bit_length_pos [OF m0] by (simp_all add: p_def)
  then have "take_bit p m = m - 2 ^ p"
    by (simp add: take_bit_eq_mod) (metis le_add_diff_inverse less_diff_conv2 mod_add_self1 mod_less mult_2)
  moreover have "unpack_bits data p = map (bit m) [0..<p]"
    unfolding m_def by (rule unpack_bits_eq) (simp add: len)
  ultimately have "packed_bits (unpack_bits data p) + 2 ^ p = m"
    using bounds(1) by (simp add: packed_bits_unpack)
  then have "bitlist_encode (unpack_bits data p) = data"
    using le_bytes_le_nat [of "Suc (p div 8)" data]
    by (simp add: bitlist_encode_eq len m_def ceil_div_Suc_8 unpack_bits_def del: le_bytes.simps)
  then show ?thesis using v lim by (auto simp: unpack_bits_def)
qed

section \<open>Offset tables\<close>

text \<open>The start offsets of consecutive bodies, the first one at \<open>off\<close>.\<close>

primrec offsets_from :: "nat \<Rightarrow> bytes list \<Rightarrow> nat list" where
  "offsets_from off [] = []"
| "offsets_from off (b # bss) = off # offsets_from (off + length b) bss"

abbreviation offset_table :: "nat list \<Rightarrow> bytes" where
  "offset_table offs \<equiv> concat (map (le_bytes BYTES_PER_LENGTH_OFFSET) offs)"

lemma length_offsets_from [simp]: "length (offsets_from off bss) = length bss"
  by (induction bss arbitrary: off) auto

lemma offset_bytes_Inr [simp]:
  "offset_bytes off = Inr bs \<longleftrightarrow> off < 2 ^ 32 \<and> bs = le_bytes BYTES_PER_LENGTH_OFFSET off"
  by (auto simp: offset_bytes_def)

lemma variable_payload_iff:
  "variable_payload elements off = Inr (table, bodies) \<longleftrightarrow>
   (\<exists>bss. elements = map Inr bss \<and> list_all (\<lambda>i. i < 2 ^ 32) (offsets_from off bss) \<and>
      table = offset_table (offsets_from off bss) \<and> bodies = concat bss)"
proof (induction elements arbitrary: off table bodies)
  case (Cons x elements)
  have ex: "(\<exists>bss. Inr b # elements = map Inr bss \<and> Q bss) \<longleftrightarrow> (\<exists>bss. elements = map Inr bss \<and> Q (b # bss))"
    for b :: bytes and Q
    by (auto simp: Cons_eq_map_conv)
  show ?case
    by (cases x) (auto simp: ex Cons.IH Cons_eq_map_conv)
qed auto

lemma length_offset_table [simp]: "length (offset_table offs) = BYTES_PER_LENGTH_OFFSET * length offs"
  by (induction offs) auto

lemma read_exact_append [simp]: "length bs = n \<Longrightarrow> read_exact n (bs @ rest) = Inr (bs, rest)"
  by (simp add: read_exact_def)

lemma read_exact_Inr: "read_exact n s = Inr (bs, rest) \<longleftrightarrow> s = bs @ rest \<and> length bs = n"
  by (auto simp: read_exact_def split: if_splits)

lemma read_offsets_table:
  "list_all (\<lambda>i. i < 2 ^ 32) offs \<Longrightarrow> read_offsets (length offs) (offset_table offs @ rest) = Inr (offs, rest)"
  by (induction offs) (auto simp: BYTES_PER_LENGTH_OFFSET_def simp del: le_bytes.simps)

lemma read_offsets_sound:
  "read_offsets n s = Inr (offs, rest) \<Longrightarrow>
   length offs = n \<and> list_all (\<lambda>i. i < 2 ^ 32) offs \<and> s = offset_table offs @ rest"
proof (induction n arbitrary: s offs)
  case (Suc n)
  then obtain data s' offs' where d: "read_exact BYTES_PER_LENGTH_OFFSET s = Inr (data, s')"
      "read_offsets n s' = Inr (offs', rest)" "offs = le_nat data # offs'"
    by auto
  moreover have "le_nat data < 2 ^ 32"
    using le_nat_less [of data] d(1) by (simp add: read_exact_Inr BYTES_PER_LENGTH_OFFSET_def)
  ultimately show ?case
    using Suc.IH [OF d(2)] by (auto simp: read_exact_Inr le_bytes_le_nat)
qed auto

lemma spans_offsets_from: "spans (offsets_from off bss @ [off + length (concat bss)]) = map length bss"
proof (induction bss arbitrary: off)
  case (Cons b bss)
  from Cons.IH [of "off + length b"] show ?case by (cases bss) (auto simp: add.assoc)
qed auto

lemma monotone_offsets_from: "offsets_monotone (offsets_from off bss @ [off + length (concat bss)])"
proof (induction bss arbitrary: off)
  case (Cons b bss)
  from Cons.IH [of "off + length b"] show ?case by (cases bss) (auto simp: add.assoc)
qed auto

lemma spans_total: "offsets_monotone (o1 # offs) \<Longrightarrow>
    o1 \<le> last (o1 # offs) \<and> sum_list (spans (o1 # offs)) = last (o1 # offs) - o1"
proof (induction offs arbitrary: o1)
  case (Cons o2 offs)
  then show ?case using Cons.IH [of o2] by fastforce
qed auto

lemma offsets_from_spans:
  "offsets_monotone (offs @ [stop]) \<Longrightarrow> map length bss = spans (offs @ [stop]) \<Longrightarrow> offs \<noteq> [] \<Longrightarrow>
   offs = offsets_from (hd offs) bss"
proof (induction offs arbitrary: bss)
  case (Cons o1 offs)
  then obtain b bss' where b: "bss = b # bss'" by (cases bss; cases offs) auto
  show ?case
  proof (cases offs)
    case Nil
    with Cons.prems b show ?thesis by simp
  next
    case (Cons o2 offs')
    with Cons.prems b Cons.IH [of bss'] show ?thesis by auto
  qed
qed auto

section \<open>Sequences\<close>

text \<open>
  The contract of an element codec that the sequence decoders rely on: \<open>decodes\<close> is the round
  trip, \<open>sound_fixed\<close> and \<open>sound_var\<close> say what a successful decode consumed. A variable-size
  decoder may consume more than its budget (never less), but when it consumes exactly the budget
  the consumed bytes are the encoding.
\<close>

definition decodes :: "(ssz_value \<Rightarrow> bool) \<Rightarrow> (ssz_value \<Rightarrow> bytes result) \<Rightarrow> decoder \<Rightarrow> bool" where
  "decodes ok ser dec \<longleftrightarrow>
     (\<forall>v b r. ok v \<longrightarrow> ser v = Inr b \<longrightarrow> dec (b @ r) (length b) = Inr (v, r))"

definition sound_fixed :: "(ssz_value \<Rightarrow> bool) \<Rightarrow> (ssz_value \<Rightarrow> bytes result) \<Rightarrow> nat \<Rightarrow> decoder \<Rightarrow> bool" where
  "sound_fixed ok ser w dec \<longleftrightarrow>
     (\<forall>s scope v r. dec s scope = Inr (v, r) \<longrightarrow> ok v \<and> (\<exists>b. s = b @ r \<and> length b = w \<and> ser v = Inr b))"

definition sound_var :: "(ssz_value \<Rightarrow> bool) \<Rightarrow> (ssz_value \<Rightarrow> bytes result) \<Rightarrow> decoder \<Rightarrow> bool" where
  "sound_var ok ser dec \<longleftrightarrow>
     (\<forall>s scope v r. dec s scope = Inr (v, r) \<longrightarrow>
        ok v \<and> (\<exists>b. s = b @ r \<and> scope \<le> length b \<and> (length b = scope \<longrightarrow> ser v = Inr b)))"

lemma read_elements_decodes:
  "decodes ok ser dec \<Longrightarrow> list_all ok vs \<Longrightarrow> map ser vs = map Inr bss \<Longrightarrow>
   read_elements dec (map length bss) (concat bss @ r) = Inr (vs, r)"
proof (induction vs arbitrary: bss)
  case (Cons v vs)
  then show ?case by (auto simp: decodes_def Cons_eq_map_conv)
qed auto

lemma read_elements_fixed:
  "sound_fixed ok ser w dec \<Longrightarrow> read_elements dec scopes s = Inr (vs, r) \<Longrightarrow>
   length vs = length scopes \<and> list_all ok vs \<and>
   (\<exists>bss. map ser vs = map Inr bss \<and> s = concat bss @ r \<and> length (concat bss) = length scopes * w)"
proof (induction scopes arbitrary: s vs)
  case (Cons k scopes)
  then obtain v s' vs' where v: "dec s k = Inr (v, s')" "read_elements dec scopes s' = Inr (vs', r)" "vs = v # vs'"
    by auto
  from v(1) Cons.prems(1) obtain b where b: "ok v" "s = b @ s'" "length b = w" "ser v = Inr b"
    unfolding sound_fixed_def by blast
  from Cons.IH [OF Cons.prems(1) v(2)] obtain bss where "map ser vs' = map Inr bss" "s' = concat bss @ r"
      "length (concat bss) = length scopes * w" "length vs' = length scopes" "list_all ok vs'"
    by blast
  with v b show ?case by (auto intro: exI [of _ "b # bss"])
qed auto

lemma read_elements_var:
  "sound_var ok ser dec \<Longrightarrow> read_elements dec scopes s = Inr (vs, r) \<Longrightarrow>
   length vs = length scopes \<and> list_all ok vs \<and>
   (\<exists>bss. length bss = length scopes \<and> s = concat bss @ r \<and> sum_list scopes \<le> length (concat bss) \<and>
      (length (concat bss) = sum_list scopes \<longrightarrow> map length bss = scopes \<and> map ser vs = map Inr bss))"
proof (induction scopes arbitrary: s vs)
  case (Cons k scopes)
  then obtain v s' vs' where v: "dec s k = Inr (v, s')" "read_elements dec scopes s' = Inr (vs', r)" "vs = v # vs'"
    by auto
  from v(1) Cons.prems(1) obtain b where b: "ok v" "s = b @ s'" "k \<le> length b" "length b = k \<longrightarrow> ser v = Inr b"
    unfolding sound_var_def by blast
  from Cons.IH [OF Cons.prems(1) v(2)] obtain bss where ih: "length vs' = length scopes" "list_all ok vs'"
      "length bss = length scopes" "s' = concat bss @ r" "sum_list scopes \<le> length (concat bss)"
      "length (concat bss) = sum_list scopes \<longrightarrow> map length bss = scopes \<and> map ser vs' = map Inr bss"
    by blast
  have eq: "map length (b # bss) = k # scopes \<and> map ser (v # vs') = map Inr (b # bss)"
    if "length (concat (b # bss)) = sum_list (k # scopes)"
  proof -
    have "length b = k" "length (concat bss) = sum_list scopes"
      using that b(3) ih(5) by simp_all
    with b(4) ih(6) show ?thesis by simp
  qed
  have "length (b # bss) = length (k # scopes)" "s = concat (b # bss) @ r"
      "sum_list (k # scopes) \<le> length (concat (b # bss))" "length vs = length (k # scopes)" "list_all ok vs"
    using v(3) b(1-3) ih(1-5) by simp_all
  then show ?case
    by (intro conjI exI [of _ "b # bss"]) (assumption | (unfold v(3), rule impI, erule eq))+
qed auto

lemma map_eq_map_Inr: "map f xs = map Inr ys \<longleftrightarrow> list_all2 (\<lambda>x y. f x = Inr y) xs ys"
proof (induction xs arbitrary: ys)
  case (Cons x xs)
  then show ?case by (cases ys) auto
qed auto

lemma rmap_eq_map_Inr: "rmap f xs = Inr ys \<longleftrightarrow> map f xs = map Inr ys"
  by (simp add: rmap_Inr_iff map_eq_map_Inr)

lemma fixed_widths:
  "list_all2 (\<lambda>v b. ser v = Inr b) vs bss \<Longrightarrow> list_all ok vs \<Longrightarrow>
   (\<And>v b. ok v \<Longrightarrow> ser v = Inr b \<Longrightarrow> length b = w) \<Longrightarrow> map length bss = replicate (length vs) w"
  by (induction rule: list_all2_induct) auto

lemma map_Inr_inject [simp]: "map Inr xs = map Inr ys \<longleftrightarrow> xs = ys"
  by (simp add: inj_map_eq_map inj_on_def)

text \<open>The encoding of a sequence of fixed-size and of variable-size elements.\<close>

abbreviation fixed_payload :: "(ssz_value \<Rightarrow> bytes result) \<Rightarrow> ssz_value list \<Rightarrow> bytes result" where
  "fixed_payload ser vs \<equiv> rbind (rmap ser vs) (\<lambda>bodies. Inr (concat bodies))"

abbreviation offset_payload :: "(ssz_value \<Rightarrow> bytes result) \<Rightarrow> ssz_value list \<Rightarrow> nat \<Rightarrow> bytes result" where
  "offset_payload ser vs off \<equiv>
     rbind (variable_payload (map ser vs) off) (\<lambda>(table, bodies). Inr (table @ bodies))"

lemma vector_fixed_decodes:
  assumes "decodes ok ser dec" and "sound_fixed ok ser w dec" and "length vs = k" and "list_all ok vs"
    and "\<And>v b. ok v \<Longrightarrow> ser v = Inr b \<Longrightarrow> length b = w" and "fixed_payload ser vs = Inr b"
  shows "vector_deserialize dec True w k (b @ r) (length b) = Inr (VVector vs, r)"
proof -
  from assms(6) obtain bss where bss: "map ser vs = map Inr bss" "b = concat bss"
    by (auto simp: rmap_eq_map_Inr)
  have "map length bss = replicate k w"
    using fixed_widths [of ser vs bss ok w] bss(1) assms(3,4,5) by (simp add: map_eq_map_Inr)
  moreover from this have "length b = w * k"
    using bss(2) by (simp add: length_concat sum_list_replicate)
  ultimately show ?thesis
    using read_elements_decodes [OF assms(1,4) bss(1), of r] assms(3) bss(2)
    by (simp add: vector_deserialize_def make_vector_def)
qed

lemma length_spans: "length (spans (offs @ [stop])) = length offs"
proof (induction offs)
  case (Cons o1 offs)
  then show ?case by (cases offs) auto
qed auto

lemma offset_bodies_sound:
  assumes "sound_var ok ser dec" and "offs \<noteq> []" and "offsets_monotone (offs @ [scope])"
    and "list_all (\<lambda>i. i < 2 ^ 32) offs" and "read_elements dec (spans (offs @ [scope])) s = Inr (vs, r)"
  shows "length vs = length offs \<and> list_all ok vs \<and> hd offs \<le> scope \<and>
    (\<exists>b. s = b @ r \<and> scope - hd offs \<le> length b \<and>
       (length b = scope - hd offs \<longrightarrow> variable_payload (map ser vs) (hd offs) = Inr (offset_table offs, b)))"
proof -
  obtain o1 offs' where offs: "offs = o1 # offs'" using assms(2) by (cases offs) auto
  from assms(3) have tot: "o1 \<le> scope" "sum_list (spans (offs @ [scope])) = scope - o1"
    using spans_total [of o1 "offs' @ [scope]"] by (simp_all add: offs)
  from read_elements_var [OF assms(1,5)] obtain bss where vs: "length vs = length offs" "list_all ok vs"
    and bss: "s = concat bss @ r" "scope - o1 \<le> length (concat bss)"
      "length (concat bss) = scope - o1 \<Longrightarrow> map length bss = spans (offs @ [scope]) \<and> map ser vs = map Inr bss"
    unfolding length_spans tot(2) by metis
  have "variable_payload (map ser vs) o1 = Inr (offset_table offs, concat bss)"
    if "length (concat bss) = scope - o1"
    unfolding variable_payload_iff
    using offsets_from_spans [OF assms(3) _ assms(2), of bss] bss(3) [OF that] assms(4)
    by (intro exI [of _ bss]) (simp add: offs)
  with vs tot(1) bss(1,2) show ?thesis by (auto simp: offs)
qed

lemma vector_fixed_sound:
  assumes "sound_fixed ok ser w dec" and "vector_deserialize dec True w k s scope = Inr (v, r)"
  shows "\<exists>vs b. v = VVector vs \<and> length vs = k \<and> list_all ok vs \<and> s = b @ r \<and> length b = w * k \<and>
    fixed_payload ser vs = Inr b"
proof -
  from assms(2) obtain vs where "read_elements dec (replicate k w) s = Inr (vs, r)" "v = VVector vs"
    by (auto simp: vector_deserialize_def make_vector_def split: if_splits)
  with read_elements_fixed [OF assms(1) this(1)] show ?thesis
    by (auto simp: rmap_eq_map_Inr mult.commute)
qed

lemma vector_var_decodes:
  assumes "decodes ok ser dec" and "0 < k" and "length vs = k" and "list_all ok vs"
    and "offset_payload ser vs (k * BYTES_PER_LENGTH_OFFSET) = Inr b"
  shows "vector_deserialize dec False w k (b @ r) (length b) = Inr (VVector vs, r)"
proof -
  let ?F = "k * BYTES_PER_LENGTH_OFFSET"
  from assms(5) obtain bss where bss: "map ser vs = map Inr bss"
      "list_all (\<lambda>i. i < 2 ^ 32) (offsets_from ?F bss)" "b = offset_table (offsets_from ?F bss) @ concat bss"
    by (auto simp: variable_payload_iff)
  have len: "length bss = k" using bss(1) assms(3) by (metis length_map)
  have lb: "length b = ?F + length (concat bss)" using bss(3) len by simp
  obtain b1 bss' where "bss = b1 # bss'" using len assms(2) by (cases bss) auto
  then have "py_index (offsets_from ?F bss) 0 = Inr ?F" by simp
  moreover have "read_offsets k (b @ r) = Inr (offsets_from ?F bss, concat bss @ r)"
    using read_offsets_table [OF bss(2), of "concat bss @ r"] len bss(3) by simp
  moreover have "read_elements dec (spans (offsets_from ?F bss @ [length b])) (concat bss @ r) = Inr (vs, r)"
    unfolding lb spans_offsets_from by (rule read_elements_decodes [OF assms(1,4) bss(1)])
  moreover have "offsets_monotone (offsets_from ?F bss @ [length b])"
    unfolding lb by (rule monotone_offsets_from)
  ultimately show ?thesis
    using assms(3) lb by (simp add: vector_deserialize_def make_vector_def validate_offsets_def Let_def)
qed

lemma vector_var_sound:
  assumes "sound_var ok ser dec" and "vector_deserialize dec False w k s scope = Inr (v, r)"
  shows "\<exists>vs b. v = VVector vs \<and> length vs = k \<and> list_all ok vs \<and> s = b @ r \<and> scope \<le> length b \<and>
    (length b = scope \<longrightarrow> offset_payload ser vs (k * BYTES_PER_LENGTH_OFFSET) = Inr b)"
proof -
  let ?F = "k * BYTES_PER_LENGTH_OFFSET"
  from assms(2) obtain offs rest vs where d: "read_offsets k s = Inr (offs, rest)" "offs ! 0 = ?F" "0 < length offs"
      "offsets_monotone (offs @ [scope])" "read_elements dec (spans (offs @ [scope])) rest = Inr (vs, r)"
      "v = VVector vs" "length vs = k"
    by (auto simp: vector_deserialize_def make_vector_def validate_offsets_def Let_def split: if_splits)
  from read_offsets_sound [OF d(1)] have o: "length offs = k" "list_all (\<lambda>i. i < 2 ^ 32) offs" "s = offset_table offs @ rest"
    by auto
  have hd: "hd offs = ?F" "offs \<noteq> []" using d(2,3) by (auto simp: hd_conv_nth)
  from offset_bodies_sound [OF assms(1) hd(2) d(4) o(2) d(5)] obtain b where
    b: "list_all ok vs" "?F \<le> scope" "rest = b @ r" "scope - ?F \<le> length b"
      "length b = scope - ?F \<longrightarrow> variable_payload (map ser vs) ?F = Inr (offset_table offs, b)"
    unfolding hd(1) by blast
  have "length (offset_table offs @ b) = ?F + length b" using o(1) by simp
  with b d(6,7) o(3) show ?thesis
    by (intro exI [of _ vs] exI [of _ "offset_table offs @ b"]) (auto simp: mult.commute)
qed

lemma list_fixed_decodes:
  assumes "decodes ok ser dec" and "0 < w" and "length vs \<le> lim" and "list_all ok vs"
    and "\<And>v b. ok v \<Longrightarrow> ser v = Inr b \<Longrightarrow> length b = w" and "fixed_payload ser vs = Inr b"
  shows "list_deserialize dec True w lim (b @ r) (length b) = Inr (VList vs, r)"
proof -
  from assms(6) obtain bss where bss: "map ser vs = map Inr bss" "b = concat bss"
    by (auto simp: rmap_eq_map_Inr)
  have ml: "map length bss = replicate (length vs) w"
    using fixed_widths [of ser vs bss ok w] bss(1) assms(4,5) by (simp add: map_eq_map_Inr)
  then have lb: "length b = length vs * w"
    using bss(2) by (simp add: length_concat sum_list_replicate)
  show ?thesis
  proof (cases "vs = []")
    case True
    then show ?thesis using lb by (simp add: list_deserialize_def make_list_def)
  next
    case False
    have "read_elements dec (replicate (length vs) w) (b @ r) = Inr (vs, r)"
      using read_elements_decodes [OF assms(1,4) bss(1), of r] by (simp only: ml bss(2))
    with False assms(2,3) lb show ?thesis by (simp add: list_deserialize_def make_list_def)
  qed
qed

lemma list_fixed_sound:
  assumes "sound_fixed ok ser w dec" and "list_deserialize dec True w lim s scope = Inr (v, r)"
  shows "\<exists>vs b. v = VList vs \<and> length vs \<le> lim \<and> list_all ok vs \<and> s = b @ r \<and> length b = scope \<and>
    fixed_payload ser vs = Inr b"
proof (cases "scope = 0")
  case True
  with assms(2) show ?thesis by (auto simp: list_deserialize_def make_list_def split: if_splits)
next
  case False
  with assms(2) obtain vs where d: "read_elements dec (replicate (scope div w) w) s = Inr (vs, r)" "v = VList vs"
      "scope mod w = 0" "length vs \<le> lim"
    by (auto simp: list_deserialize_def make_list_def Let_def split: if_splits)
  from d(3) have "scope div w * w = scope" by auto
  with d read_elements_fixed [OF assms(1) d(1)] show ?thesis
    by (auto simp: rmap_eq_map_Inr)
qed

lemma list_var_decodes:
  assumes "decodes ok ser dec" and "length vs \<le> lim" and "list_all ok vs"
    and "offset_payload ser vs (length vs * BYTES_PER_LENGTH_OFFSET) = Inr b"
  shows "list_deserialize dec False w lim (b @ r) (length b) = Inr (VList vs, r)"
proof (cases vs)
  case Nil
  with assms(4) show ?thesis by (simp add: list_deserialize_def make_list_def)
next
  case (Cons v1 vs1)
  let ?F = "length vs * BYTES_PER_LENGTH_OFFSET"
  from assms(4) obtain bss where bss: "map ser vs = map Inr bss"
      "list_all (\<lambda>i. i < 2 ^ 32) (offsets_from ?F bss)" "b = offset_table (offsets_from ?F bss) @ concat bss"
    by (auto simp: variable_payload_iff)
  have len: "length bss = length vs" using bss(1) by (metis length_map)
  have lb: "length b = ?F + length (concat bss)" using bss(3) len by simp
  obtain b1 bss' where b1: "bss = b1 # bss'" using len Cons by (cases bss) auto
  define offs where "offs = offsets_from (?F + length b1) bss'"
  have offs: "offsets_from ?F bss = ?F # offs" by (simp add: b1 offs_def)
  have F: "?F < 2 ^ 32" "length offs = length vs - 1" "0 < ?F" "?F \<le> length b"
    using bss(2) len lb Cons unfolding offs by (simp_all add: offs_def b1 BYTES_PER_LENGTH_OFFSET_def)
  have "read_exact BYTES_PER_LENGTH_OFFSET (b @ r) =
      Inr (le_bytes BYTES_PER_LENGTH_OFFSET ?F, offset_table offs @ concat bss @ r)"
    unfolding bss(3) offs by (simp del: le_bytes.simps)
  moreover have "le_nat (le_bytes BYTES_PER_LENGTH_OFFSET ?F) = ?F"
    using F(1) by (intro le_nat_le_bytes_small) (simp add: BYTES_PER_LENGTH_OFFSET_def)
  moreover have "read_offsets (length vs - 1) (offset_table offs @ concat bss @ r) = Inr (offs, concat bss @ r)"
    using read_offsets_table [of offs "concat bss @ r"] bss(2) F(2) unfolding offs by simp
  moreover have "read_elements dec (spans (?F # offs @ [length b])) (concat bss @ r) = Inr (vs, r)"
    using read_elements_decodes [OF assms(1,3) bss(1), of r] spans_offsets_from [of ?F bss]
    unfolding lb offs by simp
  moreover have "offsets_monotone (?F # offs @ [length b])"
    using monotone_offsets_from [of ?F bss] unfolding lb offs by simp
  moreover have "BYTES_PER_LENGTH_OFFSET \<le> ?F" "?F div BYTES_PER_LENGTH_OFFSET = length vs" "?F mod BYTES_PER_LENGTH_OFFSET = 0"
    using Cons by (simp_all add: BYTES_PER_LENGTH_OFFSET_def)
  moreover from this F(3,4) have "\<not> length b < BYTES_PER_LENGTH_OFFSET" "length b \<noteq> 0" by linarith+
  ultimately show ?thesis
    using assms(2) F(4) by (simp add: list_deserialize_def make_list_def validate_offsets_def Let_def)
qed

lemma list_var_sound:
  assumes "sound_var ok ser dec" and "list_deserialize dec False w lim s scope = Inr (v, r)"
  shows "\<exists>vs b. v = VList vs \<and> length vs \<le> lim \<and> list_all ok vs \<and> s = b @ r \<and> scope \<le> length b \<and>
    (length b = scope \<longrightarrow> offset_payload ser vs (length vs * BYTES_PER_LENGTH_OFFSET) = Inr b)"
proof (cases "scope = 0")
  case True
  with assms(2) show ?thesis
    by (intro exI [of _ "[]"]) (auto simp: list_deserialize_def make_list_def split: if_splits)
next
  case False
  with assms(2) obtain data s1 offs rest vs where d: "read_exact BYTES_PER_LENGTH_OFFSET s = Inr (data, s1)"
      "le_nat data mod BYTES_PER_LENGTH_OFFSET = 0"
      "read_offsets (le_nat data div BYTES_PER_LENGTH_OFFSET - 1) s1 = Inr (offs, rest)"
      "offsets_monotone ((le_nat data # offs) @ [scope])"
      "read_elements dec (spans ((le_nat data # offs) @ [scope])) rest = Inr (vs, r)" "v = VList vs" "length vs \<le> lim"
    by (auto simp: list_deserialize_def make_list_def validate_offsets_def Let_def split: if_splits)
  let ?F = "le_nat data"
  have data: "length data = BYTES_PER_LENGTH_OFFSET" "s = data @ s1" "?F < 2 ^ 32"
    using d(1) le_nat_less [of data] by (auto simp: read_exact_Inr BYTES_PER_LENGTH_OFFSET_def)
  from read_offsets_sound [OF d(3)] have o: "length offs = ?F div BYTES_PER_LENGTH_OFFSET - 1"
      "list_all (\<lambda>i. i < 2 ^ 32) (?F # offs)" "s1 = offset_table offs @ rest"
    using data(3) by auto
  from offset_bodies_sound [OF assms(1) _ d(4) o(2) d(5)] obtain b where
    b: "list_all ok vs" "length vs = Suc (length offs)" "?F \<le> scope" "rest = b @ r" "scope - ?F \<le> length b"
      "length b = scope - ?F \<longrightarrow> variable_payload (map ser vs) ?F = Inr (offset_table (?F # offs), b)"
    by auto
  have tbl: "data @ offset_table offs = offset_table (?F # offs)" using data(1) by (simp add: le_bytes_le_nat)
  have "?F = BYTES_PER_LENGTH_OFFSET * Suc (length offs) \<or> ?F = 0"
    using d(2) o(1) by (auto simp: BYTES_PER_LENGTH_OFFSET_def)
  then have le: "scope \<le> length (data @ offset_table offs) + length b"
    and eq: "length (data @ offset_table offs) + length b = scope \<Longrightarrow>
      length vs * BYTES_PER_LENGTH_OFFSET = ?F \<and> length b = scope - ?F"
    unfolding tbl length_offset_table using b(2,3,5) False by (auto simp: BYTES_PER_LENGTH_OFFSET_def)
  have "offset_payload ser vs (length vs * BYTES_PER_LENGTH_OFFSET) = Inr ((data @ offset_table offs) @ b)"
    if "length ((data @ offset_table offs) @ b) = scope"
  proof -
    from that eq have e: "length vs * BYTES_PER_LENGTH_OFFSET = ?F" "length b = scope - ?F" by simp_all
    from b(6) e(2) have "variable_payload (map ser vs) ?F = Inr (offset_table (?F # offs), b)" by (rule mp)
    then show ?thesis unfolding e(1) tbl by simp
  qed
  moreover have "s = ((data @ offset_table offs) @ b) @ r" using data(2) o(3) b(4) by simp
  ultimately show ?thesis using b(1) d(6,7) le by (intro exI [of _ vs] exI conjI impI) (assumption | simp)+
qed

section \<open>Containers\<close>

abbreviation field_decs :: "ssz_type list \<Rightarrow> (bool \<times> nat \<times> decoder) list" where
  "field_decs ts \<equiv> map (\<lambda>t. (is_fixed_size t, byte_width t, deserialize t)) ts"

abbreviation var_decs :: "ssz_type list \<Rightarrow> decoder list" where
  "var_decs ts \<equiv> map deserialize (filter (\<lambda>t. \<not> is_fixed_size t) ts)"

abbreviation field_bytes :: "ssz_type list \<Rightarrow> ssz_value list \<Rightarrow> (bool \<times> bytes result) list" where
  "field_bytes ts vs \<equiv> map (\<lambda>(t, w). (is_fixed_size t, serialize t w)) (zip ts vs)"

definition codec_decodes :: "ssz_type \<Rightarrow> bool" where
  "codec_decodes t \<longleftrightarrow> decodes (ssz_ok t) (serialize t) (deserialize t)"

definition codec_sound :: "ssz_type \<Rightarrow> bool" where
  "codec_sound t \<longleftrightarrow>
     (if is_fixed_size t then sound_fixed (ssz_ok t) (serialize t) (byte_width t) (deserialize t)
      else sound_var (ssz_ok t) (serialize t) (deserialize t))"

definition codec_width :: "ssz_type \<Rightarrow> bool" where
  "codec_width t \<longleftrightarrow>
     (is_fixed_size t \<longrightarrow> (\<forall>v. ssz_ok t v \<longrightarrow> (\<exists>b. serialize t v = Inr b \<and> length b = byte_width t)))"

lemma codec_sound_fixedD:
  "codec_sound t \<Longrightarrow> is_fixed_size t \<Longrightarrow> deserialize t s scope = Inr (v, r) \<Longrightarrow>
   ssz_ok t v \<and> (\<exists>b. s = b @ r \<and> length b = byte_width t \<and> serialize t v = Inr b)"
  by (simp add: codec_sound_def sound_fixed_def)

lemma codec_sound_varD:
  "codec_sound t \<Longrightarrow> \<not> is_fixed_size t \<Longrightarrow> deserialize t s scope = Inr (v, r) \<Longrightarrow>
   ssz_ok t v \<and> (\<exists>b. s = b @ r \<and> scope \<le> length b \<and> (length b = scope \<longrightarrow> serialize t v = Inr b))"
  by (simp add: codec_sound_def sound_var_def)

lemma slot_width_fixed [simp]: "is_fixed_size t \<Longrightarrow> slot_width t = byte_width t"
  by (simp add: slot_width_def)

lemma slot_width_var [simp]: "\<not> is_fixed_size t \<Longrightarrow> slot_width t = BYTES_PER_LENGTH_OFFSET"
  by (simp add: slot_width_def)

lemma hd_append_single: "xs @ [z] = hd (xs @ [z]) # tl (xs @ [z])"
  by simp

lemma container_decodes_step:
  "(\<And>t. t \<in> set ts \<Longrightarrow> codec_decodes t \<and> codec_width t) \<Longrightarrow> list_all2 ssz_ok ts vs \<Longrightarrow>
   container_payload (field_bytes ts vs) off = Inr (head, tail) \<Longrightarrow>
   \<exists>slots ws. read_slots (field_decs ts) (head @ r) = Inr (slots, r) \<and>
     hd (slot_offsets slots @ [off + length tail]) = off \<and>
     read_windows (var_decs ts) (slot_offsets slots @ [off + length tail]) (tail @ r2) = Inr (ws, r2) \<and>
     fill_slots slots ws = vs"
proof (induction ts arbitrary: vs off head tail)
  case Nil
  then show ?case by auto
next
  case (Cons t ts)
  from Cons.prems(2) obtain v vs' where vs: "vs = v # vs'" "ssz_ok t v" "list_all2 ssz_ok ts vs'"
    by (auto simp: list_all2_Cons1)
  have t: "codec_decodes t" "codec_width t" using Cons.prems(1) by simp_all
  have ts: "\<And>u. u \<in> set ts \<Longrightarrow> codec_decodes u \<and> codec_width u" using Cons.prems(1) by simp
  note IH = Cons.IH [OF ts vs(3)]
  show ?case
  proof (cases "is_fixed_size t")
    case True
    with Cons.prems(3) vs(1) obtain b head' where b: "serialize t v = Inr b"
        "container_payload (field_bytes ts vs') off = Inr (head', tail)" "head = b @ head'"
      by auto
    from t(2) True vs(2) b(1) have "length b = byte_width t" by (auto simp: codec_width_def)
    with t(1) vs(2) b(1) have "deserialize t (b @ head' @ r) (byte_width t) = Inr (v, head' @ r)"
      by (auto simp: codec_decodes_def decodes_def)
    moreover obtain slots ws where "read_slots (field_decs ts) (head' @ r) = Inr (slots, r)"
        "hd (slot_offsets slots @ [off + length tail]) = off"
        "read_windows (var_decs ts) (slot_offsets slots @ [off + length tail]) (tail @ r2) = Inr (ws, r2)"
        "fill_slots slots ws = vs'"
      using IH b(2) by blast
    ultimately show ?thesis
      using True vs(1) b(3) by (intro exI [of _ "Inl v # slots"] exI [of _ ws]) simp
  next
    case False
    with Cons.prems(3) vs(1) obtain b head' tail' where b: "serialize t v = Inr b" "off < 2 ^ 32"
        "container_payload (field_bytes ts vs') (off + length b) = Inr (head', tail')"
        "head = le_bytes BYTES_PER_LENGTH_OFFSET off @ head'" "tail = b @ tail'"
      by auto
    obtain slots ws where ih: "read_slots (field_decs ts) (head' @ r) = Inr (slots, r)"
        "hd (slot_offsets slots @ [off + length b + length tail']) = off + length b"
        "read_windows (var_decs ts) (slot_offsets slots @ [off + length b + length tail']) (tail' @ r2) = Inr (ws, r2)"
        "fill_slots slots ws = vs'"
      using IH b(3) by blast
    obtain rest where rest: "slot_offsets slots @ [off + length b + length tail'] = (off + length b) # rest"
      using hd_append_single [of "slot_offsets slots"] ih(2) by metis
    have "deserialize t (b @ tail' @ r2) (length b) = Inr (v, tail' @ r2)"
      using t(1) vs(2) b(1) by (auto simp: codec_decodes_def decodes_def)
    moreover have "le_nat (le_bytes BYTES_PER_LENGTH_OFFSET off) = off"
      using b(2) by (intro le_nat_le_bytes_small) (simp add: BYTES_PER_LENGTH_OFFSET_def)
    ultimately show ?thesis
      using False vs(1) b(4,5) ih rest
      by (intro exI [of _ "Inr off # slots"] exI [of _ "v # ws"]) (simp add: add.assoc)
  qed
qed

lemma container_head_length:
  "container_payload (field_bytes ts vs) off = Inr (head, tail) \<Longrightarrow> list_all2 ssz_ok ts vs \<Longrightarrow>
   (\<And>t. t \<in> set ts \<Longrightarrow> codec_decodes t \<and> codec_width t) \<Longrightarrow> length head = sum_list (map slot_width ts)"
proof (induction ts arbitrary: vs off head tail)
  case (Cons t ts)
  then obtain v vs' where "vs = v # vs'" "ssz_ok t v" "list_all2 ssz_ok ts vs'"
    by (auto simp: list_all2_Cons1)
  with Cons.prems Cons.IH [of vs'] show ?case
    by (auto simp: codec_width_def split: if_splits) (fastforce)+
qed auto

lemma length_slot_offsets:
  "read_slots (field_decs ts) s = Inr (slots, r) \<Longrightarrow> length (slot_offsets slots) = length (var_decs ts)"
  by (induction ts arbitrary: s slots) (auto split: if_splits)

lemma container_payload_fixed:
  "list_all is_fixed_size ts \<Longrightarrow> container_payload (field_bytes ts vs) off = container_payload (field_bytes ts vs) off'"
proof (induction ts arbitrary: vs)
  case (Cons t ts)
  show ?case
  proof (cases vs)
    case (Cons v vs')
    then show ?thesis using Cons.IH [of vs'] Cons.prems by simp
  qed simp
qed simp

lemma container_sound_step:
  "(\<And>t. t \<in> set ts \<Longrightarrow> codec_sound t) \<Longrightarrow>
   read_slots (field_decs ts) s = Inr (slots, r) \<Longrightarrow>
   read_windows (var_decs ts) (slot_offsets slots @ [scope]) r2 = Inr (ws, r') \<Longrightarrow>
   list_all2 ssz_ok ts (fill_slots slots ws) \<and> hd (slot_offsets slots @ [scope]) \<le> scope \<and>
   (\<exists>head tail. s = head @ r \<and> length head = sum_list (map slot_width ts) \<and> r2 = tail @ r' \<and>
      scope - hd (slot_offsets slots @ [scope]) \<le> length tail \<and>
      (length tail = scope - hd (slot_offsets slots @ [scope]) \<longrightarrow>
         container_payload (field_bytes ts (fill_slots slots ws)) (hd (slot_offsets slots @ [scope])) =
           Inr (head, tail)))"
proof (induction ts arbitrary: s slots r2 ws)
  case Nil
  then show ?case by auto
next
  case (Cons t ts)
  have t: "codec_sound t" and ts: "\<And>u. u \<in> set ts \<Longrightarrow> codec_sound u" using Cons.prems(1) by simp_all
  show ?case
  proof (cases "is_fixed_size t")
    case True
    with Cons.prems(2) obtain v s' slots' where d: "deserialize t s (byte_width t) = Inr (v, s')"
        "read_slots (field_decs ts) s' = Inr (slots', r)" "slots = Inl v # slots'"
      by auto
    from codec_sound_fixedD [OF t True d(1)] obtain b where
      b: "ssz_ok t v" "s = b @ s'" "length b = byte_width t" "serialize t v = Inr b"
      by blast
    have rw: "read_windows (var_decs ts) (slot_offsets slots' @ [scope]) r2 = Inr (ws, r')"
      using Cons.prems(3) True d(3) by simp
    from Cons.IH [OF ts d(2) rw] obtain head tail where
      ih: "list_all2 ssz_ok ts (fill_slots slots' ws)" "hd (slot_offsets slots' @ [scope]) \<le> scope"
        "s' = head @ r" "length head = sum_list (map slot_width ts)" "r2 = tail @ r'"
        "scope - hd (slot_offsets slots' @ [scope]) \<le> length tail"
        "length tail = scope - hd (slot_offsets slots' @ [scope]) \<longrightarrow>
         container_payload (field_bytes ts (fill_slots slots' ws)) (hd (slot_offsets slots' @ [scope])) = Inr (head, tail)"
      by blast
    show ?thesis
      using ih b True d(3)
      by (intro conjI; (rule exI [of _ "b @ head"], rule exI [of _ tail])?; simp)
  next
    case False
    with Cons.prems(2) obtain data s' slots' where d: "read_exact BYTES_PER_LENGTH_OFFSET s = Inr (data, s')"
        "read_slots (field_decs ts) s' = Inr (slots', r)" "slots = Inr (le_nat data) # slots'"
      by auto
    have data: "s = data @ s'" "length data = BYTES_PER_LENGTH_OFFSET" "le_nat data < 2 ^ 32"
      using d(1) le_nat_less [of data] by (auto simp: read_exact_Inr BYTES_PER_LENGTH_OFFSET_def)
    obtain stop rest where rest: "slot_offsets slots' @ [scope] = stop # rest"
      using hd_append_single by metis
    with Cons.prems(3) False d(3) obtain v r3 ws' where w: "le_nat data \<le> stop"
        "deserialize t r2 (stop - le_nat data) = Inr (v, r3)"
        "read_windows (var_decs ts) (slot_offsets slots' @ [scope]) r3 = Inr (ws', r')" "ws = v # ws'"
      by (auto split: if_splits)
    from codec_sound_varD [OF t False w(2)] obtain b where b: "ssz_ok t v" "r2 = b @ r3" "stop - le_nat data \<le> length b"
        "length b = stop - le_nat data \<longrightarrow> serialize t v = Inr b"
      by blast
    from Cons.IH [OF ts d(2) w(3)] obtain head tail where
      ih: "list_all2 ssz_ok ts (fill_slots slots' ws')" "stop \<le> scope" "s' = head @ r"
        "length head = sum_list (map slot_width ts)" "r3 = tail @ r'" "scope - stop \<le> length tail"
        "length tail = scope - stop \<longrightarrow>
         container_payload (field_bytes ts (fill_slots slots' ws')) stop = Inr (head, tail)"
      unfolding rest by auto
    have "container_payload (field_bytes (t # ts) (v # fill_slots slots' ws')) (le_nat data) = Inr (data @ head, b @ tail)"
      if "length (b @ tail) = scope - le_nat data"
    proof -
      from that b(3) ih(2,6) w(1) have l: "length b = stop - le_nat data" "length tail = scope - stop" by simp_all
      then have "le_nat data + length b = stop" using w(1) by simp
      with l b(4) ih(7) False data(2,3) show ?thesis by (simp add: le_bytes_le_nat)
    qed
    then show ?thesis
      using ih b False d(3) w data
      by (intro conjI; (rule exI [of _ "data @ head"], rule exI [of _ "b @ tail"])?; simp)
  qed
qed

lemma container_decodes:
  assumes "\<And>t. t \<in> set ts \<Longrightarrow> codec_decodes t \<and> codec_width t"
  shows "codec_decodes (TContainer ts)"
  unfolding codec_decodes_def decodes_def
proof (intro allI impI)
  fix v b r
  let ?F = "sum_list (map slot_width ts)"
  assume "ssz_ok (TContainer ts) v" and "serialize (TContainer ts) v = Inr b"
  then obtain vs head tail where vs: "v = VContainer vs" "list_all2 ssz_ok ts vs" "b = head @ tail"
    and p: "container_payload (field_bytes ts vs) ?F = Inr (head, tail)"
    by (auto simp: list_all2_iff list_all_iff split: ssz_value.splits)
  from container_decodes_step [OF assms vs(2) p, of "tail @ r" r] obtain slots ws where
    rs: "read_slots (field_decs ts) (head @ tail @ r) = Inr (slots, tail @ r)"
      "hd (slot_offsets slots @ [?F + length tail]) = ?F"
      "read_windows (var_decs ts) (slot_offsets slots @ [?F + length tail]) (tail @ r) = Inr (ws, r)"
      "fill_slots slots ws = vs"
    by blast
  have len: "length head = ?F"
    using p vs(2) assms by (rule container_head_length)
  show "deserialize (TContainer ts) (b @ r) (length b) = Inr (v, r)"
  proof (cases "slot_offsets slots = []")
    case True
    with length_slot_offsets [OF rs(1)] have "var_decs ts = []" by simp
    with rs(3) have "ws = []" "tail = []" by auto
    with True rs vs(1,3) show ?thesis by (simp add: container_deserialize_def)
  next
    case False
    with rs len vs(1,3) show ?thesis by (simp add: container_deserialize_def)
  qed
qed

lemma container_sound_main:
  assumes "\<And>t. t \<in> set ts \<Longrightarrow> codec_sound t" and d: "deserialize (TContainer ts) s scope = Inr (v, r)"
  shows "ssz_ok (TContainer ts) v \<and> (\<exists>head tail. s = (head @ tail) @ r \<and> length head = sum_list (map slot_width ts) \<and>
      (if list_all is_fixed_size ts then tail = [] \<and> serialize (TContainer ts) v = Inr head
       else scope \<le> length (head @ tail) \<and>
         (length (head @ tail) = scope \<longrightarrow> serialize (TContainer ts) v = Inr (head @ tail))))"
proof -
  let ?F = "sum_list (map slot_width ts)"
  from d obtain slots rest where rs: "read_slots (field_decs ts) s = Inr (slots, rest)"
    by (auto simp: container_deserialize_def Let_def)
  have "slot_offsets slots = [] \<longleftrightarrow> var_decs ts = []"
    using length_slot_offsets [OF rs] by (metis length_0_conv)
  then have empty: "slot_offsets slots = [] \<longleftrightarrow> list_all is_fixed_size ts"
    by (simp add: list_all_iff filter_empty_conv)
  show ?thesis
  proof (cases "list_all is_fixed_size ts")
    case True
    with empty have no: "slot_offsets slots = []" "var_decs ts = []" by (auto simp: list_all_iff filter_empty_conv)
    from d rs no(1) have v: "v = VContainer (fill_slots slots [])" "rest = r"
      by (auto simp: container_deserialize_def)
    from container_sound_step [OF assms(1) rs, of scope "[]" "[]" "[]"] no obtain head where
      c: "list_all2 ssz_ok ts (fill_slots slots [])" "s = head @ rest" "length head = ?F"
        "container_payload (field_bytes ts (fill_slots slots [])) scope = Inr (head, [])"
      by auto
    have "container_payload (field_bytes ts (fill_slots slots [])) ?F = Inr (head, [])"
      using c(4) container_payload_fixed [OF True, of "fill_slots slots []" scope ?F] by simp
    then have "serialize (TContainer ts) v = Inr head" by (simp add: v)
    moreover have "ssz_ok (TContainer ts) v" using c(1) v(1) by (auto simp: list_all2_iff list_all_iff)
    moreover have "s = (head @ []) @ r" using c(2) v(2) by simp
    ultimately show ?thesis using c(3) True
      by (intro conjI; (rule exI [of _ head], rule exI [of _ "[]"])?) simp_all
  next
    case False
    with empty have ne: "slot_offsets slots \<noteq> []" by simp
    from d rs ne obtain ws where v: "v = VContainer (fill_slots slots ws)" "hd (slot_offsets slots) = ?F"
      and rw: "read_windows (var_decs ts) (slot_offsets slots @ [scope]) rest = Inr (ws, r)"
      by (auto simp: container_deserialize_def Let_def split: if_splits)
    from container_sound_step [OF assms(1) rs rw] ne v(2) obtain head tail where
      c: "list_all2 ssz_ok ts (fill_slots slots ws)" "?F \<le> scope" "s = head @ rest" "length head = ?F"
        "rest = tail @ r" "scope - ?F \<le> length tail"
        "length tail = scope - ?F \<longrightarrow> container_payload (field_bytes ts (fill_slots slots ws)) ?F = Inr (head, tail)"
      by auto
    have "serialize (TContainer ts) v = Inr (head @ tail)" if "length (head @ tail) = scope"
    proof -
      from that c(4) have "length tail = scope - ?F" by simp
      with c(7) v(1) show ?thesis by simp
    qed
    moreover have "scope \<le> length (head @ tail)" "s = (head @ tail) @ r" using c(2-6) by simp_all
    moreover have "ssz_ok (TContainer ts) v" using c(1) v(1) by (auto simp: list_all2_iff list_all_iff)
    ultimately have "ssz_ok (TContainer ts) v \<and> s = (head @ tail) @ r \<and> length head = ?F \<and>
        (if list_all is_fixed_size ts then tail = [] \<and> serialize (TContainer ts) v = Inr head
         else scope \<le> length (head @ tail) \<and>
           (length (head @ tail) = scope \<longrightarrow> serialize (TContainer ts) v = Inr (head @ tail)))"
      using c(4) False by (auto simp del: serialize.simps ssz_ok.simps)
    then show ?thesis by blast
  qed
qed

lemma container_sound:
  assumes "\<And>t. t \<in> set ts \<Longrightarrow> codec_sound t"
  shows "codec_sound (TContainer ts)"
proof (cases "list_all is_fixed_size ts")
  case True
  then have "sum_list (map slot_width ts) = byte_width (TContainer ts)" by (induction ts) auto
  with True container_sound_main [OF assms] show ?thesis
    unfolding codec_sound_def sound_fixed_def is_fixed_size.simps
    by (metis (no_types, lifting) append_Nil2)
next
  case False
  with container_sound_main [OF assms] show ?thesis
    unfolding codec_sound_def sound_var_def is_fixed_size.simps by metis
qed

section \<open>All types\<close>

lemma container_payload_total:
  "list_all is_fixed_size ts \<Longrightarrow> (\<And>t. t \<in> set ts \<Longrightarrow> codec_width t) \<Longrightarrow> list_all2 ssz_ok ts vs \<Longrightarrow>
   \<exists>head. container_payload (field_bytes ts vs) off = Inr (head, []) \<and> length head = sum_list (map byte_width ts)"
proof (induction ts arbitrary: vs)
  case (Cons t ts)
  then obtain v vs' where vs: "vs = v # vs'" "ssz_ok t v" "list_all2 ssz_ok ts vs'"
    by (auto simp: list_all2_Cons1)
  from Cons.prems(1) have fixed: "is_fixed_size t" "list_all is_fixed_size ts" by simp_all
  have "codec_width t" using Cons.prems(2) by simp
  with fixed vs(2) obtain b where "serialize t v = Inr b" "length b = byte_width t"
    by (auto simp: codec_width_def)
  moreover obtain head where "container_payload (field_bytes ts vs') off = Inr (head, [])"
      "length head = sum_list (map byte_width ts)"
    using Cons.IH [OF fixed(2) _ vs(3)] Cons.prems(2) by auto
  ultimately show ?case using vs(1) fixed by simp
qed auto

lemma vector_payload_total:
  assumes "is_fixed_size t" and "codec_width t" and "list_all (ssz_ok t) vs"
  shows "\<exists>b. fixed_payload (serialize t) vs = Inr b \<and> length b = byte_width t * length vs"
  using assms(3)
proof (induction vs)
  case (Cons v vs)
  then obtain b where "fixed_payload (serialize t) vs = Inr b" "length b = byte_width t * length vs"
    by auto
  moreover obtain b1 where "serialize t v = Inr b1" "length b1 = byte_width t"
    using assms(1,2) Cons.prems by (auto simp: codec_width_def)
  ultimately show ?case by auto
qed auto

lemma codec_width_all: "codec_width t"
proof (induction t)
  case (TVector t k)
  then show ?case
    using vector_payload_total [of t] by (fastforce simp: codec_width_def split: ssz_value.splits)
next
  case (TContainer ts)
  show ?case
    unfolding codec_width_def
  proof (intro impI allI)
    fix v
    assume fixed: "is_fixed_size (TContainer ts)" and "ssz_ok (TContainer ts) v"
    then obtain vs where vs: "v = VContainer vs" "list_all2 ssz_ok ts vs"
      by (auto simp: list_all2_iff list_all_iff split: ssz_value.splits)
    with container_payload_total [OF _ TContainer.IH vs(2)] fixed
    show "\<exists>b. serialize (TContainer ts) v = Inr b \<and> length b = byte_width (TContainer ts)"
      by fastforce
  qed
qed (auto simp: codec_width_def bitvector_encode_def split: ssz_value.splits)

lemma P_BYTES_eq: "P_BYTES = 4"
proof -
  have "bit_length koalabear_P = Suc 30"
    by (rule bit_length_eqI) (simp_all add: koalabear_P_def)
  then show ?thesis by (simp add: P_BYTES_def ceil_div_def)
qed

lemma koalabear_P_fits: "n < koalabear_P \<Longrightarrow> n < 256 ^ P_BYTES"
  unfolding P_BYTES_eq by (simp add: koalabear_P_def)

lemma uint_fits: "b mod 8 = 0 \<Longrightarrow> n < 2 ^ b \<Longrightarrow> n < 256 ^ (b div 8)" for n :: nat
  unfolding exp_256 using mult_div_mod_eq [of 8 b] by simp

lemma uint_range: "length data = b div 8 \<Longrightarrow> le_nat data < 2 ^ b"
proof -
  assume "length data = b div 8"
  then have "le_nat data < 2 ^ (8 * (b div 8))" using le_nat_less [of data] by (simp add: exp_256)
  also have "\<dots> \<le> 2 ^ b" by (rule power_increasing) simp_all
  finally show ?thesis .
qed

lemma vector_elem_width:
  "is_fixed_size t \<Longrightarrow> ssz_ok t v \<Longrightarrow> serialize t v = Inr b \<Longrightarrow> length b = byte_width t"
  using codec_width_all [of t] by (auto simp: codec_width_def)

lemma codec_sound_all: "codec_sound t"
proof (induction t)
  case (TVector t k)
  show ?case
  proof (cases "is_fixed_size t")
    case True
    with TVector vector_fixed_sound [of "ssz_ok t" "serialize t" "byte_width t" "deserialize t" k]
    show ?thesis by (fastforce simp: codec_sound_def sound_fixed_def [of "ssz_ok (TVector t k)"])
  next
    case False
    with TVector vector_var_sound [of "ssz_ok t" "serialize t" "deserialize t" "byte_width t" k]
    show ?thesis by (fastforce simp: codec_sound_def sound_var_def [of "ssz_ok (TVector t k)"])
  qed
next
  case (TList t lim)
  show ?case
  proof (cases "is_fixed_size t")
    case True
    with TList list_fixed_sound [of "ssz_ok t" "serialize t" "byte_width t" "deserialize t" lim]
    show ?thesis by (fastforce simp: codec_sound_def sound_var_def)
  next
    case False
    with TList list_var_sound [of "ssz_ok t" "serialize t" "deserialize t" "byte_width t" lim]
    show ?thesis by (fastforce simp: codec_sound_def sound_var_def [of "ssz_ok (TList t lim)"])
  qed
next
  case (TContainer ts)
  then show ?case by (rule container_sound)
next
  case TBoolean
  have "ssz_ok TBoolean v \<and> (\<exists>b. s = b @ r \<and> length b = 1 \<and> serialize TBoolean v = Inr b)"
    if "deserialize TBoolean s scope = Inr (v, r)" for s scope v r
    using that by (cases s) (auto simp: boolean_decode_def split: if_splits)
  then show ?case by (simp add: codec_sound_def sound_fixed_def)
next
  case (TBitvector k)
  show ?case
    by (auto simp: codec_sound_def sound_fixed_def read_exact_Inr dest!: bitvector_decode_sound split: if_splits)
next
  case (TBitlist lim)
  show ?case
    by (auto simp: codec_sound_def sound_var_def read_exact_Inr dest!: bitlist_decode_sound)
qed (auto simp: codec_sound_def sound_fixed_def sound_var_def read_exact_Inr le_bytes_le_nat Let_def uint_range
     split: if_splits)

lemma codec_decodes_all: "ssz_wf t \<Longrightarrow> codec_decodes t"
proof (induction t)
  case (TVector t k)
  then have t: "decodes (ssz_ok t) (serialize t) (deserialize t)" by (simp add: codec_decodes_def)
  show ?case
  proof (cases "is_fixed_size t")
    case True
    with codec_sound_all [of t] have "sound_fixed (ssz_ok t) (serialize t) (byte_width t) (deserialize t)"
      by (simp add: codec_sound_def)
    with True show ?thesis
      using vector_fixed_decodes [OF t _ _ _ vector_elem_width]
      by (auto simp: codec_decodes_def decodes_def split: ssz_value.splits)
  next
    case False
    with TVector.prems show ?thesis
      using vector_var_decodes [OF t] by (auto simp: codec_decodes_def decodes_def split: ssz_value.splits)
  qed
next
  case (TList t lim)
  then have t: "decodes (ssz_ok t) (serialize t) (deserialize t)" by (simp add: codec_decodes_def)
  show ?case
  proof (cases "is_fixed_size t")
    case True
    with TList.prems show ?thesis
      using list_fixed_decodes [OF t _ _ _ vector_elem_width]
      by (auto simp: codec_decodes_def decodes_def split: ssz_value.splits)
  next
    case False
    then show ?thesis
      using list_var_decodes [OF t] by (auto simp: codec_decodes_def decodes_def split: ssz_value.splits)
  qed
next
  case (TContainer ts)
  then have "t \<in> set ts \<Longrightarrow> codec_decodes t \<and> codec_width t" for t
    by (auto simp: list_all_iff codec_width_all)
  then show ?case by (rule container_decodes)
next
  case (TUint b)
  then show ?case
    by (auto simp: codec_decodes_def decodes_def uint_fits le_nat_le_bytes_small Let_def split: ssz_value.splits)
next
  case TFp
  show ?case
    by (auto simp: codec_decodes_def decodes_def koalabear_P_fits le_nat_le_bytes_small Let_def split: ssz_value.splits)
next
  case (TBitvector k)
  show ?case
    by (auto simp: codec_decodes_def decodes_def bitvector_decode_encode read_exact_def split: ssz_value.splits)
       (auto simp: bitvector_encode_def)
next
  case (TBitlist lim)
  show ?case
    by (auto simp: codec_decodes_def decodes_def bitlist_decode_encode split: ssz_value.splits)
next
  case TBoolean
  show ?case
    by (auto simp: codec_decodes_def decodes_def boolean_decode_def split: ssz_value.splits)
qed (auto simp: codec_decodes_def decodes_def split: ssz_value.splits)

text \<open>The stream decoder and the direct decoders of the leaf types agree on a whole input.\<close>

lemma stream_decode_decodes:
  "ssz_wf t \<Longrightarrow> ssz_ok t v \<Longrightarrow> serialize t v = Inr bs \<Longrightarrow> stream_decode_bytes t bs = Inr v"
  using codec_decodes_all [of t]
  by (simp add: stream_decode_bytes_def codec_decodes_def decodes_def) (metis append_Nil2 old.prod.case rbind_Inr)

lemma stream_decode_sound:
  assumes "stream_decode_bytes t bs = Inr v"
  shows "ssz_ok t v \<and> serialize t v = Inr bs"
proof -
  from assms have d: "deserialize t bs (length bs) = Inr (v, [])"
    by (auto simp: stream_decode_bytes_def split: if_splits)
  show ?thesis
  proof (cases "is_fixed_size t")
    case True
    from codec_sound_fixedD [OF codec_sound_all True d] show ?thesis by auto
  next
    case False
    from codec_sound_varD [OF codec_sound_all False d] show ?thesis by auto
  qed
qed

lemma uint_decode_decodes:
  "b mod 8 = 0 \<Longrightarrow> n < 2 ^ b \<Longrightarrow> decode_bytes (TUint b) (le_bytes (b div 8) n) = Inr (VUint n)"
  by (simp add: uint_fits Let_def)

section \<open>Properties of the codec\<close>

lemma decode_encode:
  assumes "ssz_wf t" and "ssz_ok t v" and "encode_bytes t v = Inr bs"
  shows "decode_bytes t bs = Inr v"
  using assms stream_decode_decodes [of t v bs]
  by (cases t) (auto simp: encode_bytes_def uint_fits Let_def boolean_decode_def bitvector_decode_encode
      bitlist_decode_encode split: ssz_value.splits if_splits)

text \<open>
  Property C5: decoding inverts encoding. For every declared SSZ type and every value its
  constructor accepts, the bytes produced by \<^verbatim>\<open>encode_bytes\<close> decode to that value.
\<close>

theorem ssz_roundtrip:
  assumes "ssz_wf t" and "ssz_ok t v" and "encode_bytes t v = Inr bs"
  shows "decode_bytes t bs = Inr v"
  using assms by (rule decode_encode)

theorem ssz_roundtrip_witness:
  "decode_bytes (TContainer [TUint 16, TList (TByteList 4) 3, TBitlist 9, TBoolean])
     [2, 1, 11, 0, 0, 0, 22, 0, 0, 0, 1, 8, 0, 0, 0, 10, 0, 0, 0, 5, 6, 7, 13] =
   Inr (VContainer [VUint 258, VList [VByteList [5, 6], VByteList [7]], VBitlist [True, False, True], VBoolean True])"
  by (rule ssz_roundtrip) (simp_all add: encode_bytes_def slot_width_def offset_bytes_def bitlist_encode_eq
      BYTES_PER_LENGTH_OFFSET_def le_bytes_numeral ceil_div_def)

text \<open>
  Property C6: the decoder accepts exactly one encoding per value. Whatever bytes
  \<^verbatim>\<open>decode_bytes\<close> accepts are the bytes \<^verbatim>\<open>encode_bytes\<close> produces for the decoded value, and that
  value satisfies the constraints of its type.
\<close>

theorem ssz_canonical:
  assumes "decode_bytes t bs = Inr v"
  shows "ssz_ok t v \<and> encode_bytes t v = Inr bs"
proof (cases t)
  case (TBoolean)
  with assms show ?thesis
    by (cases bs) (auto simp: encode_bytes_def boolean_decode_def split: if_splits)
next
  case (TBitvector k)
  with assms show ?thesis by (auto simp: encode_bytes_def dest!: bitvector_decode_sound)
next
  case (TBitlist lim)
  with assms show ?thesis by (auto simp: encode_bytes_def dest!: bitlist_decode_sound)
qed (use assms stream_decode_sound [of t bs v] in
    \<open>auto simp: encode_bytes_def uint_range le_bytes_le_nat Let_def split: if_splits\<close>)

theorem ssz_canonical_witness:
  "ssz_ok (TList (TByteList 4) 3) (VList [VByteList [5, 6], VByteList [7]]) \<and>
   encode_bytes (TList (TByteList 4) 3) (VList [VByteList [5, 6], VByteList [7]]) =
     Inr [8, 0, 0, 0, 10, 0, 0, 0, 5, 6, 7]"
  by (rule ssz_canonical) code_simp

text \<open>
  A fixed-size type encodes every one of its values, to exactly the number of bytes
  \<^verbatim>\<open>get_byte_length\<close> reports.
\<close>

theorem ssz_fixed_length:
  assumes "get_byte_length t = Inr n" and "ssz_ok t v"
  shows "\<exists>bs. encode_bytes t v = Inr bs \<and> length bs = n"
  using assms codec_width_all [of t]
  by (auto simp: get_byte_length_def encode_bytes_def codec_width_def split: if_splits)

theorem ssz_fixed_length_witness:
  "\<exists>bs. encode_bytes (TContainer [TUint 64, TBitvector 9]) (VContainer [VUint 7, VBitvector (replicate 9 True)]) = Inr bs
     \<and> length bs = 10"
  by (rule ssz_fixed_length) (simp_all add: get_byte_length_def ceil_div_def)

end
