(* ===== verification/Merkle.thy ===== *)
theory Merkle
  imports Ssz_Codec
begin

text \<open>
  Merkleization and hash tree roots, \<^verbatim>\<open>spec/crypto/merkleization.py\<close>. The digest function
  (\<^verbatim>\<open>sha256(_).digest()\<close>) is the parameter \<open>H\<close> of every definition. The reference the optimised \<^verbatim>\<open>merkleize\<close> is proved against is the root of the
  perfect binary tree over the leaves padded with zero chunks.
\<close>

type_synonym digest = "bytes \<Rightarrow> bytes"

section \<open>Merkleization\<close>

definition BYTES_PER_CHUNK :: nat where
  "BYTES_PER_CHUNK = 32"

definition BITS_PER_CHUNK :: nat where
  "BITS_PER_CHUNK = BYTES_PER_CHUNK * 8"

definition ZERO_HASH :: bytes where
  "ZERO_HASH = replicate 32 0"

definition next_pow2 :: "nat \<Rightarrow> nat" where
  "next_pow2 x = (if x \<le> 1 then 1 else 2 ^ bit_length (x - 1))"

text \<open>\<^verbatim>\<open>accumulate(repeat(None, 64), ..., initial=ZERO_HASH)\<close>: 65 roots, one per depth.\<close>

primrec zero_hash :: "digest \<Rightarrow> nat \<Rightarrow> bytes" where
  "zero_hash H 0 = ZERO_HASH"
| "zero_hash H (Suc d) = H (zero_hash H d @ zero_hash H d)"

definition ZERO_HASHES :: "digest \<Rightarrow> bytes list" where
  "ZERO_HASHES H = map (zero_hash H) [0..<65]"

definition zero_tree_root :: "digest \<Rightarrow> nat \<Rightarrow> bytes result" where
  "zero_tree_root H width =
     (if width \<le> 1 then Inr ZERO_HASH
      else let depth = bit_length (width - 1) in py_index (ZERO_HASHES H) depth)"

text \<open>One pass of the outer loop: hash the children in pairs.\<close>

definition merkle_layer :: "digest \<Rightarrow> nat \<Rightarrow> bytes list \<Rightarrow> bytes list result" where
  "merkle_layer H subtree_size level =
     rmap (\<lambda>child_pair.
         rbind (if length child_pair = 2 then Inr (child_pair ! 1) else zero_tree_root H subtree_size)
           (\<lambda>right. Inr (H (child_pair ! 0 @ right))))
       (batched 2 level)"

text \<open>The outer loop; it starts with a subtree size of one, which never becomes zero.\<close>

function merkle_loop :: "digest \<Rightarrow> nat \<Rightarrow> bytes list \<Rightarrow> nat \<Rightarrow> bytes list result" where
  "merkle_loop H width level subtree_size =
     (if subtree_size < width \<and> 0 < subtree_size then
        rbind (merkle_layer H subtree_size level) (\<lambda>next_level.
          merkle_loop H width next_level (subtree_size * 2))
      else Inr level)"
  by pat_completeness auto
termination by (relation "measure (\<lambda>(H, width, level, size). width - size)") auto

declare merkle_loop.simps [simp del]

definition merkleize :: "digest \<Rightarrow> bytes list \<Rightarrow> nat option \<Rightarrow> bytes result" where
  "merkleize H chunks limit =
     (let chunk_count = length chunks
      in if chunk_count = 0 then
           (case limit of Some l \<Rightarrow> zero_tree_root H (next_pow2 l) | None \<Rightarrow> Inr ZERO_HASH)
         else rbind (case limit of
                       None \<Rightarrow> Inr (next_pow2 chunk_count)
                     | Some l \<Rightarrow> if l < chunk_count then Inl ValueError else Inr (next_pow2 l))
           (\<lambda>width.
              if width = 1 then Inr (chunks ! 0)
              else rbind (merkle_loop H width chunks 1) (\<lambda>level.
                   rbind (require (length level = 1) AssertionError) (\<lambda>_. Inr (level ! 0)))))"

definition mix_in_length :: "digest \<Rightarrow> bytes \<Rightarrow> nat \<Rightarrow> bytes" where
  "mix_in_length H root len = H (root @ le_bytes 32 len)"

definition pack_bytes :: "bytes \<Rightarrow> bytes list" where
  "pack_bytes data =
     map (\<lambda>chunk. chunk @ replicate (BYTES_PER_CHUNK - length chunk) 0) (batched BYTES_PER_CHUNK data)"

definition pack_bits :: "bool list \<Rightarrow> bytes list" where
  "pack_bits bits = pack_bytes (le_bytes (ceil_div (length bits) 8) (packed_bits bits))"

section \<open>Hash tree roots\<close>

text \<open>\<^verbatim>\<open>issubclass(element_type, (BaseUint, Boolean, Fp))\<close>\<close>

fun is_basic :: "ssz_type \<Rightarrow> bool" where
  "is_basic (TUint b) = True"
| "is_basic TBoolean = True"
| "is_basic TFp = True"
| "is_basic t = False"

definition htr_packed_leaf :: "digest \<Rightarrow> bytes result \<Rightarrow> bytes result" where
  "htr_packed_leaf H encoded = rbind encoded (\<lambda>data. merkleize H (pack_bytes data) None)"

definition htr_bytelist :: "digest \<Rightarrow> nat \<Rightarrow> bytes \<Rightarrow> bytes result" where
  "htr_bytelist H lim data =
     (let limit_chunks = ceil_div lim BYTES_PER_CHUNK
      in rbind (merkleize H (pack_bytes data) (Some limit_chunks)) (\<lambda>root.
         Inr (mix_in_length H root (length data))))"

definition htr_bitvector :: "digest \<Rightarrow> nat \<Rightarrow> bool list \<Rightarrow> bytes result" where
  "htr_bitvector H k bits = merkleize H (pack_bits bits) (Some (ceil_div k BITS_PER_CHUNK))"

definition htr_bitlist :: "digest \<Rightarrow> nat \<Rightarrow> bool list \<Rightarrow> bytes result" where
  "htr_bitlist H lim bits =
     rbind (merkleize H (pack_bits bits) (Some (ceil_div lim BITS_PER_CHUNK))) (\<lambda>root.
     Inr (mix_in_length H root (length bits)))"

text \<open>
  The roots of the elements are computed by the recursive calls; basic elements contribute their
  encodings instead.
\<close>

definition htr_vector :: "digest \<Rightarrow> bool \<Rightarrow> nat \<Rightarrow> nat \<Rightarrow> bytes list result \<Rightarrow> bytes list result \<Rightarrow> bytes result" where
  "htr_vector H basic element_size len encodings roots =
     (if basic then
        let limit_chunks = ceil_div (len * element_size) BYTES_PER_CHUNK
        in rbind encodings (\<lambda>es. merkleize H (pack_bytes (concat es)) (Some limit_chunks))
      else rbind roots (\<lambda>rs. merkleize H rs (Some len)))"

definition htr_list :: "digest \<Rightarrow> bool \<Rightarrow> nat \<Rightarrow> nat \<Rightarrow> nat \<Rightarrow> bytes list result \<Rightarrow> bytes list result \<Rightarrow> bytes result" where
  "htr_list H basic element_size limit len encodings roots =
     rbind (if basic then
              let limit_chunks = ceil_div (limit * element_size) BYTES_PER_CHUNK
              in rbind encodings (\<lambda>es. merkleize H (pack_bytes (concat es)) (Some limit_chunks))
            else rbind roots (\<lambda>rs. merkleize H rs (Some limit)))
       (\<lambda>root. Inr (mix_in_length H root len))"

definition htr_container :: "digest \<Rightarrow> bytes list result \<Rightarrow> bytes result" where
  "htr_container H roots = rbind roots (\<lambda>rs. merkleize H rs None)"

fun hash_tree_root :: "digest \<Rightarrow> ssz_type \<Rightarrow> ssz_value \<Rightarrow> bytes result" where
  "hash_tree_root H (TUint b) v = htr_packed_leaf H (encode_bytes (TUint b) v)"
| "hash_tree_root H TBoolean v = htr_packed_leaf H (encode_bytes TBoolean v)"
| "hash_tree_root H TFp v = htr_packed_leaf H (encode_bytes TFp v)"
| "hash_tree_root H (TBytes k) v = htr_packed_leaf H (encode_bytes (TBytes k) v)"
| "hash_tree_root H (TByteList lim) v = rbind (encode_bytes (TByteList lim) v) (htr_bytelist H lim)"
| "hash_tree_root H (TBitvector k) v =
     (case v of VBitvector bits \<Rightarrow> htr_bitvector H k bits | _ \<Rightarrow> Inl TypeError)"
| "hash_tree_root H (TBitlist lim) v =
     (case v of VBitlist bits \<Rightarrow> htr_bitlist H lim bits | _ \<Rightarrow> Inl TypeError)"
| "hash_tree_root H (TVector t k) v =
     (case v of VVector vs \<Rightarrow>
        htr_vector H (is_basic t) (byte_width t) k (rmap (encode_bytes t) vs) (rmap (hash_tree_root H t) vs)
      | _ \<Rightarrow> Inl TypeError)"
| "hash_tree_root H (TList t lim) v =
     (case v of VList vs \<Rightarrow>
        htr_list H (is_basic t) (byte_width t) lim (length vs) (rmap (encode_bytes t) vs) (rmap (hash_tree_root H t) vs)
      | _ \<Rightarrow> Inl TypeError)"
| "hash_tree_root H (TContainer ts) v =
     (case v of VContainer vs \<Rightarrow>
        htr_container H (rmap (\<lambda>(t, w). hash_tree_root H t w) (zip ts vs))
      | _ \<Rightarrow> Inl TypeError)"

section \<open>The reference tree\<close>

text \<open>The root of a perfect binary tree over \<open>2 ^ d\<close> leaves, by splitting the leaves in halves.\<close>

primrec perfect_root :: "digest \<Rightarrow> nat \<Rightarrow> bytes list \<Rightarrow> bytes" where
  "perfect_root H 0 leaves = hd leaves"
| "perfect_root H (Suc d) leaves =
     H (perfect_root H d (take (2 ^ d) leaves) @ perfect_root H d (drop (2 ^ d) leaves))"

text \<open>One layer of the perfect tree.\<close>

fun hash_pairs :: "digest \<Rightarrow> bytes list \<Rightarrow> bytes list" where
  "hash_pairs H (l # r # level) = H (l @ r) # hash_pairs H level"
| "hash_pairs H level = []"

lemma length_hash_pairs: "length (hash_pairs H xs) = length xs div 2"
  by (induction H xs rule: hash_pairs.induct) auto

lemma take_hash_pairs: "hash_pairs H (take (2 * m) xs) = take m (hash_pairs H xs)"
proof (induction H xs arbitrary: m rule: hash_pairs.induct)
  case (1 H l r level)
  then show ?case by (cases m) auto
qed (auto simp: take_Cons')

lemma drop_hash_pairs: "hash_pairs H (drop (2 * m) xs) = drop m (hash_pairs H xs)"
proof (induction H xs arbitrary: m rule: hash_pairs.induct)
  case (1 H l r level)
  then show ?case by (cases m) auto
qed (auto simp: drop_Cons')

lemma perfect_root_pairs:
  "length xs = 2 ^ Suc d \<Longrightarrow> perfect_root H (Suc d) xs = perfect_root H d (hash_pairs H xs)"
proof (induction d arbitrary: xs)
  case 0
  then obtain a b where "xs = [a, b]"
    by (auto simp: numeral_2_eq_2 length_Suc_conv)
  then show ?case by simp
next
  case (Suc d)
  have "perfect_root H (Suc (Suc d)) xs =
      H (perfect_root H (Suc d) (take (2 ^ Suc d) xs) @ perfect_root H (Suc d) (drop (2 ^ Suc d) xs))"
    by simp
  also have "\<dots> = H (perfect_root H d (hash_pairs H (take (2 ^ Suc d) xs)) @
      perfect_root H d (hash_pairs H (drop (2 ^ Suc d) xs)))"
    using Suc.prems by (subst (1 2) Suc.IH) auto
  also have "\<dots> = perfect_root H (Suc d) (hash_pairs H xs)"
    using take_hash_pairs [of H "2 ^ d" xs] drop_hash_pairs [of H "2 ^ d" xs] by simp
  finally show ?case .
qed

lemma bit_length_pow2: "bit_length (2 ^ d - 1) = d"
proof (cases d)
  case (Suc e)
  then show ?thesis by (simp add: bit_length_eqI)
qed simp

lemma zero_tree_root_pow2: "d \<le> 64 \<Longrightarrow> zero_tree_root H (2 ^ d) = Inr (zero_hash H d)"
proof (cases "d = 0")
  case False
  then have "\<not> (2 :: nat) ^ d \<le> 1" using one_less_power [of "2 :: nat" d] by simp
  moreover assume "d \<le> 64"
  then have "py_index (ZERO_HASHES H) d = Inr (zero_hash H d)"
    unfolding py_index_eq_Inr ZERO_HASHES_def by (simp add: nth_append)
  ultimately show ?thesis
    unfolding zero_tree_root_def Let_def bit_length_pow2 by simp
qed (simp add: zero_tree_root_def)

lemma next_pow2_exp: "\<exists>d. next_pow2 x = 2 ^ d \<and> d = bit_length (x - 1)"
  by (auto simp: next_pow2_def)

lemma le_next_pow2: "x \<le> next_pow2 x"
  using less_exp_bit_length [of "x - 1"] by (auto simp: next_pow2_def)

text \<open>The tree depth for a leaf capacity.\<close>

definition tree_depth :: "nat \<Rightarrow> nat" where
  "tree_depth x = bit_length (x - 1)"

lemma next_pow2_depth: "next_pow2 x = 2 ^ tree_depth x"
  by (auto simp: next_pow2_def tree_depth_def)

lemma le_tree_depth: "x \<le> 2 ^ tree_depth x"
  using le_next_pow2 [of x] by (simp add: next_pow2_depth)

lemma merkle_layer_Nil [simp]: "merkle_layer H m [] = Inr []"
  by (simp add: merkle_layer_def)

lemma merkle_layer_single: "zero_tree_root H m = Inr z \<Longrightarrow> merkle_layer H m [a] = Inr [H (a @ z)]"
  by (simp add: merkle_layer_def batched_step)

lemma merkle_layer_Cons2:
  "merkle_layer H m (a # b # xs) = rbind (merkle_layer H m xs) (\<lambda>ys. Inr (H (a @ b) # ys))"
  by (simp add: merkle_layer_def batched_step)

text \<open>One pass computes the present nodes of the next layer of the padded tree.\<close>

lemma hash_pairs_replicate: "hash_pairs H (replicate (2 * k) z) = replicate k (H (z @ z))"
  by (induction k) auto

lemma merkle_layer_padded:
  assumes "d \<le> 64" and "length xs + k = 2 * m"
  shows "\<exists>ys. merkle_layer H (2 ^ d) xs = Inr ys \<and> length ys = (length xs + 1) div 2 \<and>
    hash_pairs H (xs @ replicate k (zero_hash H d)) = ys @ replicate (m - length ys) (zero_hash H (Suc d))"
  using assms(2)
proof (induction xs arbitrary: m rule: induct_list012)
  case 1
  then show ?case by (simp add: hash_pairs_replicate)
next
  case (2 a)
  then obtain k' where k: "k = Suc k'" "k' = 2 * (m - 1)" by (cases k) auto
  then show ?case
    using merkle_layer_single [OF zero_tree_root_pow2 [OF assms(1)], of H a]
    by (simp add: hash_pairs_replicate)
next
  case (3 a b xs)
  then obtain m' where "m = Suc m'" "length xs + k = 2 * m'" by (cases m) auto
  with "3.IH"(1) show ?case by (auto simp: merkle_layer_Cons2)
qed

lemma merkle_loop_root:
  assumes "D \<le> 65" and "j + d = D" and "length level \<le> 2 ^ d" and "level \<noteq> []"
  shows "merkle_loop H (2 ^ D) level (2 ^ j) =
    Inr [perfect_root H d (level @ replicate (2 ^ d - length level) (zero_hash H j))]"
  using assms(2-)
proof (induction d arbitrary: j level)
  case 0
  then have "length level = 1" by (cases level) auto
  then show ?case using 0 by (subst merkle_loop.simps) (auto simp: length_Suc_conv)
next
  case (Suc d)
  then have j: "j \<le> 64" "j < D" "(2 :: nat) ^ j < 2 ^ D" using assms(1) by auto
  let ?full = "level @ replicate (2 ^ Suc d - length level) (zero_hash H j)"
  have "length level + (2 ^ Suc d - length level) = 2 * 2 ^ d" using Suc.prems(2) by simp
  from merkle_layer_padded [OF j(1) this, of H] obtain ys where
    ys: "merkle_layer H (2 ^ j) level = Inr ys" "length ys = (length level + 1) div 2"
      "hash_pairs H ?full = ys @ replicate (2 ^ d - length ys) (zero_hash H (Suc j))"
    by auto
  have "merkle_loop H (2 ^ D) level (2 ^ j) = merkle_loop H (2 ^ D) ys (2 ^ Suc j)"
    using j(3) ys(1) by (subst merkle_loop.simps) (simp add: mult.commute)
  also have "\<dots> = Inr [perfect_root H d (hash_pairs H ?full)]"
    unfolding ys(3)
  proof (rule Suc.IH)
    show "Suc j + d = D" "length ys \<le> 2 ^ d" using Suc.prems(1,2) ys(2) by simp_all
    have "0 < length level" using Suc.prems(3) by simp
    then have "0 < length ys" using ys(2) by simp
    then show "ys \<noteq> []" by simp
  qed
  also have "perfect_root H d (hash_pairs H ?full) = perfect_root H (Suc d) ?full"
    using Suc.prems(2) by (intro perfect_root_pairs [symmetric]) simp
  finally show ?case .
qed

lemma perfect_root_zero: "perfect_root H d (replicate (2 ^ d) ZERO_HASH) = zero_hash H d"
  by (induction d) (simp_all add: min_def)

text \<open>The reference: pad the chunks to the width of the tree and take its root.\<close>

definition merkle_reference :: "digest \<Rightarrow> bytes list \<Rightarrow> nat \<Rightarrow> bytes" where
  "merkle_reference H chunks capacity =
     (let d = tree_depth capacity
      in perfect_root H d (chunks @ replicate (2 ^ d - length chunks) ZERO_HASH))"

lemma merkle_loop_reference:
  assumes "length chunks \<le> capacity" and "tree_depth capacity \<le> 64" and "chunks \<noteq> []"
  shows "merkle_loop H (next_pow2 capacity) chunks 1 = Inr [merkle_reference H chunks capacity]"
  using merkle_loop_root [of "tree_depth capacity" 0 "tree_depth capacity" chunks H] assms
    le_trans [OF assms(1) le_tree_depth]
  by (simp add: merkle_reference_def next_pow2_depth Let_def)

lemma merkle_reference_one:
  "next_pow2 capacity = 1 \<Longrightarrow> chunks \<noteq> [] \<Longrightarrow> merkle_reference H chunks capacity = chunks ! 0"
  by (simp add: merkle_reference_def next_pow2_depth hd_conv_nth nth_append)

lemma merkleize_reference_None:
  assumes "tree_depth (length chunks) \<le> 64"
  shows "merkleize H chunks None = Inr (merkle_reference H chunks (length chunks))"
proof (cases "chunks = []")
  case True
  then show ?thesis by (simp add: merkleize_def merkle_reference_def tree_depth_def)
next
  case False
  with merkle_loop_reference [of chunks "length chunks" H] assms show ?thesis
    by (auto simp: merkleize_def Let_def merkle_reference_one)
qed

lemma merkleize_reference_Some:
  assumes "tree_depth l \<le> 64" and "length chunks \<le> l"
  shows "merkleize H chunks (Some l) = Inr (merkle_reference H chunks l)"
proof (cases "chunks = []")
  case True
  with assms show ?thesis
    by (simp add: merkleize_def merkle_reference_def Let_def next_pow2_depth zero_tree_root_pow2 perfect_root_zero)
next
  case False
  with merkle_loop_reference [of chunks l H] assms show ?thesis
    by (auto simp: merkleize_def Let_def merkle_reference_one)
qed

text \<open>
  Property C8: \<^verbatim>\<open>merkleize\<close>, which walks only the present nodes and takes missing subtrees from a
  table, returns the root of the perfect binary tree over the chunks padded with zero chunks up to
  the next power of two of the limit (or of the chunk count). It raises exactly when the chunks
  exceed the limit. The depth bound is the size of the table of zero subtrees.
\<close>

theorem merkleize_reference:
  assumes "tree_depth (case limit of None \<Rightarrow> length chunks | Some l \<Rightarrow> l) \<le> 64"
  shows "merkleize H chunks limit =
    (case limit of
       None \<Rightarrow> Inr (merkle_reference H chunks (length chunks))
     | Some l \<Rightarrow> if l < length chunks then Inl ValueError else Inr (merkle_reference H chunks l))"
proof (cases limit)
  case None
  with assms show ?thesis by (simp add: merkleize_reference_None)
next
  case (Some l)
  show ?thesis
  proof (cases "l < length chunks")
    case True
    with Some show ?thesis by (auto simp: merkleize_def Let_def)
  next
    case False
    with Some assms show ?thesis by (simp add: merkleize_reference_Some)
  qed
qed

theorem merkleize_reference_witness:
  "merkleize (\<lambda>x. take 32 (rev x)) [replicate 32 1, replicate 32 2, replicate 32 3] (Some 5) =
   Inr (merkle_reference (\<lambda>x. take 32 (rev x)) [replicate 32 1, replicate 32 2, replicate 32 3] 5)"
  using merkleize_reference [of "[replicate 32 1, replicate 32 2, replicate 32 3]" "Some 5" "\<lambda>x. take 32 (rev x)"]
  by (simp add: tree_depth_def bit_length.simps)

section \<open>Hash tree roots are total\<close>

definition digest_ok :: "digest \<Rightarrow> bool" where
  "digest_ok H \<longleftrightarrow> (\<forall>x. length (H x) = 32)"

text \<open>Capacities within the table of zero subtrees; every type the code declares is far below.\<close>

fun ssz_bounded :: "ssz_type \<Rightarrow> bool" where
  "ssz_bounded (TUint b) \<longleftrightarrow> b \<le> 2 ^ 64"
| "ssz_bounded TBoolean \<longleftrightarrow> True"
| "ssz_bounded TFp \<longleftrightarrow> True"
| "ssz_bounded (TBytes k) \<longleftrightarrow> k \<le> 2 ^ 64"
| "ssz_bounded (TByteList lim) \<longleftrightarrow> lim \<le> 2 ^ 64"
| "ssz_bounded (TBitvector k) \<longleftrightarrow> k \<le> 2 ^ 64"
| "ssz_bounded (TBitlist lim) \<longleftrightarrow> lim \<le> 2 ^ 64"
| "ssz_bounded (TVector t k) \<longleftrightarrow> ssz_bounded t \<and> k \<le> 2 ^ 64 \<and> k * byte_width t \<le> 2 ^ 64"
| "ssz_bounded (TList t lim) \<longleftrightarrow> ssz_bounded t \<and> lim \<le> 2 ^ 64 \<and> lim * byte_width t \<le> 2 ^ 64"
| "ssz_bounded (TContainer ts) \<longleftrightarrow> list_all ssz_bounded ts \<and> length ts \<le> 2 ^ 64"

lemma tree_depth_le: "x \<le> 2 ^ 64 \<Longrightarrow> tree_depth x \<le> 64"
proof -
  assume "x \<le> 2 ^ 64"
  then have "x - 1 < 2 ^ 64" by (cases x) simp_all
  then show "tree_depth x \<le> 64" unfolding tree_depth_def bit_length_le_iff .
qed

lemma ceil_div_le_self: "0 < b \<Longrightarrow> ceil_div a b \<le> a"
  using mult_le_mono2 [of 1 b a] by (simp add: ceil_div_le_iff)

lemma ceil_div_mono: "0 < b \<Longrightarrow> a \<le> a' \<Longrightarrow> ceil_div a b \<le> ceil_div a' b"
  unfolding ceil_div_def by (intro div_le_mono) simp

lemma length_batched: "0 < n \<Longrightarrow> length (batched n xs) = ceil_div (length xs) n"
proof (induction n xs rule: batched.induct)
  case (1 n xs)
  show ?case
  proof (cases "xs = []")
    case False
    then have "length (batched n xs) = Suc (ceil_div (length xs - n) n)"
      using 1 by (simp add: batched_step)
    also have "\<dots> = ceil_div (length xs) n"
    proof (cases "length xs \<le> n")
      case True
      obtain m where "length xs = Suc m" using False by (cases xs) auto
      then have "(length xs + n - 1) div n = 1"
        using True by (intro div_nat_eqI) simp_all
      with True 1 show ?thesis by (simp add: ceil_div_def)
    next
      case False
      then have "length xs + n - 1 = (length xs - n + n - 1) + n" using 1 by simp
      with 1 show ?thesis unfolding ceil_div_def by (simp only: div_add_self2)
    qed
    finally show ?thesis .
  qed (use 1 in \<open>simp add: ceil_div_def\<close>)
qed

lemma length_pack_bytes: "length (pack_bytes data) = ceil_div (length data) 32"
  by (simp add: pack_bytes_def BYTES_PER_CHUNK_def length_batched)

lemma batched_length_le: "x \<in> set (batched n xs) \<Longrightarrow> length x \<le> n"
  by (induction n xs rule: batched.induct) (subst (asm) (2) batched.simps, auto split: if_splits)

lemma pack_bytes_chunk: "list_all (\<lambda>c. length c = 32) (pack_bytes data)"
  using batched_length_le [of _ 32 data] by (auto simp: pack_bytes_def BYTES_PER_CHUNK_def list_all_iff)

lemma length_perfect_root:
  "digest_ok H \<Longrightarrow> list_all (\<lambda>c. length c = 32) leaves \<Longrightarrow> leaves \<noteq> [] \<Longrightarrow> length (perfect_root H d leaves) = 32"
  by (cases d) (auto simp: digest_ok_def list_all_iff)

lemma length_merkle_reference:
  assumes "digest_ok H" and "list_all (\<lambda>c. length c = 32) chunks"
  shows "length (merkle_reference H chunks capacity) = 32"
proof -
  let ?leaves = "chunks @ replicate (2 ^ tree_depth capacity - length chunks) ZERO_HASH"
  have "?leaves \<noteq> []" by (cases chunks) auto
  moreover have "list_all (\<lambda>c. length c = 32) ?leaves" using assms(2) by (auto simp: list_all_iff ZERO_HASH_def)
  ultimately show ?thesis
    unfolding merkle_reference_def Let_def using assms(1) by (intro length_perfect_root)
qed

lemma merkleize_total:
  assumes "digest_ok H" and "list_all (\<lambda>c. length c = 32) chunks" and "length chunks \<le> 2 ^ 64"
  shows "\<exists>r. merkleize H chunks None = Inr r \<and> length r = 32"
  using merkleize_reference_None [OF tree_depth_le [OF assms(3)]] length_merkle_reference [OF assms(1,2)] by auto

lemma merkleize_limit_total:
  assumes "digest_ok H" and "list_all (\<lambda>c. length c = 32) chunks" and "length chunks \<le> l" and "l \<le> 2 ^ 64"
  shows "\<exists>r. merkleize H chunks (Some l) = Inr r \<and> length r = 32"
  using merkleize_reference_Some [OF tree_depth_le [OF assms(4)] assms(3)] length_merkle_reference [OF assms(1,2)] by auto

lemma length_mix_in_length: "digest_ok H \<Longrightarrow> length (mix_in_length H root n) = 32"
  by (simp add: mix_in_length_def digest_ok_def)

lemma packed_total:
  assumes "digest_ok H" and "length data \<le> n" and "n \<le> 2 ^ 64"
  shows "\<exists>r. merkleize H (pack_bytes data) (Some (ceil_div n 32)) = Inr r \<and> length r = 32"
  using assms le_trans [OF ceil_div_le_self [of 32 n] assms(3)] ceil_div_mono [of 32 "length data" n]
  by (intro merkleize_limit_total pack_bytes_chunk) (simp_all add: length_pack_bytes)

lemma packed_leaf_total:
  assumes "digest_ok H" and "length data \<le> 2 ^ 64"
  shows "\<exists>r. merkleize H (pack_bytes data) None = Inr r \<and> length r = 32"
  using assms le_trans [OF ceil_div_le_self [of 32 "length data"] assms(2)]
  by (intro merkleize_total pack_bytes_chunk) (simp_all add: length_pack_bytes)

lemma bits_total:
  assumes "digest_ok H" and "length bits \<le> n" and "n \<le> 2 ^ 64"
  shows "\<exists>r. merkleize H (pack_bits bits) (Some (ceil_div n BITS_PER_CHUNK)) = Inr r \<and> length r = 32"
proof -
  have "ceil_div (ceil_div (length bits) 8) 32 \<le> ceil_div n 256"
    using assms(2) ceil_div_upper [of 256 n] by (simp add: ceil_div_le_iff)
  then show ?thesis
    using assms le_trans [OF ceil_div_le_self [of 256 n] assms(3)]
    by (intro merkleize_limit_total)
       (simp_all add: pack_bits_def pack_bytes_chunk length_pack_bytes BITS_PER_CHUNK_def BYTES_PER_CHUNK_def)
qed

lemma is_basic_fixed: "is_basic t \<Longrightarrow> is_fixed_size t"
  by (cases t) auto

lemma rmap_total: "list_all (\<lambda>x. \<exists>y. f x = Inr y \<and> Q y) xs \<Longrightarrow> \<exists>ys. rmap f xs = Inr ys \<and> length ys = length xs \<and> list_all Q ys"
  by (induction xs) auto

lemma basic_encodings_total:
  assumes "is_basic t" and "list_all (ssz_ok t) vs"
  shows "\<exists>es. rmap (encode_bytes t) vs = Inr es \<and> length (concat es) = byte_width t * length vs"
  using vector_payload_total [OF is_basic_fixed [OF assms(1)] codec_width_all assms(2)]
  unfolding encode_bytes_def by auto

lemma root_list_total:
  "digest_ok H \<Longrightarrow> list_all (\<lambda>x. \<exists>r. f x = Inr r \<and> length r = 32) xs \<Longrightarrow> length xs \<le> l \<Longrightarrow> l \<le> 2 ^ 64 \<Longrightarrow>
   \<exists>rs r. rmap f xs = Inr rs \<and> merkleize H rs (Some l) = Inr r \<and> length r = 32"
  using rmap_total [of f "\<lambda>r. length r = 32" xs] merkleize_limit_total [of H _ l] by fastforce

lemma hash_tree_root_ok:
  assumes "digest_ok H" and "ssz_bounded t" and "ssz_ok t v"
  shows "\<exists>r. hash_tree_root H t v = Inr r \<and> length r = 32"
  using assms(2,3)
proof (induction t arbitrary: v)
  case (TVector t k)
  then obtain vs where vs: "v = VVector vs" "length vs = k" "list_all (ssz_ok t) vs"
    by (auto split: ssz_value.splits)
  show ?case
  proof (cases "is_basic t")
    case True
    with basic_encodings_total [OF True vs(3)] vs TVector.prems packed_total [OF assms(1)] show ?thesis
      by (force simp: htr_vector_def Let_def BYTES_PER_CHUNK_def mult.commute)
  next
    case False
    have "list_all (\<lambda>x. \<exists>r. hash_tree_root H t x = Inr r \<and> length r = 32) vs"
      using vs(3) TVector by (auto simp: list_all_iff)
    from root_list_total [OF assms(1) this, of k] vs TVector.prems False show ?thesis
      by (auto simp: htr_vector_def)
  qed
next
  case (TList t lim)
  then obtain vs where vs: "v = VList vs" "length vs \<le> lim" "list_all (ssz_ok t) vs"
    by (auto split: ssz_value.splits)
  have "byte_width t * length vs \<le> lim * byte_width t" using vs(2) by simp
  then have "\<exists>r. htr_list H (is_basic t) (byte_width t) lim (length vs) (rmap (encode_bytes t) vs)
      (rmap (hash_tree_root H t) vs) = Inr r \<and> length r = 32"
  proof (cases "is_basic t")
    case True
    obtain es where es: "rmap (encode_bytes t) vs = Inr es" "length (concat es) = byte_width t * length vs"
      using basic_encodings_total [OF True vs(3)] by blast
    obtain r where "merkleize H (pack_bytes (concat es)) (Some (ceil_div (lim * byte_width t) 32)) = Inr r"
      using packed_total [OF assms(1), of "concat es" "lim * byte_width t"] es(2) TList.prems \<open>_ \<le> lim * _\<close> by auto
    with es(1) True show ?thesis
      by (simp add: htr_list_def Let_def BYTES_PER_CHUNK_def length_mix_in_length [OF assms(1)])
  next
    case False
    have "list_all (\<lambda>x. \<exists>r. hash_tree_root H t x = Inr r \<and> length r = 32) vs"
      using vs(3) TList by (auto simp: list_all_iff)
    from root_list_total [OF assms(1) this vs(2)] TList.prems False show ?thesis
      by (auto simp: htr_list_def length_mix_in_length [OF assms(1)])
  qed
  then show ?case using vs by simp
next
  case (TContainer ts)
  then obtain vs where vs: "v = VContainer vs" "length vs = length ts" "list_all (\<lambda>(t, w). ssz_ok t w) (zip ts vs)"
    by (auto split: ssz_value.splits)
  have "list_all (\<lambda>(t, w). \<exists>r. hash_tree_root H t w = Inr r \<and> length r = 32) (zip ts vs)"
    using vs(3) TContainer by (fastforce simp: list_all_iff dest: set_zip_leftD)
  then obtain rs where "rmap (\<lambda>(t, w). hash_tree_root H t w) (zip ts vs) = Inr rs" "length rs = length ts"
      "list_all (\<lambda>r. length r = 32) rs"
    using rmap_total [of "\<lambda>(t, w). hash_tree_root H t w" "\<lambda>r. length r = 32" "zip ts vs"] vs(2)
    by (auto simp: split_def)
  with vs TContainer.prems merkleize_total [OF assms(1)] show ?case by (auto simp: htr_container_def)
next
  case (TBitvector k)
  with bits_total [OF assms(1)] show ?case by (auto simp: htr_bitvector_def split: ssz_value.splits)
next
  case (TBitlist lim)
  then obtain bits where "v = VBitlist bits" "length bits \<le> lim" by (auto split: ssz_value.splits)
  with bits_total [OF assms(1) this(2)] TBitlist.prems show ?case
    by (auto simp: htr_bitlist_def length_mix_in_length [OF assms(1)])
next
  case (TByteList lim)
  then obtain data where "v = VByteList data" "length data \<le> lim" by (auto split: ssz_value.splits)
  with packed_total [OF assms(1) this(2)] TByteList.prems show ?case
    by (auto simp: htr_bytelist_def encode_bytes_def Let_def BYTES_PER_CHUNK_def length_mix_in_length [OF assms(1)])
qed (use packed_leaf_total [OF assms(1)] in
    \<open>auto simp: htr_packed_leaf_def encode_bytes_def P_BYTES_eq split: ssz_value.splits\<close>)

text \<open>
  Property C20: the hash tree root of every value its type accepts exists and is 32 bytes long, for
  every type whose capacities are within the table of zero subtrees: no limit check, table lookup
  or assertion of the Merkleization code fails.
\<close>

theorem hash_tree_root_total:
  assumes "digest_ok H" and "ssz_bounded t" and "ssz_ok t v"
  shows "\<exists>r. hash_tree_root H t v = Inr r \<and> length r = 32"
  using assms by (rule hash_tree_root_ok)

theorem hash_tree_root_total_witness:
  "\<exists>r. hash_tree_root (\<lambda>x. replicate 32 (hd x)) (TContainer [TUint 64, TList (TBytes 32) 8])
     (VContainer [VUint 3, VList [VBytes (replicate 32 1)]]) = Inr r \<and> length r = 32"
  by (rule hash_tree_root_total) (simp_all add: digest_ok_def)

end
