(* ===== verification/Containers.thy ===== *)
theory Containers
  imports Merkle
begin

text \<open>
  The consensus containers of \<^verbatim>\<open>spec/forks/lstar/containers/\<close> with their SSZ descriptors, the
  slot arithmetic of \<^verbatim>\<open>slot.py\<close> and the constants of \<^verbatim>\<open>config.py\<close>. Slots, intervals and indices
  are \<^verbatim>\<open>Uint64\<close> values; they are modelled by their numeric value, and the operations that could
  leave the range check it where the code can reach the bound.
\<close>

section \<open>Configuration\<close>

definition INTERVALS_PER_SLOT :: nat where "INTERVALS_PER_SLOT = 5"
definition GOSSIP_DISPARITY_INTERVALS :: nat where "GOSSIP_DISPARITY_INTERVALS = 1"
definition SECONDS_PER_SLOT :: nat where "SECONDS_PER_SLOT = 4"
definition MILLISECONDS_PER_SLOT :: nat where "MILLISECONDS_PER_SLOT = SECONDS_PER_SLOT * 1000"
definition MILLISECONDS_PER_INTERVAL :: nat where
  "MILLISECONDS_PER_INTERVAL = MILLISECONDS_PER_SLOT div INTERVALS_PER_SLOT"
definition JUSTIFICATION_LOOKBACK_SLOTS :: nat where "JUSTIFICATION_LOOKBACK_SLOTS = 3"
definition HISTORICAL_ROOTS_LIMIT :: nat where "HISTORICAL_ROOTS_LIMIT = 2 ^ 18"
definition ATTESTATION_COMMITTEE_COUNT :: nat where "ATTESTATION_COMMITTEE_COUNT = 1"
definition VALIDATOR_REGISTRY_LIMIT :: nat where "VALIDATOR_REGISTRY_LIMIT = 2 ^ 12"
definition MAX_ATTESTATIONS_DATA :: nat where "MAX_ATTESTATIONS_DATA = 8"

definition IMMEDIATE_JUSTIFICATION_WINDOW :: nat where "IMMEDIATE_JUSTIFICATION_WINDOW = 5"

section \<open>Slots\<close>

type_synonym slot = nat
type_synonym root = bytes

definition justified_index_after :: "slot \<Rightarrow> slot \<Rightarrow> nat option" where
  "justified_index_after s finalized_slot =
     (if s \<le> finalized_slot then None else Some (s - finalized_slot - 1))"

definition is_justifiable_after :: "slot \<Rightarrow> slot \<Rightarrow> bool result" where
  "is_justifiable_after s finalized_slot =
     rbind (require (finalized_slot \<le> s) AssertionError) (\<lambda>_.
       let delta = s - finalized_slot
       in if delta \<le> IMMEDIATE_JUSTIFICATION_WINDOW then Inr True
          else if isqrt delta ^ 2 = delta then Inr True
          else let pronic_discriminant = 4 * delta + 1;
                   discriminant_root = isqrt pronic_discriminant
               in Inr (discriminant_root ^ 2 = pronic_discriminant \<and> discriminant_root mod 2 = 1))"

section \<open>Checkpoints and attestations\<close>

record checkpoint =
  cp_root :: root
  cp_slot :: slot

record attestation_data =
  ad_slot :: slot
  ad_head :: checkpoint
  ad_target :: checkpoint
  ad_source :: checkpoint

definition advance_to :: "checkpoint \<Rightarrow> checkpoint \<Rightarrow> checkpoint" where
  "advance_to self candidate = (if cp_slot candidate > cp_slot self then candidate else self)"

definition lies_on_chain :: "attestation_data \<Rightarrow> root list \<Rightarrow> bool" where
  "lies_on_chain ad historical_block_hashes =
     (if cp_root (ad_source ad) = ZERO_HASH \<or> cp_root (ad_target ad) = ZERO_HASH \<or> cp_root (ad_head ad) = ZERO_HASH
      then False
      else let source_slot = cp_slot (ad_source ad);
               target_slot = cp_slot (ad_target ad);
               head_slot = cp_slot (ad_head ad);
               chain_length = length historical_block_hashes
           in if source_slot \<ge> chain_length \<or> target_slot \<ge> chain_length \<or> head_slot \<ge> chain_length then False
              else cp_root (ad_source ad) = historical_block_hashes ! source_slot
                \<and> cp_root (ad_target ad) = historical_block_hashes ! target_slot
                \<and> cp_root (ad_head ad) = historical_block_hashes ! head_slot)"

record aggregated_attestation =
  aa_aggregation_bits :: "bool list"
  aa_data :: attestation_data

section \<open>Participation bitfields\<close>

text \<open>\<^verbatim>\<open>max\<close> of a non-empty collection of indices.\<close>

definition max_index :: "nat list \<Rightarrow> nat" where
  "max_index xs = fold max xs 0"

definition aggregation_bits_from_indices :: "nat list \<Rightarrow> bool list result" where
  "aggregation_bits_from_indices indices =
     (if indices = [] then Inl (SpecRejectionError EMPTY_AGGREGATION_BITS)
      else let highest_index = max_index indices
           in if highest_index \<ge> VALIDATOR_REGISTRY_LIMIT
              then Inl (SpecRejectionError VALIDATOR_INDEX_OUT_OF_RANGE)
              else Inr (map (\<lambda>i. i \<in> set indices) [0..<highest_index + 1]))"

definition set_indices :: "bool list \<Rightarrow> nat list" where
  "set_indices bits = map fst (filter snd (enumerate 0 bits))"

definition to_validator_indices :: "bool list \<Rightarrow> nat list result" where
  "to_validator_indices bits =
     (let indices = set_indices bits
      in if indices = [] then Inl (SpecRejectionError EMPTY_AGGREGATION_BITS)
         else if length indices > VALIDATOR_REGISTRY_LIMIT then Inl SSZValueError
         else Inr indices)"

section \<open>Blocks\<close>

record block_body =
  bb_attestations :: "aggregated_attestation list"

record block_header =
  bh_slot :: slot
  bh_proposer_index :: nat
  bh_parent_root :: root
  bh_state_root :: root
  bh_body_root :: root

record block =
  b_slot :: slot
  b_proposer_index :: nat
  b_parent_root :: root
  b_state_root :: root
  b_body :: block_body

record signed_block =
  sb_block :: block
  sb_proof :: bytes

section \<open>Validators and state\<close>

record validator =
  v_attestation_public_key :: bytes
  v_proposal_public_key :: bytes
  v_index :: nat

record genesis_config =
  gc_genesis_time :: nat

definition proposer_for_slot :: "slot \<Rightarrow> nat \<Rightarrow> nat result" where
  "proposer_for_slot s num_validators =
     (if num_validators = 0 then Inl (SpecRejectionError EMPTY_VALIDATOR_REGISTRY)
      else Inr (s mod num_validators))"

definition is_within_registry :: "nat \<Rightarrow> nat \<Rightarrow> bool" where
  "is_within_registry i num_validators = (i < num_validators)"

definition compute_subnet_id :: "nat \<Rightarrow> nat \<Rightarrow> nat result" where
  "compute_subnet_id i num_committees =
     (if num_committees = 0 then Inl ZeroDivisionError else Inr (i mod num_committees))"

text \<open>\<^verbatim>\<open>Interval.from_slot\<close>: the product is range-checked by the \<^verbatim>\<open>Uint64\<close> constructor.\<close>

definition interval_from_slot :: "slot \<Rightarrow> nat result" where
  "interval_from_slot s =
     (if s * INTERVALS_PER_SLOT < 2 ^ 64 then Inr (s * INTERVALS_PER_SLOT) else Inl SSZValueError)"

text \<open>The registry validator: stored indices agree with the positions.\<close>

definition validators_ok :: "validator list \<Rightarrow> bool" where
  "validators_ok vs \<longleftrightarrow> length vs \<le> VALIDATOR_REGISTRY_LIMIT \<and>
     list_all (\<lambda>(i, v). v_index v = i) (enumerate 0 vs)"

record state =
  st_config :: genesis_config
  st_slot :: slot
  st_latest_block_header :: block_header
  st_latest_justified :: checkpoint
  st_latest_finalized :: checkpoint
  st_historical_block_hashes :: "root list"
  st_justified_slots :: "bool list"
  st_validators :: "validator list"
  st_justifications_roots :: "root list"
  st_justifications_validators :: "bool list"

definition is_slot_justified :: "bool list \<Rightarrow> slot \<Rightarrow> slot \<Rightarrow> bool result" where
  "is_slot_justified justified_slots finalized_slot target_slot =
     (case justified_index_after target_slot finalized_slot of
        None \<Rightarrow> Inr True
      | Some relative_index \<Rightarrow>
          if relative_index < length justified_slots then Inr (justified_slots ! relative_index)
          else Inl (SpecRejectionError JUSTIFIED_SLOT_OUT_OF_RANGE))"

text \<open>The constructor of a limited list or bitlist.\<close>

definition limited :: "nat \<Rightarrow> 'a list \<Rightarrow> 'a list result" where
  "limited lim xs = (if length xs > lim then Inl SSZValueError else Inr xs)"

definition extend_to_slot :: "bool list \<Rightarrow> slot \<Rightarrow> slot \<Rightarrow> bool list result" where
  "extend_to_slot justified_slots finalized_slot target_slot =
     (case justified_index_after target_slot finalized_slot of
        None \<Rightarrow> Inr justified_slots
      | Some relative_index \<Rightarrow>
          let required_capacity = relative_index + 1
          in if required_capacity \<le> length justified_slots then Inr justified_slots
             else limited HISTORICAL_ROOTS_LIMIT
                    (justified_slots @ replicate (required_capacity - length justified_slots) False))"

section \<open>SSZ descriptors\<close>

definition Checkpoint_T :: ssz_type where
  "Checkpoint_T = TContainer [TBytes 32, TUint 64]"

definition AttestationData_T :: ssz_type where
  "AttestationData_T = TContainer [TUint 64, Checkpoint_T, Checkpoint_T, Checkpoint_T]"

definition AggregatedAttestation_T :: ssz_type where
  "AggregatedAttestation_T = TContainer [TBitlist VALIDATOR_REGISTRY_LIMIT, AttestationData_T]"

definition BlockBody_T :: ssz_type where
  "BlockBody_T = TContainer [TList AggregatedAttestation_T VALIDATOR_REGISTRY_LIMIT]"

definition BlockHeader_T :: ssz_type where
  "BlockHeader_T = TContainer [TUint 64, TUint 64, TBytes 32, TBytes 32, TBytes 32]"

definition Block_T :: ssz_type where
  "Block_T = TContainer [TUint 64, TUint 64, TBytes 32, TBytes 32, BlockBody_T]"

definition Validator_T :: ssz_type where
  "Validator_T = TContainer [TBytes 52, TBytes 52, TUint 64]"

definition GenesisConfig_T :: ssz_type where
  "GenesisConfig_T = TContainer [TUint 64]"

definition State_T :: ssz_type where
  "State_T = TContainer
     [GenesisConfig_T, TUint 64, BlockHeader_T, Checkpoint_T, Checkpoint_T,
      TList (TBytes 32) HISTORICAL_ROOTS_LIMIT, TBitlist HISTORICAL_ROOTS_LIMIT,
      TList Validator_T VALIDATOR_REGISTRY_LIMIT,
      TList (TBytes 32) HISTORICAL_ROOTS_LIMIT,
      TBitlist (HISTORICAL_ROOTS_LIMIT * VALIDATOR_REGISTRY_LIMIT)]"

definition ssz_checkpoint :: "checkpoint \<Rightarrow> ssz_value" where
  "ssz_checkpoint c = VContainer [VBytes (cp_root c), VUint (cp_slot c)]"

definition ssz_attestation_data :: "attestation_data \<Rightarrow> ssz_value" where
  "ssz_attestation_data a = VContainer
     [VUint (ad_slot a), ssz_checkpoint (ad_head a), ssz_checkpoint (ad_target a), ssz_checkpoint (ad_source a)]"

definition ssz_aggregated_attestation :: "aggregated_attestation \<Rightarrow> ssz_value" where
  "ssz_aggregated_attestation a = VContainer [VBitlist (aa_aggregation_bits a), ssz_attestation_data (aa_data a)]"

definition ssz_block_body :: "block_body \<Rightarrow> ssz_value" where
  "ssz_block_body b = VContainer [VList (map ssz_aggregated_attestation (bb_attestations b))]"

definition ssz_block_header :: "block_header \<Rightarrow> ssz_value" where
  "ssz_block_header h = VContainer
     [VUint (bh_slot h), VUint (bh_proposer_index h), VBytes (bh_parent_root h), VBytes (bh_state_root h),
      VBytes (bh_body_root h)]"

definition ssz_block :: "block \<Rightarrow> ssz_value" where
  "ssz_block b = VContainer
     [VUint (b_slot b), VUint (b_proposer_index b), VBytes (b_parent_root b), VBytes (b_state_root b),
      ssz_block_body (b_body b)]"

definition ssz_validator :: "validator \<Rightarrow> ssz_value" where
  "ssz_validator v = VContainer
     [VBytes (v_attestation_public_key v), VBytes (v_proposal_public_key v), VUint (v_index v)]"

definition ssz_state :: "state \<Rightarrow> ssz_value" where
  "ssz_state s = VContainer
     [VContainer [VUint (gc_genesis_time (st_config s))], VUint (st_slot s),
      ssz_block_header (st_latest_block_header s), ssz_checkpoint (st_latest_justified s),
      ssz_checkpoint (st_latest_finalized s), VList (map VBytes (st_historical_block_hashes s)),
      VBitlist (st_justified_slots s), VList (map ssz_validator (st_validators s)),
      VList (map VBytes (st_justifications_roots s)), VBitlist (st_justifications_validators s)]"

definition header_root :: "digest \<Rightarrow> block_header \<Rightarrow> root result" where
  "header_root H h = hash_tree_root H BlockHeader_T (ssz_block_header h)"

definition body_root :: "digest \<Rightarrow> block_body \<Rightarrow> root result" where
  "body_root H b = hash_tree_root H BlockBody_T (ssz_block_body b)"

definition block_root :: "digest \<Rightarrow> block \<Rightarrow> root result" where
  "block_root H b = hash_tree_root H Block_T (ssz_block b)"

definition state_root :: "digest \<Rightarrow> state \<Rightarrow> root result" where
  "state_root H s = hash_tree_root H State_T (ssz_state s)"

text \<open>A block, a body and a state that satisfy their SSZ types have a root.\<close>

definition block_ok :: "block \<Rightarrow> bool" where
  "block_ok b \<longleftrightarrow> ssz_ok Block_T (ssz_block b)"

definition state_ok :: "state \<Rightarrow> bool" where
  "state_ok s \<longleftrightarrow> ssz_ok State_T (ssz_state s)"

lemmas container_types = Checkpoint_T_def AttestationData_T_def AggregatedAttestation_T_def BlockBody_T_def BlockHeader_T_def
  Block_T_def Validator_T_def GenesisConfig_T_def State_T_def VALIDATOR_REGISTRY_LIMIT_def HISTORICAL_ROOTS_LIMIT_def

definition header_ok :: "block_header \<Rightarrow> bool" where
  "header_ok h \<longleftrightarrow> bh_slot h < 2 ^ 64 \<and> bh_proposer_index h < 2 ^ 64 \<and> length (bh_parent_root h) = 32 \<and>
     length (bh_state_root h) = 32 \<and> length (bh_body_root h) = 32"

definition checkpoint_ok :: "checkpoint \<Rightarrow> bool" where
  "checkpoint_ok c \<longleftrightarrow> length (cp_root c) = 32 \<and> cp_slot c < 2 ^ 64"

definition attestation_data_ok :: "attestation_data \<Rightarrow> bool" where
  "attestation_data_ok a \<longleftrightarrow> ad_slot a < 2 ^ 64 \<and> checkpoint_ok (ad_head a) \<and> checkpoint_ok (ad_target a) \<and>
     checkpoint_ok (ad_source a)"

definition attestation_ok :: "aggregated_attestation \<Rightarrow> bool" where
  "attestation_ok a \<longleftrightarrow> length (aa_aggregation_bits a) \<le> VALIDATOR_REGISTRY_LIMIT \<and> attestation_data_ok (aa_data a)"

definition body_ok :: "block_body \<Rightarrow> bool" where
  "body_ok b \<longleftrightarrow> length (bb_attestations b) \<le> VALIDATOR_REGISTRY_LIMIT \<and> list_all attestation_ok (bb_attestations b)"

definition validator_ok :: "validator \<Rightarrow> bool" where
  "validator_ok v \<longleftrightarrow> length (v_attestation_public_key v) = 52 \<and> length (v_proposal_public_key v) = 52 \<and> v_index v < 2 ^ 64"

lemma ssz_ok_header [simp]: "ssz_ok BlockHeader_T (ssz_block_header h) = header_ok h"
  by (simp add: BlockHeader_T_def ssz_block_header_def header_ok_def)

lemma ssz_ok_checkpoint [simp]: "ssz_ok Checkpoint_T (ssz_checkpoint c) = checkpoint_ok c"
  by (simp add: Checkpoint_T_def ssz_checkpoint_def checkpoint_ok_def)

lemma ssz_ok_attestation_data [simp]: "ssz_ok AttestationData_T (ssz_attestation_data a) = attestation_data_ok a"
  by (simp add: AttestationData_T_def ssz_attestation_data_def attestation_data_ok_def)

lemma ssz_ok_attestation [simp]: "ssz_ok AggregatedAttestation_T (ssz_aggregated_attestation a) = attestation_ok a"
  by (simp add: AggregatedAttestation_T_def ssz_aggregated_attestation_def attestation_ok_def)

lemma ssz_ok_body [simp]: "ssz_ok BlockBody_T (ssz_block_body b) = body_ok b"
  by (simp add: BlockBody_T_def ssz_block_body_def body_ok_def list.pred_map o_def)

lemma ssz_ok_validator [simp]: "ssz_ok Validator_T (ssz_validator v) = validator_ok v"
  by (simp add: Validator_T_def ssz_validator_def validator_ok_def)

lemma block_ok_iff:
  "block_ok b \<longleftrightarrow> b_slot b < 2 ^ 64 \<and> b_proposer_index b < 2 ^ 64 \<and> length (b_parent_root b) = 32 \<and>
     length (b_state_root b) = 32 \<and> body_ok (b_body b)"
  by (simp add: block_ok_def Block_T_def ssz_block_def)

lemma state_ok_iff:
  "state_ok s \<longleftrightarrow> gc_genesis_time (st_config s) < 2 ^ 64 \<and> st_slot s < 2 ^ 64 \<and> header_ok (st_latest_block_header s) \<and>
     checkpoint_ok (st_latest_justified s) \<and> checkpoint_ok (st_latest_finalized s) \<and>
     (length (st_historical_block_hashes s) \<le> HISTORICAL_ROOTS_LIMIT \<and>
       list_all (\<lambda>r. length r = 32) (st_historical_block_hashes s)) \<and>
     length (st_justified_slots s) \<le> HISTORICAL_ROOTS_LIMIT \<and>
     (length (st_validators s) \<le> VALIDATOR_REGISTRY_LIMIT \<and> list_all validator_ok (st_validators s)) \<and>
     (length (st_justifications_roots s) \<le> HISTORICAL_ROOTS_LIMIT \<and>
       list_all (\<lambda>r. length r = 32) (st_justifications_roots s)) \<and>
     length (st_justifications_validators s) \<le> HISTORICAL_ROOTS_LIMIT * VALIDATOR_REGISTRY_LIMIT"
  by (simp add: state_ok_def State_T_def ssz_state_def GenesisConfig_T_def list.pred_map o_def)

lemma containers_bounded:
  "ssz_bounded BlockHeader_T" "ssz_bounded BlockBody_T" "ssz_bounded Block_T" "ssz_bounded State_T"
  by (simp_all add: container_types)

lemma header_root_total: "digest_ok H \<Longrightarrow> header_ok h \<Longrightarrow> \<exists>r. header_root H h = Inr r \<and> length r = 32"
  using hash_tree_root_ok [of H BlockHeader_T "ssz_block_header h"] containers_bounded by (simp add: header_root_def)

lemma body_root_total: "digest_ok H \<Longrightarrow> body_ok b \<Longrightarrow> \<exists>r. body_root H b = Inr r \<and> length r = 32"
  using hash_tree_root_ok [of H BlockBody_T "ssz_block_body b"] containers_bounded by (simp add: body_root_def)

lemma block_root_total: "digest_ok H \<Longrightarrow> block_ok b \<Longrightarrow> \<exists>r. block_root H b = Inr r \<and> length r = 32"
  using hash_tree_root_ok [of H Block_T "ssz_block b"] containers_bounded by (simp add: block_root_def block_ok_def)

lemma state_root_total: "digest_ok H \<Longrightarrow> state_ok s \<Longrightarrow> \<exists>r. state_root H s = Inr r \<and> length r = 32"
  using hash_tree_root_ok [of H State_T "ssz_state s"] containers_bounded by (simp add: state_root_def state_ok_def)

end
