(* ===== verification/Rlp.thy ===== *)
theory Rlp
  imports Py_Prelude
begin

text \<open>
  Recursive length prefix encoding, \<^verbatim>\<open>node/networking/enr/rlp.py\<close>, used by the node records. An
  offset into the buffer is a number; the decoder returns the offset after the item. The cursor
  walk over a list payload and the item decoder call each other, as in the code.
\<close>

section \<open>Encoding\<close>

datatype rlp_item = RBytes bytes | RList "rlp_item list"

definition STRING_BASE :: nat where "STRING_BASE = 128"
definition LIST_BASE :: nat where "LIST_BASE = 192"
definition SHORT_FORM_MAX :: nat where "SHORT_FORM_MAX = 55"

text \<open>\<^verbatim>\<open>bytes([n])\<close> raises when \<open>n\<close> is no byte.\<close>

definition single_byte :: "nat \<Rightarrow> bytes result" where
  "single_byte n = (if n < 256 then Inr [word_of_nat n] else Inl ValueError)"

definition with_length_prefix :: "bytes \<Rightarrow> nat \<Rightarrow> bytes result" where
  "with_length_prefix payload base =
     (let len = length payload
      in if len \<le> SHORT_FORM_MAX then rbind (single_byte (base + len)) (\<lambda>p. Inr (p @ payload))
         else let length_bytes = be_bytes (ceil_div (bit_length len) 8) len
              in rbind (single_byte (base + SHORT_FORM_MAX + length length_bytes)) (\<lambda>p.
                 Inr (p @ length_bytes @ payload)))"

fun encode_rlp :: "rlp_item \<Rightarrow> bytes result" where
  "encode_rlp (RBytes bs) =
     (if length bs = 1 \<and> unat (bs ! 0) < STRING_BASE then Inr bs
      else with_length_prefix bs STRING_BASE)"
| "encode_rlp (RList items) =
     rbind (rmap encode_rlp items) (\<lambda>encoded. with_length_prefix (concat encoded) LIST_BASE)"

section \<open>Decoding\<close>

definition decode_length :: "bytes \<Rightarrow> nat \<Rightarrow> nat \<Rightarrow> (nat \<times> nat) result" where
  "decode_length data offset base =
     rbind (py_index data offset) (\<lambda>prefix.
       let short_length = unat prefix - base
       in if short_length \<le> SHORT_FORM_MAX then
            let start = offset + 1;
                stop = start + short_length
            in if stop > length data then Inl RLPDecodingError else Inr (start, stop)
          else
            let length_of_length = short_length - SHORT_FORM_MAX;
                length_start = offset + 1;
                length_end = length_start + length_of_length
            in if length_end > length data then Inl RLPDecodingError
               else if length_of_length > 1 \<and> data ! length_start = 0 then Inl RLPDecodingError
               else let len = be_nat (py_slice data length_start length_end)
                    in if len \<le> SHORT_FORM_MAX then Inl RLPDecodingError
                       else let start = length_end;
                                stop = start + len
                            in if stop > length data then Inl RLPDecodingError else Inr (start, stop))"

lemma decode_length_bounds:
  "decode_length data offset base = Inr (start, stop) \<Longrightarrow> offset < start \<and> start \<le> stop \<and> stop \<le> length data"
  by (auto simp: decode_length_def Let_def split: if_splits; linarith)

function decode_item :: "bytes \<Rightarrow> nat \<Rightarrow> (rlp_item \<times> nat) result"
  and drain_items :: "bytes \<Rightarrow> nat \<Rightarrow> nat \<Rightarrow> (rlp_item list \<times> nat) result" where
  "decode_item data offset =
     rbind (py_index data offset) (\<lambda>prefix.
       if unat prefix < STRING_BASE then Inr (RBytes (py_slice data offset (offset + 1)), offset + 1)
       else let base = (if unat prefix < LIST_BASE then STRING_BASE else LIST_BASE)
            in rbind (decode_length data offset base) (\<lambda>(payload_start, payload_end).
               if base = STRING_BASE then Inr (RBytes (py_slice data payload_start payload_end), payload_end)
               else rbind (drain_items data payload_start payload_end) (\<lambda>(items, cursor).
                    if cursor \<noteq> payload_end then Inl RLPDecodingError
                    else Inr (RList items, payload_end))))"
| "drain_items data cursor payload_end =
     (if cursor < payload_end then
        rbind (decode_item data cursor) (\<lambda>(inner, cursor').
        rbind (drain_items data cursor' payload_end) (\<lambda>(items, c).
        Inr (inner # items, c)))
      else Inr ([], cursor))"
  by pat_completeness auto

termination
proof (relation "inv_image (less_than <*lex*> less_than)
    (\<lambda>x. case x of Inl (data, offset) \<Rightarrow> (length data - offset, 0 :: nat) | Inr (data, cursor, e) \<Rightarrow> (length data - cursor, 1))")
  show "wf (inv_image (less_than <*lex*> less_than)
    (\<lambda>x. case x of Inl (data, offset) \<Rightarrow> (length data - offset, 0 :: nat) | Inr (data, cursor, e) \<Rightarrow> (length data - cursor, 1)))"
    by auto
  have progress: "offset < length data \<and> offset < c"
    if "decode_item_drain_items_dom (Inl (data, offset))" "decode_item data offset = Inr (x, c)" for data offset x c
    using that by (auto simp: decode_item.psimps Let_def split: if_splits dest!: decode_length_bounds)
  show "((Inr (data, cursor', payload_end)), Inr (data, cursor, payload_end)) \<in> inv_image (less_than <*lex*> less_than)
    (\<lambda>x. case x of Inl (data, offset) \<Rightarrow> (length data - offset, 0 :: nat) | Inr (data, cursor, e) \<Rightarrow> (length data - cursor, 1))"
    if "cursor < payload_end" "decode_item_drain_items_dom (Inl (data, cursor))" "decode_item data cursor = Inr q" "(inner, cursor') = q"
    for data cursor payload_end q inner cursor'
    using that progress [of data cursor inner cursor'] by auto
qed (auto dest!: decode_length_bounds)

declare decode_item.simps [simp del] drain_items.simps [simp del]

definition decode_rlp :: "bytes \<Rightarrow> rlp_item result" where
  "decode_rlp data =
     (if length data = 0 then Inl RLPDecodingError
      else rbind (decode_item data 0) (\<lambda>(item, consumed).
           if consumed \<noteq> length data then Inl RLPDecodingError else Inr item))"

fun rlp_bytes :: "rlp_item \<Rightarrow> bytes result" where
  "rlp_bytes (RBytes bs) = Inr bs"
| "rlp_bytes (RList items) = Inl RLPDecodingError"

definition decode_rlp_list :: "bytes \<Rightarrow> bytes list result" where
  "decode_rlp_list data =
     rbind (decode_rlp data) (\<lambda>decoded.
       case decoded of
         RBytes _ \<Rightarrow> Inl RLPDecodingError
       | RList items \<Rightarrow> rmap rlp_bytes items)"

section \<open>Round trip\<close>

text \<open>Byte strings whose length fits the eight length bytes a prefix can announce.\<close>

fun rlp_ok :: "rlp_item \<Rightarrow> bool" where
  "rlp_ok (RBytes bs) \<longleftrightarrow> length bs < 2 ^ 64"
| "rlp_ok (RList items) \<longleftrightarrow> list_all rlp_ok items"

lemma py_slice_middle: "py_slice (pre @ mid @ rest) (length pre) (length pre + length mid) = mid"
  by (simp add: py_slice_def)

lemma decode_length_prefixed:
  assumes "with_length_prefix payload base = Inr bs" and "length payload < 2 ^ 64" and "base \<in> {STRING_BASE, LIST_BASE}"
  shows "\<exists>p hdr. bs = p # hdr @ payload \<and> base \<le> unat p \<and> unat p < base + 64 \<and>
    decode_length (pre @ bs @ rest) (length pre) base =
      Inr (length pre + Suc (length hdr), length pre + length bs)"
proof (cases "length payload \<le> SHORT_FORM_MAX")
  case True
  with assms(1,3) have bs: "bs = word_of_nat (base + length payload) # payload" "base + length payload < 256"
    by (auto simp: with_length_prefix_def single_byte_def Let_def split: if_splits)
  have u: "unat (word_of_nat (base + length payload) :: byte) = base + length payload"
    using bs(2) by (rule unat_of_nat_byte_small)
  with True show ?thesis
    unfolding bs(1) by (intro exI [of _ "word_of_nat (base + length payload)"] exI [of _ "[]"])
      (simp add: decode_length_def nth_append SHORT_FORM_MAX_def del: of_nat_add)
next
  case False
  let ?n = "length payload"
  define k where "k = ceil_div (bit_length ?n) 8"
  from False have "0 < ?n" by linarith
  note field = length_field_bounds [OF this, folded k_def]
  have "bit_length ?n \<le> 64" using assms(2) by (simp only: bit_length_le_iff)
  then have k8: "k \<le> 8" unfolding k_def by (simp add: ceil_div_le_iff)
  define p where "p = base + SHORT_FORM_MAX + k"
  have p: "p < 256" "p < base + 64" "base \<le> p" "\<not> p - base \<le> SHORT_FORM_MAX" "p - base - SHORT_FORM_MAX = k"
    using assms(3) k8 field(3) by (auto simp: p_def SHORT_FORM_MAX_def STRING_BASE_def LIST_BASE_def)
  have bs: "bs = word_of_nat p # be_bytes k ?n @ payload"
    using assms(1) False p(1) by (auto simp: with_length_prefix_def single_byte_def Let_def k_def p_def)
  have slice: "py_slice (pre @ bs @ rest) (Suc (length pre)) (Suc (length pre) + k) = be_bytes k ?n"
    using py_slice_middle [of "pre @ [word_of_nat p]" "be_bytes k ?n" "payload @ rest"] by (simp add: bs)
  have lead: "\<not> (k > 1 \<and> (pre @ bs @ rest) ! Suc (length pre) = 0)"
    using be_bytes_leading [OF field] field(3) by (auto simp: bs nth_append)
  have u: "unat (word_of_nat p :: byte) = p" using p(1) by (rule unat_of_nat_byte_small)
  have "decode_length (pre @ bs @ rest) (length pre) base = Inr (Suc (length pre) + k, Suc (length pre) + k + ?n)"
    unfolding decode_length_def
    using p slice lead False be_nat_be_bytes_small [OF field(2)]
    by (simp add: bs nth_append u Let_def)
  then show ?thesis
    using p u by (intro exI [of _ "word_of_nat p"] exI [of _ "be_bytes k ?n"]) (simp add: bs)
qed

lemma encode_rlp_nonempty: "encode_rlp x = Inr bs \<Longrightarrow> bs \<noteq> []"
  by (cases x) (auto simp: with_length_prefix_def single_byte_def Let_def split: if_splits)

lemma encode_rlp_list_bound: "with_length_prefix payload LIST_BASE = Inr bs \<Longrightarrow> length payload < 2 ^ 64"
proof -
  assume a: "with_length_prefix payload LIST_BASE = Inr bs"
  show ?thesis
  proof (cases "length payload \<le> SHORT_FORM_MAX")
    case False
    then have "LIST_BASE + SHORT_FORM_MAX + ceil_div (bit_length (length payload)) 8 < 256"
      using a by (auto simp: with_length_prefix_def single_byte_def Let_def split: if_splits)
    then have "ceil_div (bit_length (length payload)) 8 \<le> 8" by (simp add: LIST_BASE_def SHORT_FORM_MAX_def)
    then have "bit_length (length payload) \<le> 64" by (simp add: ceil_div_le_iff)
    then show ?thesis by (simp only: bit_length_le_iff)
  qed (simp add: SHORT_FORM_MAX_def)
qed

lemma drain_items_encoded:
  assumes "\<And>x bs pre rest. x \<in> set items \<Longrightarrow> encode_rlp x = Inr bs \<Longrightarrow>
      decode_item (pre @ bs @ rest) (length pre) = Inr (x, length pre + length bs)"
    and "list_all2 (\<lambda>x bs. encode_rlp x = Inr bs) items encs"
  shows "drain_items (pre @ concat encs @ rest) (length pre) (length pre + length (concat encs)) =
    Inr (items, length pre + length (concat encs))"
  using assms(2,1)
proof (induction items encs arbitrary: pre rule: list_all2_induct)
  case Nil
  show ?case by (subst drain_items.simps) simp
next
  case (Cons x items bs encs)
  have d: "decode_item (pre @ bs @ concat encs @ rest) (length pre) = Inr (x, length (pre @ bs))"
    using Cons.prems [of x bs pre "concat encs @ rest"] Cons.hyps(1) by simp
  have "0 < length bs" using encode_rlp_nonempty [OF Cons.hyps(1)] by simp
  moreover have "drain_items ((pre @ bs) @ concat encs @ rest) (length (pre @ bs)) (length (pre @ bs) + length (concat encs)) =
      Inr (items, length (pre @ bs) + length (concat encs))"
    by (rule Cons.IH) (use Cons.prems in auto)
  ultimately show ?case
    by (subst drain_items.simps) (simp add: d add.assoc)
qed

lemma decode_item_encoded:
  "rlp_ok x \<Longrightarrow> encode_rlp x = Inr bs \<Longrightarrow>
   decode_item (pre @ bs @ rest) (length pre) = Inr (x, length pre + length bs)"
proof (induction x arbitrary: bs pre rest)
  case (RBytes s)
  show ?case
  proof (cases "length s = 1 \<and> unat (s ! 0) < STRING_BASE")
    case True
    with RBytes.prems(2) have bs: "bs = s" by simp
    then have "py_slice (pre @ s @ rest) (length pre) (Suc (length pre)) = s"
      using py_slice_middle [of pre s rest] True by simp
    moreover obtain c where "s = [c]" using True by (auto simp: length_Suc_conv)
    ultimately show ?thesis
      using True bs by (subst decode_item.simps) (simp add: nth_append)
  next
    case False
    with RBytes.prems(2) have w: "with_length_prefix s STRING_BASE = Inr bs" by (simp only: encode_rlp.simps if_False)
    from decode_length_prefixed [OF w _ insertI1, of pre rest] RBytes.prems(1) obtain p hdr where
      d: "bs = p # hdr @ s" "STRING_BASE \<le> unat p" "unat p < STRING_BASE + 64"
        "decode_length (pre @ bs @ rest) (length pre) STRING_BASE = Inr (length pre + Suc (length hdr), length pre + length bs)"
      by auto
    have "unat p < LIST_BASE" using d(3) by (simp add: STRING_BASE_def LIST_BASE_def)
    moreover have "py_slice (pre @ bs @ rest) (length pre + Suc (length hdr)) (length pre + length bs) = s"
      using py_slice_middle [of "pre @ p # hdr" s rest] d(1) by (simp add: add.assoc)
    ultimately show ?thesis
      using d by (subst decode_item.simps) (simp add: nth_append not_less)
  qed
next
  case (RList items)
  then obtain encs where encs: "list_all2 (\<lambda>x bs. encode_rlp x = Inr bs) items encs"
      "with_length_prefix (concat encs) LIST_BASE = Inr bs"
    by (auto simp: rmap_Inr_iff)
  from decode_length_prefixed [OF encs(2) encode_rlp_list_bound [OF encs(2)], of pre rest] obtain p hdr where
    d: "bs = p # hdr @ concat encs" "LIST_BASE \<le> unat p"
      "decode_length (pre @ bs @ rest) (length pre) LIST_BASE = Inr (length pre + Suc (length hdr), length pre + length bs)"
    by auto
  have "drain_items ((pre @ p # hdr) @ concat encs @ rest) (length (pre @ p # hdr)) (length (pre @ p # hdr) + length (concat encs)) =
      Inr (items, length (pre @ p # hdr) + length (concat encs))"
    using RList.IH RList.prems(1) by (intro drain_items_encoded [OF _ encs(1)]) (auto simp: list_all_iff)
  then have "drain_items (pre @ bs @ rest) (length pre + Suc (length hdr)) (length pre + length bs) =
      Inr (items, length pre + length bs)"
    by (simp add: d(1) add.assoc)
  moreover have "\<not> unat p < STRING_BASE" "\<not> unat p < LIST_BASE" "LIST_BASE \<noteq> STRING_BASE"
    using d(2) by (simp_all add: STRING_BASE_def LIST_BASE_def)
  ultimately show ?case
    using d(1,3) by (subst decode_item.simps) (simp add: nth_append)
qed

section \<open>Properties\<close>

text \<open>
  Property C14: decoding inverts encoding. Every item the encoder accepts, nested to any depth, is
  returned by \<^verbatim>\<open>decode_rlp\<close> on its encoding (byte strings shorter than \<open>2 ^ 64\<close> bytes, the largest
  length a prefix can announce).
\<close>

theorem rlp_roundtrip:
  assumes "rlp_ok x" and "encode_rlp x = Inr bs"
  shows "decode_rlp bs = Inr x"
  using decode_item_encoded [OF assms, of "[]" "[]"] encode_rlp_nonempty [OF assms(2)]
  by (simp add: decode_rlp_def)

theorem rlp_roundtrip_witness:
  "decode_rlp [200, 131, 100, 111, 103, 131, 103, 111, 100] = Inr (RList [RBytes [100, 111, 103], RBytes [103, 111, 100]])"
  by (rule rlp_roundtrip)
     (simp_all add: with_length_prefix_def single_byte_def STRING_BASE_def LIST_BASE_def SHORT_FORM_MAX_def)

text \<open>
  The function \<^verbatim>\<open>decode_rlp\<close> is not canonical for single bytes. It accepts the two-byte form
  \<^verbatim>\<open>81 xx\<close> of every byte below \<^verbatim>\<open>0x80\<close>, for which the encoder emits the byte itself, so one item
  has two accepted encodings.
\<close>

theorem rlp_single_byte_two_forms:
  assumes "unat b < STRING_BASE"
  shows "decode_rlp [129, b] = Inr (RBytes [b]) \<and> decode_rlp [b] = Inr (RBytes [b]) \<and> encode_rlp (RBytes [b]) = Inr [b]"
proof -
  have "decode_item [129, b] 0 = Inr (RBytes [b], 2)"
    by (subst decode_item.simps)
       (simp add: decode_length_def STRING_BASE_def LIST_BASE_def SHORT_FORM_MAX_def py_index_def py_slice_def)
  moreover have "decode_item [b] 0 = Inr (RBytes [b], 1)"
    using assms by (subst decode_item.simps) (simp add: py_index_def py_slice_def)
  ultimately show ?thesis using assms by (simp add: decode_rlp_def)
qed

theorem rlp_single_byte_two_forms_witness:
  "decode_rlp [129, 5] = Inr (RBytes [5]) \<and> decode_rlp [5] = Inr (RBytes [5]) \<and> encode_rlp (RBytes [5]) = Inr [5]"
  by (rule rlp_single_byte_two_forms) (simp add: STRING_BASE_def)

end
