(* ===== verification/Varint.thy ===== *)
theory Varint
  imports Py_Prelude
begin

unbundle bit_operations_syntax

text \<open>
  LEB128 unsigned varints, \<^verbatim>\<open>node/networking/varint.py\<close>, used by the snappy length prefix, the
  request/response framing, the protobuf messages of gossipsub and the peer identifiers. The
  interface other wire formats rely on is the locale \<open>offset_codec\<close>: a decoder that reads one
  value at an offset and reports how many bytes it consumed.
\<close>

section \<open>Encoding\<close>

lemma drop_bit_7_less [termination_simp]: "128 \<le> v \<Longrightarrow> drop_bit 7 v < v" for v :: nat
  by (simp add: drop_bit_eq_div)

text \<open>The loop of \<^verbatim>\<open>encode_varint\<close>.\<close>

fun varint_groups :: "nat \<Rightarrow> bytes" where
  "varint_groups v =
     (if v \<ge> 128 then word_of_nat ((v AND 127) OR 128) # varint_groups (drop_bit 7 v)
      else [word_of_nat v])"

declare varint_groups.simps [simp del]

definition encode_varint :: "int \<Rightarrow> nat \<Rightarrow> bytes result" where
  "encode_varint v max_bytes =
     (if v < 0 then Inl ValueError
      else if drop_bit (7 * max_bytes) v \<noteq> 0 then Inl ValueError
      else Inr (varint_groups (nat v)))"

section \<open>Decoding\<close>

function varint_loop :: "bytes \<Rightarrow> nat \<Rightarrow> nat \<Rightarrow> nat \<Rightarrow> nat \<Rightarrow> nat \<Rightarrow> (nat \<times> nat) result" where
  "varint_loop data offset max_bytes decoded_value shift pos =
     (if pos \<ge> length data then Inl VarintError
      else let byte = unat (data ! pos);
               decoded_value' = decoded_value OR push_bit shift (byte AND 127)
           in if byte AND 128 = 0 then Inr (decoded_value', pos + 1 - offset)
              else if pos + 1 - offset \<ge> max_bytes then Inl VarintError
              else varint_loop data offset max_bytes decoded_value' (shift + 7) (pos + 1))"
  by pat_completeness auto
termination by (relation "measure (\<lambda>(data, offset, max_bytes, v, shift, pos). length data - pos)") auto

declare varint_loop.simps [simp del]

definition decode_varint :: "bytes \<Rightarrow> nat \<Rightarrow> nat \<Rightarrow> (nat \<times> nat) result" where
  "decode_varint data offset max_bytes = varint_loop data offset max_bytes 0 0 offset"

section \<open>Arithmetic of seven-bit groups\<close>

lemma and_127: "n AND 127 = n mod 128" for n :: nat
  using take_bit_eq_mask [of 7 n] by (simp add: mask_eq_exp_minus_1 take_bit_eq_mod)

lemma and_128_eq_0: "n < 256 \<Longrightarrow> n AND 128 = 0 \<longleftrightarrow> n < 128" for n :: nat
proof -
  assume "n < 256"
  then have "odd (n div 128) \<longleftrightarrow> 128 \<le> n"
    by (cases "n < 128") (auto simp: div_nat_eqI [of 128 1 n])
  then show "n AND 128 = 0 \<longleftrightarrow> n < 128"
    using and_exp_eq_0_iff_not_bit [of n 7] by (simp add: bit_iff_odd not_le)
qed

lemma or_push_add: "v < 2 ^ s \<Longrightarrow> v OR push_bit s x = v + x * 2 ^ s" for v x :: nat
proof -
  assume "v < 2 ^ s"
  then have "\<not> bit v i" if "s \<le> i" for i
    using that by (metis bit_take_bit_iff not_le take_bit_nat_eq_self)
  then have "v + push_bit s x = v OR push_bit s x"
    by (intro disjunctive_add) (auto simp: bit_push_bit_iff)
  then show ?thesis by (simp add: push_bit_eq_mult)
qed

lemma or_128: "n < 128 \<Longrightarrow> n OR 128 = n + 128" for n :: nat
  using or_push_add [of n 7 1] by simp

lemma varint_groups_step: "128 \<le> v \<Longrightarrow> varint_groups v = word_of_nat (v mod 128 + 128) # varint_groups (v div 128)"
  by (subst varint_groups.simps) (simp add: and_127 or_128 drop_bit_eq_div)

lemma varint_groups_last: "v < 128 \<Longrightarrow> varint_groups v = [word_of_nat v]"
  by (subst varint_groups.simps) simp

lemma varint_groups_nonempty [simp]: "varint_groups v \<noteq> []"
  by (cases "v < 128") (simp_all add: varint_groups_last varint_groups_step)

lemma length_varint_groups: "v < 2 ^ (7 * Suc m) \<Longrightarrow> length (varint_groups v) \<le> Suc m"
proof (induction m arbitrary: v)
  case (Suc m)
  show ?case
  proof (cases "v < 128")
    case False
    have "(2 :: nat) ^ (7 * Suc (Suc m)) = 2 ^ (7 * Suc m) * 128" by (simp add: power_add)
    with Suc.prems have "v div 128 < 2 ^ (7 * Suc m)"
      by (intro less_mult_imp_div_less) simp
    with Suc.IH False show ?thesis by (simp add: varint_groups_step)
  qed (simp add: varint_groups_last)
qed (simp add: varint_groups_last)

section \<open>Round trip\<close>

lemma varint_loop_groups:
  "v0 < 2 ^ shift \<Longrightarrow> offset \<le> length pre \<Longrightarrow> length pre - offset + length (varint_groups v) \<le> max 1 max_bytes \<Longrightarrow>
   varint_loop (pre @ varint_groups v @ rest) offset max_bytes v0 shift (length pre) =
     Inr (v0 + v * 2 ^ shift, length pre + length (varint_groups v) - offset)"
proof (induction v arbitrary: v0 shift pre rule: less_induct)
  case (less v)
  show ?case
  proof (cases "v < 128")
    case True
    then have "v AND 128 = 0" "v AND 127 = v" by (simp_all add: and_128_eq_0 and_127)
    with True less.prems show ?thesis
      by (subst varint_loop.simps) (simp add: varint_groups_last nth_append or_push_add del: push_bit_and)
  next
    case False
    define b where "b = v mod 128 + 128"
    have b: "b < 256" "b AND 128 \<noteq> 0" "b AND 127 = v mod 128"
      using mod_less_divisor [of 128 v] and_128_eq_0 [of b] by (auto simp: and_127 b_def)
    have step: "varint_groups v = word_of_nat b # varint_groups (v div 128)"
      using False by (simp only: varint_groups_step b_def not_less)
    obtain g gs where tail: "varint_groups (v div 128) = g # gs"
      using varint_groups_nonempty [of "v div 128"] by (cases "varint_groups (v div 128)") auto
    then have cont: "\<not> max_bytes \<le> Suc (length pre) - offset"
      using less.prems(2,3) step by simp
    have next_v: "v0 + (v mod 128) * 2 ^ shift < 2 ^ (shift + 7)"
    proof -
      have "v0 + (v mod 128) * 2 ^ shift < 2 ^ shift + (v mod 128) * 2 ^ shift" using less.prems(1) by simp
      also have "\<dots> = (v mod 128 + 1) * 2 ^ shift" by simp
      also have "\<dots> \<le> 128 * 2 ^ shift" using mod_less_divisor [of 128 v] by (intro mult_right_mono) auto
      finally show ?thesis by (simp add: power_add)
    qed
    have "varint_loop (pre @ varint_groups v @ rest) offset max_bytes v0 shift (length pre) =
        varint_loop ((pre @ [word_of_nat b]) @ varint_groups (v div 128) @ rest) offset max_bytes
          (v0 + (v mod 128) * 2 ^ shift) (shift + 7) (length (pre @ [word_of_nat b]))"
      using False less.prems(1,2) b cont
      by (subst varint_loop.simps) (simp add: step nth_append or_push_add Let_def del: push_bit_and)
    also have "\<dots> = Inr (v0 + (v mod 128) * 2 ^ shift + v div 128 * 2 ^ (shift + 7),
        length (pre @ [word_of_nat b]) + length (varint_groups (v div 128)) - offset)"
      using False less.prems next_v by (intro less.IH) (simp_all add: step)
    also have "v0 + (v mod 128) * 2 ^ shift + v div 128 * 2 ^ (shift + 7) = v0 + v * 2 ^ shift"
    proof -
      have "(v mod 128) * 2 ^ shift + v div 128 * 2 ^ (shift + 7) = (v mod 128 + v div 128 * 128) * 2 ^ shift"
        by (simp only: add_mult_distrib power_add) simp
      then show ?thesis by simp
    qed
    finally show ?thesis by (simp add: step)
  qed
qed

definition varint_ok :: "nat \<Rightarrow> nat \<Rightarrow> bool" where
  "varint_ok max_bytes v \<longleftrightarrow> v < 2 ^ (7 * max_bytes)"

lemma varint_decode_groups:
  assumes "varint_ok max_bytes v"
  shows "decode_varint (pre @ varint_groups v @ rest) (length pre) max_bytes = Inr (v, length (varint_groups v))"
proof -
  have "length (varint_groups v) \<le> max 1 max_bytes"
    using assms length_varint_groups [of v "max_bytes - 1"]
    by (cases max_bytes) (auto simp: varint_ok_def varint_groups_last)
  then show ?thesis
    using varint_loop_groups [of 0 0 "length pre" pre v max_bytes rest] by (simp add: decode_varint_def)
qed

interpretation varint: offset_codec "varint_ok m" varint_groups "\<lambda>data offset. decode_varint data offset m" for m
  by unfold_locales (rule varint_decode_groups)

lemma encode_varint_Inr:
  "encode_varint v m = Inr bs \<longleftrightarrow> 0 \<le> v \<and> varint_ok m (nat v) \<and> bs = varint_groups (nat v)"
proof -
  have "drop_bit (7 * m) v = 0 \<longleftrightarrow> nat v < 2 ^ (7 * m)" if "0 \<le> v"
    using that by (auto simp: drop_bit_eq_div zdiv_eq_0_iff nat_less_iff not_less)
  then show ?thesis by (auto simp: encode_varint_def varint_ok_def not_less)
qed

section \<open>Properties\<close>

lemma varint_loop_bounds:
  "varint_loop data offset max_bytes v0 shift pos = Inr (v, k) \<Longrightarrow> offset \<le> pos \<Longrightarrow> v0 < 2 ^ shift \<Longrightarrow>
   shift = 7 * (pos - offset) \<Longrightarrow> pos - offset < max 1 max_bytes \<Longrightarrow>
   pos - offset < k \<and> k \<le> max 1 max_bytes \<and> offset + k \<le> length data \<and> v < 2 ^ (7 * k)"
proof (induction data offset max_bytes v0 shift pos rule: varint_loop.induct)
  case (1 data offset max_bytes v0 shift pos)
  let ?b = "unat (data ! pos)"
  have lt: "v0 + (?b mod 128) * 2 ^ shift < 2 ^ (shift + 7)"
  proof -
    have "v0 + (?b mod 128) * 2 ^ shift < 2 ^ shift + (?b mod 128) * 2 ^ shift" using 1(4) by simp
    also have "\<dots> = (?b mod 128 + 1) * 2 ^ shift" by simp
    also have "\<dots> \<le> 128 * 2 ^ shift" using mod_less_divisor [of 128 ?b] by (intro mult_right_mono) auto
    finally show ?thesis by (simp add: power_add)
  qed
  have pos: "pos < length data"
    using 1(2) by (subst (asm) varint_loop.simps) (auto split: if_splits)
  show ?case
  proof (cases "?b AND 128 = 0")
    case True
    with 1(2-) pos lt have "v = v0 + (?b mod 128) * 2 ^ shift" "k = Suc (pos - offset)"
      by (subst (asm) varint_loop.simps, simp add: or_push_add and_127 Suc_diff_le del: push_bit_and)+
    with 1(3-) pos lt show ?thesis by (simp add: add.commute)
  next
    case False
    with 1(2-) pos have rec: "varint_loop data offset max_bytes (v0 + (?b mod 128) * 2 ^ shift) (shift + 7) (pos + 1) = Inr (v, k)"
      and cont: "\<not> pos + 1 - offset \<ge> max_bytes"
      by (subst (asm) varint_loop.simps, simp add: or_push_add and_127 Let_def del: push_bit_and split: if_splits)+
    have "pos + 1 - offset < k \<and> k \<le> max 1 max_bytes \<and> offset + k \<le> length data \<and> v < 2 ^ (7 * k)"
      using 1(1) [of ?b "v0 + (?b mod 128) * 2 ^ shift"] rec cont lt pos False 1(3-)
      by (simp add: or_push_add and_127 Suc_diff_le del: push_bit_and)
    then show ?thesis by auto
  qed
qed

lemma varint_loop_error: "varint_loop data offset m v shift pos = Inl e \<Longrightarrow> e = VarintError"
proof (induction data offset m v shift pos rule: varint_loop.induct)
  case (1 data offset m v shift pos)
  then show ?case by (subst (asm) (2) varint_loop.simps) (auto simp: Let_def split: if_splits)
qed

lemma varint_loop_append:
  "varint_loop data offset m v shift pos = Inr x \<Longrightarrow> varint_loop (data @ rest) offset m v shift pos = Inr x"
proof (induction data offset m v shift pos rule: varint_loop.induct)
  case (1 data offset m v shift pos)
  let ?b = "unat (data ! pos)"
  let ?v = "v OR push_bit shift (?b AND 127)"
  note p = "1.prems" [unfolded varint_loop.simps [of data offset m v shift pos] Let_def]
  have pos: "\<not> length data \<le> pos" using p by (cases "length data \<le> pos") simp_all
  then have nth: "(data @ rest) ! pos = data ! pos" and pos': "\<not> length (data @ rest) \<le> pos" by (simp_all add: nth_append)
  show ?case
  proof (cases "?b AND 128 = 0")
    case True
    then show ?thesis using p unfolding varint_loop.simps [of "data @ rest" offset m v shift pos] Let_def nth if_not_P [OF pos'] if_not_P [OF pos] by simp
  next
    case False
    with p pos have m: "\<not> m \<le> pos + 1 - offset" by (cases "m \<le> pos + 1 - offset") simp_all
    with p False pos have rec: "varint_loop data offset m ?v (shift + 7) (pos + 1) = Inr x"
      by (simp only: if_not_P if_False)
    have "varint_loop (data @ rest) offset m ?v (shift + 7) (pos + 1) = Inr x"
      by (rule "1.IH" [OF pos refl refl False m rec])
    then show ?thesis
      unfolding varint_loop.simps [of "data @ rest" offset m v shift pos] Let_def nth if_not_P [OF pos'] if_not_P [OF False] if_not_P [OF m] .
  qed
qed

lemma varint_loop_overlong:
  "(\<And>i. pos \<le> i \<Longrightarrow> i < offset + m \<Longrightarrow> i < length data \<Longrightarrow> 128 \<le> unat (data ! i)) \<Longrightarrow> offset \<le> pos \<Longrightarrow> pos < offset + m \<Longrightarrow>
     varint_loop data offset m v shift pos = Inl VarintError"
proof (induction data offset m v shift pos rule: varint_loop.induct)
  case (1 data offset m v shift pos)
  show ?case
  proof (cases "pos < length data")
    case True
    then have "unat (data ! pos) AND 128 \<noteq> 0" using "1.prems" and_128_eq_0 [of "unat (data ! pos)"] by fastforce
    with True 1 show ?thesis by (subst varint_loop.simps) (auto simp: Let_def)
  qed (subst varint_loop.simps, simp)
qed

lemma decode_varint_error: "decode_varint data pos m = Inl e \<Longrightarrow> e = VarintError"
  by (simp add: decode_varint_def varint_loop_error)

text \<open>
  Property C34: every integer \<^verbatim>\<open>encode_varint\<close> accepts is read back by \<^verbatim>\<open>decode_varint\<close> with the
  same cap, at any offset of any buffer, and the reported length is the length of the encoding.
\<close>

theorem varint_roundtrip:
  assumes "encode_varint v max_bytes = Inr bs"
  shows "decode_varint (pre @ bs @ rest) (length pre) max_bytes = Inr (nat v, length bs)"
  using assms varint.dec_enc [of max_bytes "nat v" pre rest] by (auto simp: encode_varint_Inr)

theorem varint_roundtrip_witness:
  "encode_varint 300 10 = Inr [172, 2] \<and> decode_varint ([7] @ [172, 2] @ [9]) (length [7 :: byte]) 10 = Inr (nat 300, length [172 :: byte, 2])"
proof -
  have e: "encode_varint 300 10 = Inr [172, 2]"
    by (simp add: encode_varint_Inr varint_ok_def varint_groups_step varint_groups_last)
  show ?thesis using e varint_roundtrip [OF e] by blast
qed

text \<open>
  A successful decode consumes at least one byte, at most \<^verbatim>\<open>max_bytes\<close>, all inside
  the buffer, and the value fits in seven bits per consumed byte. With the default cap of ten
  bytes this allows values up to \<open>2 ^ 70 - 1\<close>, more than the 64 bits the module documents.
\<close>

theorem varint_bounds:
  assumes "decode_varint data offset max_bytes = Inr (v, k)"
  shows "0 < k \<and> k \<le> max 1 max_bytes \<and> offset + k \<le> length data \<and> v < 2 ^ (7 * k)"
  using varint_loop_bounds [of data offset max_bytes 0 0 offset v k] assms by (simp add: decode_varint_def)

theorem varint_bounds_witness:
  "decode_varint (varint_groups (2 ^ 64) @ [1]) 0 10 = Inr (2 ^ 64, length (varint_groups (2 ^ 64))) \<and>
   0 < length (varint_groups (2 ^ 64)) \<and> length (varint_groups (2 ^ 64)) \<le> max 1 10 \<and>
   0 + length (varint_groups (2 ^ 64)) \<le> length (varint_groups (2 ^ 64) @ [1 :: byte]) \<and>
   (2 :: nat) ^ 64 < 2 ^ (7 * length (varint_groups (2 ^ 64)))"
proof -
  have d: "decode_varint (varint_groups (2 ^ 64) @ [1]) 0 10 = Inr (2 ^ 64, length (varint_groups (2 ^ 64)))"
    using varint.dec_enc_start [of 10 "2 ^ 64" "[1]"] by (simp add: varint_ok_def)
  show ?thesis using d varint_bounds [OF d] by blast
qed

end
