(* ===== verification/Snappy_Tags.thy ===== *)
theory Snappy_Tags
  imports Varint
begin

unbundle bit_operations_syntax

text \<open>
  The tag layer of the Snappy format, \<^verbatim>\<open>node/snappy/encoding.py\<close> with the constants of
  \<^verbatim>\<open>node/snappy/constants.py\<close>: literal tags and the three copy tags, and the decoder that reads
  a tag at an offset. The lemmas turn the shifts and masks into arithmetic on bytes and give the
  round trip of both tag families.
\<close>

section \<open>Constants\<close>

definition BLOCK_SIZE :: nat where "BLOCK_SIZE = push_bit 16 1"
definition INPUT_MARGIN_BYTES :: nat where "INPUT_MARGIN_BYTES = 15"
definition LITERAL :: nat where "LITERAL = 0"
definition COPY_1_BYTE_OFFSET :: nat where "COPY_1_BYTE_OFFSET = 1"
definition COPY_2_BYTE_OFFSET :: nat where "COPY_2_BYTE_OFFSET = 2"
definition COPY_4_BYTE_OFFSET :: nat where "COPY_4_BYTE_OFFSET = 3"
definition MIN_HASH_TABLE_BITS :: nat where "MIN_HASH_TABLE_BITS = 8"
definition MAX_HASH_TABLE_BITS :: nat where "MAX_HASH_TABLE_BITS = 15"
definition HASH_MULTIPLIER :: nat where "HASH_MULTIPLIER = 0x1E35A7BD"
definition MAX_INLINE_LITERAL_LENGTH :: nat where "MAX_INLINE_LITERAL_LENGTH = 60"
definition LITERAL_LENGTH_1_BYTE :: nat where "LITERAL_LENGTH_1_BYTE = 60"
definition LITERAL_LENGTH_2_BYTES :: nat where "LITERAL_LENGTH_2_BYTES = 61"
definition LITERAL_LENGTH_3_BYTES :: nat where "LITERAL_LENGTH_3_BYTES = 62"
definition LITERAL_LENGTH_4_BYTES :: nat where "LITERAL_LENGTH_4_BYTES = 63"
definition MAX_COPY_1_LENGTH :: nat where "MAX_COPY_1_LENGTH = 11"
definition MIN_COPY_1_LENGTH :: nat where "MIN_COPY_1_LENGTH = 4"
definition MAX_COPY_1_OFFSET :: nat where "MAX_COPY_1_OFFSET = 2047"
definition MAX_COPY_2_OFFSET :: nat where "MAX_COPY_2_OFFSET = 65535"
definition SNAPPY_VARINT_MAX_BYTES :: nat where "SNAPPY_VARINT_MAX_BYTES = 5"

lemmas snappy_constants =
  LITERAL_def COPY_1_BYTE_OFFSET_def COPY_2_BYTE_OFFSET_def COPY_4_BYTE_OFFSET_def
  MAX_INLINE_LITERAL_LENGTH_def LITERAL_LENGTH_1_BYTE_def LITERAL_LENGTH_2_BYTES_def
  LITERAL_LENGTH_3_BYTES_def LITERAL_LENGTH_4_BYTES_def
  MAX_COPY_1_LENGTH_def MIN_COPY_1_LENGTH_def MAX_COPY_1_OFFSET_def MAX_COPY_2_OFFSET_def

section \<open>Encoding\<close>

text \<open>\<^verbatim>\<open>bytes([...])\<close> raises when an element is no byte.\<close>

definition py_bytes :: "nat list \<Rightarrow> bytes result" where
  "py_bytes ns = (if list_all (\<lambda>n. n < 256) ns then Inr (map word_of_nat ns) else Inl ValueError)"

definition encode_literal_tag :: "nat \<Rightarrow> bytes result" where
  "encode_literal_tag len =
     (if len < 1 then Inl ValueError
      else if len \<le> MAX_INLINE_LITERAL_LENGTH then
        py_bytes [push_bit 2 (len - 1) OR LITERAL]
      else if len \<le> 256 then
        py_bytes [push_bit 2 LITERAL_LENGTH_1_BYTE OR LITERAL, len - 1]
      else if len \<le> 65536 then
        let length_minus_1 = len - 1
        in py_bytes [push_bit 2 LITERAL_LENGTH_2_BYTES OR LITERAL,
             length_minus_1 AND 255, drop_bit 8 length_minus_1 AND 255]
      else if len \<le> 16777216 then
        let length_minus_1 = len - 1
        in py_bytes [push_bit 2 LITERAL_LENGTH_3_BYTES OR LITERAL,
             length_minus_1 AND 255, drop_bit 8 length_minus_1 AND 255, drop_bit 16 length_minus_1 AND 255]
      else if len \<le> 4294967296 then
        let length_minus_1 = len - 1
        in py_bytes [push_bit 2 LITERAL_LENGTH_4_BYTES OR LITERAL,
             length_minus_1 AND 255, drop_bit 8 length_minus_1 AND 255, drop_bit 16 length_minus_1 AND 255,
             drop_bit 24 length_minus_1 AND 255]
      else Inl ValueError)"

definition encode_copy_1 :: "nat \<Rightarrow> nat \<Rightarrow> bytes result" where
  "encode_copy_1 len offset =
     (let offset_low = offset AND 255;
          offset_high = drop_bit 8 offset AND 7;
          tag = push_bit 5 offset_high OR push_bit 2 (len - 4) OR COPY_1_BYTE_OFFSET
      in py_bytes [tag, offset_low])"

definition encode_copy_2 :: "nat \<Rightarrow> nat \<Rightarrow> bytes result" where
  "encode_copy_2 len offset =
     (let tag = push_bit 2 (len - 1) OR COPY_2_BYTE_OFFSET
      in py_bytes [tag, offset AND 255, drop_bit 8 offset AND 255])"

definition encode_copy_4 :: "nat \<Rightarrow> nat \<Rightarrow> bytes result" where
  "encode_copy_4 len offset =
     (let tag = push_bit 2 (len - 1) OR COPY_4_BYTE_OFFSET
      in py_bytes [tag, offset AND 255, drop_bit 8 offset AND 255, drop_bit 16 offset AND 255,
           drop_bit 24 offset AND 255])"

definition encode_copy_tag :: "nat \<Rightarrow> nat \<Rightarrow> bytes result" where
  "encode_copy_tag len offset =
     (if len < 1 then Inl ValueError
      else if offset < 1 then Inl ValueError
      else if offset \<le> MAX_COPY_1_OFFSET \<and> MIN_COPY_1_LENGTH \<le> len \<and> len \<le> MAX_COPY_1_LENGTH
        then encode_copy_1 len offset
      else if offset \<le> MAX_COPY_2_OFFSET \<and> len \<le> 64 then encode_copy_2 len offset
      else if len \<le> 64 then encode_copy_4 len offset
      else Inl ValueError)"

section \<open>Decoding\<close>

datatype tag_type = Literal_Tag | Copy_Tag

text \<open>A decoded tag: its type, length, copy offset and the bytes it consumed.\<close>

type_synonym tag_info = "tag_type \<times> nat \<times> nat \<times> nat"

definition decode_literal_tag :: "bytes \<Rightarrow> nat \<Rightarrow> nat \<Rightarrow> tag_info result" where
  "decode_literal_tag data offset tag =
     (let length_indicator = drop_bit 2 tag;
          b = (\<lambda>i. unat (data ! (offset + i)))
      in if length_indicator < LITERAL_LENGTH_1_BYTE then Inr (Literal_Tag, length_indicator + 1, 0, 1)
         else if length_indicator = LITERAL_LENGTH_1_BYTE then
           if offset + 1 \<ge> length data then Inl ValueError
           else Inr (Literal_Tag, b 1 + 1, 0, 2)
         else if length_indicator = LITERAL_LENGTH_2_BYTES then
           if offset + 2 \<ge> length data then Inl ValueError
           else Inr (Literal_Tag, (b 1 OR push_bit 8 (b 2)) + 1, 0, 3)
         else if length_indicator = LITERAL_LENGTH_3_BYTES then
           if offset + 3 \<ge> length data then Inl ValueError
           else Inr (Literal_Tag, (b 1 OR push_bit 8 (b 2) OR push_bit 16 (b 3)) + 1, 0, 4)
         else
           if offset + 4 \<ge> length data then Inl ValueError
           else Inr (Literal_Tag, (b 1 OR push_bit 8 (b 2) OR push_bit 16 (b 3) OR push_bit 24 (b 4)) + 1, 0, 5))"

definition decode_copy_1_tag :: "bytes \<Rightarrow> nat \<Rightarrow> nat \<Rightarrow> tag_info result" where
  "decode_copy_1_tag data offset tag =
     (if offset + 1 \<ge> length data then Inl ValueError
      else let len = (drop_bit 2 tag AND 7) + 4;
               offset_high = drop_bit 5 tag AND 7;
               offset_low = unat (data ! (offset + 1));
               copy_offset = push_bit 8 offset_high OR offset_low
           in Inr (Copy_Tag, len, copy_offset, 2))"

definition decode_copy_2_tag :: "bytes \<Rightarrow> nat \<Rightarrow> nat \<Rightarrow> tag_info result" where
  "decode_copy_2_tag data offset tag =
     (if offset + 2 \<ge> length data then Inl ValueError
      else let len = drop_bit 2 tag + 1;
               copy_offset = unat (data ! (offset + 1)) OR push_bit 8 (unat (data ! (offset + 2)))
           in Inr (Copy_Tag, len, copy_offset, 3))"

definition decode_copy_4_tag :: "bytes \<Rightarrow> nat \<Rightarrow> nat \<Rightarrow> tag_info result" where
  "decode_copy_4_tag data offset tag =
     (if offset + 4 \<ge> length data then Inl ValueError
      else let len = drop_bit 2 tag + 1;
               copy_offset = unat (data ! (offset + 1)) OR push_bit 8 (unat (data ! (offset + 2)))
                 OR push_bit 16 (unat (data ! (offset + 3))) OR push_bit 24 (unat (data ! (offset + 4)))
           in Inr (Copy_Tag, len, copy_offset, 5))"

definition decode_tag :: "bytes \<Rightarrow> nat \<Rightarrow> tag_info result" where
  "decode_tag data offset =
     (if offset \<ge> length data then Inl ValueError
      else let tag = unat (data ! offset);
               tag_type = tag AND 3
           in if tag_type = LITERAL then decode_literal_tag data offset tag
              else if tag_type = COPY_1_BYTE_OFFSET then decode_copy_1_tag data offset tag
              else if tag_type = COPY_2_BYTE_OFFSET then decode_copy_2_tag data offset tag
              else decode_copy_4_tag data offset tag)"

section \<open>Shifts and masks as arithmetic\<close>

lemma and_255: "n AND 255 = n mod 256" for n :: nat
  using take_bit_eq_mask [of 8 n] by (simp add: mask_eq_exp_minus_1 take_bit_eq_mod)

lemma and_7: "n AND 7 = n mod 8" for n :: nat
  using take_bit_eq_mask [of 3 n] by (simp add: mask_eq_exp_minus_1 take_bit_eq_mod)

lemma and_3: "n AND 3 = n mod 4" for n :: nat
  using take_bit_eq_mask [of 2 n] by (simp add: mask_eq_exp_minus_1 take_bit_eq_mod)

lemma and_mask_32: "n AND 0xFFFFFFFF = take_bit 32 n" for n :: nat
  using take_bit_eq_mask [of 32 n] by (simp add: mask_eq_exp_minus_1)

lemma push_or_add: "v < 2 ^ s \<Longrightarrow> push_bit s x OR v = x * 2 ^ s + v" for v x :: nat
  using or_push_add [of v s x] by (simp add: or.commute add.commute)

lemma or_bytes_2: "a < 256 \<Longrightarrow> a OR push_bit 8 b = a + 256 * b" for a b :: nat
  using or_push_add [of a 8 b] by simp

lemma or_bytes_3: "a < 256 \<Longrightarrow> b < 256 \<Longrightarrow> a OR push_bit 8 b OR push_bit 16 c = a + 256 * (b + 256 * c)" for a b c :: nat
  using or_push_add [of "a + 256 * b" 16 c] unfolding or.assoc [symmetric] by (simp add: or_bytes_2)

lemma or_bytes_4:
  "a < 256 \<Longrightarrow> b < 256 \<Longrightarrow> c < 256 \<Longrightarrow>
   a OR push_bit 8 b OR push_bit 16 c OR push_bit 24 d = a + 256 * (b + 256 * (c + 256 * d))" for a b c d :: nat
  using or_push_add [of "a + 256 * (b + 256 * c)" 24 d] or_bytes_3 [of a b c] unfolding or.assoc [symmetric] by simp

lemma byte_split_2: "x < 65536 \<Longrightarrow> x mod 256 + 256 * (x div 256 mod 256) = x" for x :: nat
  using mult_div_mod_eq [of 256 x] mod_less [of "x div 256" 256] by (simp add: less_mult_imp_div_less)

lemma byte_split_3: "x < 16777216 \<Longrightarrow> x mod 256 + 256 * (x div 256 mod 256 + 256 * (x div 65536 mod 256)) = x" for x :: nat
  using byte_split_2 [of "x div 256"] mult_div_mod_eq [of 256 x]
  by (simp add: less_mult_imp_div_less div_mult2_eq [of x 256 256, simplified])

lemma byte_split_4:
  "x < 4294967296 \<Longrightarrow>
   x mod 256 + 256 * (x div 256 mod 256 + 256 * (x div 65536 mod 256 + 256 * (x div 16777216 mod 256))) = x" for x :: nat
  using byte_split_3 [of "x div 256"] mult_div_mod_eq [of 256 x]
  by (simp add: less_mult_imp_div_less div_mult2_eq [of x 256 256, simplified] div_mult2_eq [of x 256 65536, simplified])

lemma py_bytes_Inr [simp]: "py_bytes ns = Inr bs \<longleftrightarrow> list_all (\<lambda>n. n < 256) ns \<and> bs = map word_of_nat ns"
  by (auto simp: py_bytes_def)

lemma unat_nth_tag:
  "list_all (\<lambda>n. n < 256) ns \<Longrightarrow> i < length ns \<Longrightarrow>
   unat ((pre @ (map word_of_nat ns :: bytes) @ rest) ! (length pre + i)) = ns ! i"
  by (simp add: nth_append list_all_length)

section \<open>Tag round trips\<close>

lemmas shift_arith = and_255 and_7 and_3 drop_bit_eq_div or_bytes_2 or_bytes_3 or_bytes_4

lemma push_2_or: "t < 4 \<Longrightarrow> push_bit 2 x OR t = 4 * x + t" for x t :: nat
  using push_or_add [of t 2 x] by simp

lemma tag_fields: "t < 4 \<Longrightarrow> (4 * x + t) mod 4 = t \<and> (4 * x + t) div 4 = x" for x t :: nat
  by simp

lemma tag_fields_1: "(4 * x + 1) mod 4 = 1 \<and> (4 * x + 1) div 4 = x" for x :: nat
  by (rule tag_fields) simp

text \<open>Reading a tag whose bytes are the encodings of \<open>n # ns\<close>.\<close>

lemma decode_tag_at:
  assumes "list_all (\<lambda>n. n < 256) (n # ns)" and "bs = map word_of_nat (n # ns)"
  shows "decode_tag (pre @ bs @ rest) (length pre) =
    (if n mod 4 = 0 then decode_literal_tag (pre @ bs @ rest) (length pre) n
     else if n mod 4 = 1 then decode_copy_1_tag (pre @ bs @ rest) (length pre) n
     else if n mod 4 = 2 then decode_copy_2_tag (pre @ bs @ rest) (length pre) n
     else decode_copy_4_tag (pre @ bs @ rest) (length pre) n)"
  using unat_nth_tag [OF assms(1), of 0 pre rest] assms(2)
  by (simp add: decode_tag_def and_3 snappy_constants)

lemma literal_tag_roundtrip:
  assumes "1 \<le> len" and "len \<le> 2 ^ 32"
  shows "\<exists>tag. encode_literal_tag len = Inr tag \<and> 0 < length tag \<and> length tag \<le> 5 \<and>
    (\<forall>pre rest. decode_tag (pre @ tag @ rest) (length pre) = Inr (Literal_Tag, len, 0, length tag))"
proof -
  define x where "x = len - 1"
  have len: "len = Suc x" "x < 4294967296" using assms by (simp_all add: x_def)
  consider "x < 60" | "60 \<le> x" "x < 256" | "256 \<le> x" "x < 65536" | "65536 \<le> x" "x < 16777216"
    | "16777216 \<le> x" using len(2) by linarith
  then obtain n ns where e: "encode_literal_tag len = py_bytes (n # ns)" "list_all (\<lambda>n. n < 256) (n # ns)" "length ns \<le> 4"
    and d: "\<And>pre rest bs. bs = map word_of_nat (n # ns) \<Longrightarrow>
      decode_literal_tag (pre @ bs @ rest) (length pre) n = Inr (Literal_Tag, len, 0, Suc (length ns))" "n mod 4 = 0"
  proof cases
    case 1
    show ?thesis
      by (rule that [of "4 * x" "[]"])
         (use 1 len in \<open>simp_all add: encode_literal_tag_def decode_literal_tag_def snappy_constants push_bit_eq_mult drop_bit_eq_div mult.commute\<close>)
  next
    case 2
    have nth: "unat ((pre @ map word_of_nat [240, x] @ rest) ! (length pre + 1)) = x" for pre rest :: bytes
      using unat_nth_tag [of "[240, x]" 1 pre rest] 2 by simp
    show ?thesis
      by (rule that [of 240 "[x]"])
         (use 2 len nth in \<open>simp_all add: encode_literal_tag_def decode_literal_tag_def snappy_constants push_2_or drop_bit_eq_div\<close>)
  next
    case 3
    let ?ns = "[244, x mod 256, x div 256 mod 256]"
    have nth: "unat ((pre @ map word_of_nat ?ns @ rest) ! (length pre + i)) = ?ns ! i" if "i < 3" for pre rest :: bytes and i
      using unat_nth_tag [of ?ns i pre rest] that by simp
    show ?thesis
      by (rule that [of 244 "[x mod 256, x div 256 mod 256]"])
         (use 3 len nth byte_split_2 [of x] in \<open>simp_all add: encode_literal_tag_def decode_literal_tag_def snappy_constants push_2_or shift_arith Let_def\<close>)
  next
    case 4
    let ?ns = "[248, x mod 256, x div 256 mod 256, x div 65536 mod 256]"
    have nth: "unat ((pre @ map word_of_nat ?ns @ rest) ! (length pre + i)) = ?ns ! i" if "i < 4" for pre rest :: bytes and i
      using unat_nth_tag [of ?ns i pre rest] that by simp
    show ?thesis
      by (rule that [of 248 "tl ?ns"])
         (use 4 len nth byte_split_3 [of x] in \<open>simp_all add: encode_literal_tag_def decode_literal_tag_def snappy_constants push_2_or shift_arith Let_def\<close>)
  next
    case 5
    let ?ns = "[252, x mod 256, x div 256 mod 256, x div 65536 mod 256, x div 16777216 mod 256]"
    have nth: "unat ((pre @ map word_of_nat ?ns @ rest) ! (length pre + i)) = ?ns ! i" if "i < 5" for pre rest :: bytes and i
      using unat_nth_tag [of ?ns i pre rest] that by simp
    show ?thesis
      by (rule that [of 252 "tl ?ns"])
         (use 5 len nth byte_split_4 [of x] in \<open>simp_all add: encode_literal_tag_def decode_literal_tag_def snappy_constants push_2_or shift_arith Let_def\<close>)
  qed
  show ?thesis
    using e decode_tag_at [OF e(2) refl] d by (intro exI [of _ "map word_of_nat (n # ns)"]) auto
qed

lemma decode_copy_1_eq:
  "offset + 1 < length data \<Longrightarrow> unat (data ! (offset + 1)) = a \<Longrightarrow>
   decode_copy_1_tag data offset tag = Inr (Copy_Tag, tag div 4 mod 8 + 4, 256 * (tag div 32 mod 8) + a, 2)"
  using push_or_add [of a 8 "tag div 32 mod 8"] unat_byte_less [of "data ! (offset + 1)"]
  by (simp add: decode_copy_1_tag_def and_7 drop_bit_eq_div Let_def)

lemma decode_copy_2_eq:
  "offset + 2 < length data \<Longrightarrow> unat (data ! (offset + 1)) = a \<Longrightarrow> unat (data ! (offset + 2)) = b \<Longrightarrow>
   decode_copy_2_tag data offset tag = Inr (Copy_Tag, tag div 4 + 1, a + 256 * b, 3)"
  by (auto simp: decode_copy_2_tag_def or_bytes_2 drop_bit_eq_div Let_def)

lemma decode_copy_4_eq:
  "offset + 4 < length data \<Longrightarrow> unat (data ! (offset + 1)) = a \<Longrightarrow> unat (data ! (offset + 2)) = b \<Longrightarrow>
   unat (data ! (offset + 3)) = c \<Longrightarrow> unat (data ! (offset + 4)) = d \<Longrightarrow>
   decode_copy_4_tag data offset tag = Inr (Copy_Tag, tag div 4 + 1, a + 256 * (b + 256 * (c + 256 * d)), 5)"
  by (auto simp: decode_copy_4_tag_def or_bytes_4 drop_bit_eq_div Let_def)

lemma copy_1_tag_roundtrip:
  assumes "4 \<le> len" and "len \<le> 11" and "offset \<le> 2047"
  shows "\<exists>tag. encode_copy_1 len offset = Inr tag \<and> length tag = 2 \<and>
    (\<forall>pre rest. decode_tag (pre @ tag @ rest) (length pre) = Inr (Copy_Tag, len, offset, 2))"
proof -
  define h where "h = offset div 256"
  define l where "l = len - 4"
  have lh: "h < 8" "l < 8" "len = l + 4" "256 * h + offset mod 256 = offset"
    using assms by (simp_all add: h_def l_def less_mult_imp_div_less)
  define n where "n = 32 * h + 4 * l + 1"
  have "push_bit 5 h OR push_bit 2 l OR 1 = n"
    using push_or_add [of "4 * l + 1" 5 h] lh(2) push_2_or [of 1 l] by (simp add: n_def)
  moreover have "drop_bit 8 offset AND 7 = h" using lh(1) by (simp add: and_7 drop_bit_eq_div h_def)
  ultimately have e: "encode_copy_1 len offset = py_bytes [n, offset mod 256]"
    by (simp add: encode_copy_1_def snappy_constants and_255 Let_def flip: l_def)
  have "n = 4 * (8 * h + l) + 1" by (simp add: n_def)
  then have "n mod 4 = 1 \<and> n div 4 = 8 * h + l" by (simp only: tag_fields_1)
  moreover have "n < 256" using lh(1,2) by (simp add: n_def)
  ultimately have n: "n < 256" "n mod 4 = 1" "n div 4 = 8 * h + l" by simp_all
  have "n div 32 = h" using lh(2) by (simp add: n_def)
  note n = n this
  have nth: "unat ((pre @ map word_of_nat [n, offset mod 256] @ rest) ! (length pre + 1)) = offset mod 256" for pre rest :: bytes
    using unat_nth_tag [of "[n, offset mod 256]" 1 pre rest] n(1) by simp
  have "decode_copy_1_tag (pre @ map word_of_nat [n, offset mod 256] @ rest) (length pre) n = Inr (Copy_Tag, len, offset, 2)" for pre rest :: bytes
    using decode_copy_1_eq [OF _ nth, of pre rest n] n lh by simp
  with e n show ?thesis
    using decode_tag_at [of n "[offset mod 256]" _] by (intro exI [of _ "map word_of_nat [n, offset mod 256]"]) auto
qed

lemma copy_2_tag_roundtrip:
  assumes "1 \<le> len" and "len \<le> 64" and "offset \<le> 65535"
  shows "\<exists>tag. encode_copy_2 len offset = Inr tag \<and> length tag = 3 \<and>
    (\<forall>pre rest. decode_tag (pre @ tag @ rest) (length pre) = Inr (Copy_Tag, len, offset, 3))"
proof -
  define n where "n = 4 * (len - 1) + 2"
  let ?ns = "[n, offset mod 256, offset div 256 mod 256]"
  have n: "n < 256" "n mod 4 = 2" "n div 4 = len - 1"
    using assms(1,2) tag_fields [of 2 "len - 1"] by (simp_all add: n_def)
  have e: "encode_copy_2 len offset = py_bytes ?ns"
    by (simp add: encode_copy_2_def snappy_constants shift_arith push_2_or n_def Let_def)
  have nth: "unat ((pre @ map word_of_nat ?ns @ rest) ! (length pre + i)) = ?ns ! i" if "i < 3" for pre rest :: bytes and i
    using unat_nth_tag [of ?ns i pre rest] that n(1) by simp
  have "decode_copy_2_tag (pre @ map word_of_nat ?ns @ rest) (length pre) n = Inr (Copy_Tag, len, offset, 3)" for pre rest :: bytes
    using decode_copy_2_eq [OF _ nth nth, of pre rest n] n assms byte_split_2 [of offset] by simp
  with e n show ?thesis
    using decode_tag_at [of n "tl ?ns" _] by (intro exI [of _ "map word_of_nat ?ns"]) auto
qed

lemma low_bytes_mod:
  "k \<le> 24 \<Longrightarrow> (n mod 2 ^ 32) div 2 ^ k mod 256 = n div 2 ^ k mod 256" for n :: nat
proof -
  assume "k \<le> 24"
  then have "take_bit 8 (drop_bit k (take_bit 32 n)) = take_bit 8 (drop_bit k n)"
    by (intro bit_eqI) (auto simp: bit_take_bit_iff bit_drop_bit_eq)
  then show ?thesis by (simp add: take_bit_eq_mod drop_bit_eq_div)
qed

lemma take_bit_of_range:
  fixes offset :: nat
  defines "o32 \<equiv> offset mod 2 ^ 32"
  shows "o32 mod 256 = offset mod 256 \<and> o32 div 256 mod 256 = offset div 256 mod 256 \<and>
    o32 div 65536 mod 256 = offset div 65536 mod 256 \<and> o32 div 16777216 mod 256 = offset div 16777216 mod 256"
  using low_bytes_mod [of 0 offset] low_bytes_mod [of 8 offset] low_bytes_mod [of 16 offset] low_bytes_mod [of 24 offset]
  by (simp add: o32_def)

lemma copy_4_tag_bytes:
  assumes "1 \<le> len" and "len \<le> 64"
  shows "\<exists>tag. encode_copy_4 len offset = Inr tag \<and> length tag = 5 \<and>
    (\<forall>pre rest. decode_tag (pre @ tag @ rest) (length pre) = Inr (Copy_Tag, len, offset mod 2 ^ 32, 5))"
proof -
  define n where "n = 4 * (len - 1) + 3"
  let ?ns = "[n, offset mod 256, offset div 256 mod 256, offset div 65536 mod 256, offset div 16777216 mod 256]"
  have n: "n < 256" "n mod 4 = 3" "n div 4 = len - 1"
    using assms tag_fields [of 3 "len - 1"] by (simp_all add: n_def)
  have e: "encode_copy_4 len offset = py_bytes ?ns"
    by (simp add: encode_copy_4_def snappy_constants shift_arith push_2_or n_def Let_def)
  have nth: "unat ((pre @ map word_of_nat ?ns @ rest) ! (length pre + i)) = ?ns ! i" if "i < 5" for pre rest :: bytes and i
    using unat_nth_tag [of ?ns i pre rest] that n(1) by simp
  let ?o = "offset mod 2 ^ 32"
  have mods: "?o mod 256 = offset mod 256" "?o div 256 mod 256 = offset div 256 mod 256"
      "?o div 65536 mod 256 = offset div 65536 mod 256" "?o div 16777216 mod 256 = offset div 16777216 mod 256"
    using take_bit_of_range [of offset] by auto
  have "decode_copy_4_tag (pre @ map word_of_nat ?ns @ rest) (length pre) n = Inr (Copy_Tag, len, ?o, 5)" for pre rest :: bytes
    using decode_copy_4_eq [OF _ nth nth nth nth, of pre rest n] n assms byte_split_4 [of ?o] unfolding mods by simp
  with e n show ?thesis
    using decode_tag_at [of n "tl ?ns" _] by (intro exI [of _ "map word_of_nat ?ns"]) auto
qed

lemma copy_tag_roundtrip:
  assumes "1 \<le> len" and "len \<le> 64" and "1 \<le> offset" and "offset < 2 ^ 32"
  shows "\<exists>tag. encode_copy_tag len offset = Inr tag \<and> 2 \<le> length tag \<and> length tag \<le> 5 \<and>
    (offset \<le> 65535 \<longrightarrow> length tag \<le> 3) \<and>
    (\<forall>pre rest. decode_tag (pre @ tag @ rest) (length pre) = Inr (Copy_Tag, len, offset, length tag))"
proof -
  consider "offset \<le> 2047 \<and> 4 \<le> len \<and> len \<le> 11" | "offset \<le> 65535" "\<not> (offset \<le> 2047 \<and> 4 \<le> len \<and> len \<le> 11)"
    | "\<not> offset \<le> 65535" by linarith
  then show ?thesis
  proof cases
    case 1
    with copy_1_tag_roundtrip [of len offset] assms show ?thesis
      by (auto simp: encode_copy_tag_def snappy_constants)
  next
    case 2
    then have "encode_copy_tag len offset = encode_copy_2 len offset"
      using assms by (auto simp: encode_copy_tag_def snappy_constants)
    with 2 copy_2_tag_roundtrip [of len offset] assms show ?thesis by auto
  next
    case 3
    then have "encode_copy_tag len offset = encode_copy_4 len offset"
      using assms by (auto simp: encode_copy_tag_def snappy_constants)
    with 3 copy_4_tag_bytes [of len offset] assms show ?thesis by auto
  qed
qed

section \<open>Properties\<close>

text \<open>
  Every tag the encoder emits is read back by \<^verbatim>\<open>decode_tag\<close>, at any position of any
  stream: literal tags up to \<open>2 ^ 32\<close> bytes, copy tags of 1 to 64 bytes with an offset below
  \<open>2 ^ 32\<close>, whichever of the formats the encoder selects.
\<close>

theorem snappy_tag_roundtrip:
  "(\<forall>len. 1 \<le> len \<and> len \<le> 2 ^ 32 \<longrightarrow> (\<exists>tag. encode_literal_tag len = Inr tag \<and>
      (\<forall>pre rest. decode_tag (pre @ tag @ rest) (length pre) = Inr (Literal_Tag, len, 0, length tag)))) \<and>
   (\<forall>len offset. 1 \<le> len \<and> len \<le> 64 \<and> 1 \<le> offset \<and> offset < 2 ^ 32 \<longrightarrow>
      (\<exists>tag. encode_copy_tag len offset = Inr tag \<and>
      (\<forall>pre rest. decode_tag (pre @ tag @ rest) (length pre) = Inr (Copy_Tag, len, offset, length tag))))"
  using literal_tag_roundtrip copy_tag_roundtrip by fast

theorem snappy_tag_roundtrip_witness:
  "\<exists>tag. encode_copy_tag 6 300 = Inr tag \<and>
     (\<forall>pre rest. decode_tag (pre @ tag @ rest) (length pre) = Inr (Copy_Tag, 6, 300, length tag))"
proof -
  have "(1 :: nat) \<le> 6 \<and> (6 :: nat) \<le> 64 \<and> (1 :: nat) \<le> 300 \<and> (300 :: nat) < 2 ^ 32" by simp
  then show ?thesis using conjunct2 [OF snappy_tag_roundtrip, rule_format, of 6 300] by blast
qed

text \<open>
  The function \<^verbatim>\<open>encode_copy_tag\<close> does not reject offsets of \<open>2 ^ 32\<close> and more, although it documents a
  \<^verbatim>\<open>ValueError\<close> for an offset out of range: the four-byte form silently keeps the low 32 bits, so
  the tag that is written decodes to another offset.
\<close>

theorem copy_offset_truncated:
  assumes "1 \<le> len" and "len \<le> 64" and "2 ^ 32 \<le> offset"
  shows "\<exists>tag. encode_copy_tag len offset = Inr tag \<and> decode_tag tag 0 = Inr (Copy_Tag, len, offset mod 2 ^ 32, 5)"
proof -
  have "encode_copy_tag len offset = encode_copy_4 len offset"
    using assms by (auto simp: encode_copy_tag_def snappy_constants)
  moreover obtain tag where "encode_copy_4 len offset = Inr tag"
      "\<And>pre rest. decode_tag (pre @ tag @ rest) (length pre) = Inr (Copy_Tag, len, offset mod 2 ^ 32, 5)"
    using copy_4_tag_bytes [OF assms(1,2), of offset] by blast
  moreover from this(2) [of "[]" "[]"] have "decode_tag tag 0 = Inr (Copy_Tag, len, offset mod 2 ^ 32, 5)" by simp
  ultimately show ?thesis by auto
qed

theorem copy_offset_truncated_witness:
  "\<exists>tag. encode_copy_tag 1 (2 ^ 32) = Inr tag \<and> decode_tag tag 0 = Inr (Copy_Tag, 1, 2 ^ 32 mod 2 ^ 32, 5)"
  by (rule copy_offset_truncated) simp_all

end
