(* ===== verification/Snappy_Block.thy ===== *)
theory Snappy_Block
  imports Snappy_Tags
begin

unbundle bit_operations_syntax

text \<open>
  The raw Snappy format: \<^verbatim>\<open>node/snappy/decompress.py\<close> and \<^verbatim>\<open>node/snappy/compress.py\<close>, with the hash
  table, the match search and the tag emission of the compressor as written. The lemmas show that a
  run of emitted tags is undone by the decompressor, that the compressor never indexes outside its
  block or its hash table, and how long its output may be.
\<close>

section \<open>Decompression\<close>

text \<open>The byte-by-byte loop of \<^verbatim>\<open>_execute_copy\<close>, which reads bytes it has just written.\<close>

fun copy_loop :: "nat \<Rightarrow> nat \<Rightarrow> bytes \<Rightarrow> bytes result" where
  "copy_loop 0 src_pos output = Inr output"
| "copy_loop (Suc k) src_pos output =
     rbind (py_index output src_pos) (\<lambda>b. copy_loop k (src_pos + 1) (output @ [b]))"

definition execute_copy :: "bytes \<Rightarrow> nat \<Rightarrow> nat \<Rightarrow> nat \<Rightarrow> bytes result" where
  "execute_copy output offset len max_length =
     (if offset < 1 then Inl SnappyDecompressionError
      else if offset > length output then Inl SnappyDecompressionError
      else if length output + len > max_length then Inl SnappyDecompressionError
      else copy_loop len (length output - offset) output)"

lemma decode_tag_consumes:
  assumes "decode_tag data pos = Inr (t, len, off, n)"
  shows "0 < n \<and> pos + n \<le> length data"
  using assms unfolding decode_tag_def decode_literal_tag_def decode_copy_1_tag_def decode_copy_2_tag_def
    decode_copy_4_tag_def Let_def
  by (force split: if_splits)

function decompress_loop :: "bytes \<Rightarrow> nat \<Rightarrow> bytes \<Rightarrow> nat \<Rightarrow> bytes result" where
  "decompress_loop data uncompressed_length output pos =
     (if length output < uncompressed_length then
        if pos \<ge> length data then Inl SnappyDecompressionError
        else rbind (reraise ValueError SnappyDecompressionError (decode_tag data pos))
          (\<lambda>(tag_type, len, copy_offset, tag_bytes).
            if tag_type = Literal_Tag then
              if pos + tag_bytes + len > length data then Inl SnappyDecompressionError
              else decompress_loop data uncompressed_length
                     (output @ py_slice data (pos + tag_bytes) (pos + tag_bytes + len)) (pos + tag_bytes + len)
            else rbind (execute_copy output copy_offset len uncompressed_length)
                   (\<lambda>output'. decompress_loop data uncompressed_length output' (pos + tag_bytes)))
      else Inr output)"
  by pat_completeness auto
termination
  by (relation "measure (\<lambda>(data, total, output, pos). length data - pos)") (auto dest!: decode_tag_consumes)

declare decompress_loop.simps [simp del]

definition decompress :: "bytes \<Rightarrow> bytes result" where
  "decompress data =
     (if data = [] then Inl SnappyDecompressionError
      else rbind (reraise VarintError SnappyDecompressionError (decode_varint data 0 SNAPPY_VARINT_MAX_BYTES))
        (\<lambda>(uncompressed_length, varint_bytes).
          if uncompressed_length = 0 then Inr []
          else rbind (decompress_loop data uncompressed_length [] varint_bytes)
            (\<lambda>output. if length output \<noteq> uncompressed_length then Inl SnappyDecompressionError else Inr output)))"

section \<open>Compression\<close>

definition emit_literal :: "bytes \<Rightarrow> bytes result" where
  "emit_literal literal_data =
     (if literal_data = [] then Inr []
      else rbind (encode_literal_tag (length literal_data)) (\<lambda>tag. Inr (tag @ literal_data)))"

function table_bits_loop :: "nat \<Rightarrow> nat \<Rightarrow> nat" where
  "table_bits_loop target bits =
     (if push_bit bits 1 < target \<and> bits < MAX_HASH_TABLE_BITS then table_bits_loop target (bits + 1) else bits)"
  by pat_completeness auto
termination by (relation "measure (\<lambda>(target, bits). MAX_HASH_TABLE_BITS - bits)") auto

declare table_bits_loop.simps [simp del]

definition compute_table_bits :: "nat \<Rightarrow> nat" where
  "compute_table_bits block_size = (let target = block_size div 4 in table_bits_loop target MIN_HASH_TABLE_BITS)"

definition hash_4_bytes :: "bytes \<Rightarrow> nat \<Rightarrow> nat \<Rightarrow> nat result" where
  "hash_4_bytes data pos table_bits =
     rbind (py_index data pos) (\<lambda>b0. rbind (py_index data (pos + 1)) (\<lambda>b1.
     rbind (py_index data (pos + 2)) (\<lambda>b2. rbind (py_index data (pos + 3)) (\<lambda>b3.
       let little_endian_word = unat b0 OR push_bit 8 (unat b1) OR push_bit 16 (unat b2) OR push_bit 24 (unat b3);
           hash_value = (little_endian_word * HASH_MULTIPLIER) AND 0xFFFFFFFF
       in Inr (drop_bit (32 - table_bits) hash_value)))))"

definition matches_at :: "bytes \<Rightarrow> nat \<Rightarrow> nat \<Rightarrow> bool" where
  "matches_at data pos1 pos2 \<longleftrightarrow> py_slice data pos1 (pos1 + 4) = py_slice data pos2 (pos2 + 4)"

function extend_loop :: "bytes \<Rightarrow> nat \<Rightarrow> nat \<Rightarrow> nat \<Rightarrow> nat result" where
  "extend_loop data match_pos current_pos len =
     (if len < 64 \<and> current_pos + len < length data then
        rbind (py_index data (match_pos + len)) (\<lambda>a. rbind (py_index data (current_pos + len)) (\<lambda>b.
          if a = b then extend_loop data match_pos current_pos (len + 1) else Inr len))
      else Inr len)"
  by pat_completeness auto
termination by (relation "measure (\<lambda>(data, m, c, len). 64 - len)") auto

declare extend_loop.simps [simp del]

definition extend_match :: "bytes \<Rightarrow> nat \<Rightarrow> nat \<Rightarrow> nat result" where
  "extend_match data match_pos current_pos = extend_loop data match_pos current_pos 4"

text \<open>\<^verbatim>\<open>for skip_pos in range(skip_pos, stop, 2)\<close>: positions inside a copied region enter the table.\<close>

function fill_skips :: "bytes \<Rightarrow> nat \<Rightarrow> nat \<Rightarrow> nat \<Rightarrow> int list \<Rightarrow> int list result" where
  "fill_skips block table_bits skip_pos stop table =
     (if skip_pos < stop then
        rbind (hash_4_bytes block skip_pos table_bits) (\<lambda>skip_hash.
          rbind (py_index table skip_hash) (\<lambda>_.
            fill_skips block table_bits (skip_pos + 2) stop (table[skip_hash := int skip_pos])))
      else Inr table)"
  by pat_completeness auto
termination by (relation "measure (\<lambda>(block, bits, pos, stop, table). stop - pos)") auto

declare fill_skips.simps [simp del]

definition populate_skipped :: "bytes \<Rightarrow> nat \<Rightarrow> nat \<Rightarrow> nat \<Rightarrow> int list \<Rightarrow> int list result" where
  "populate_skipped block table_bits match_length input_position table =
     (if match_length > 1 \<and> input_position + INPUT_MARGIN_BYTES < length block
      then fill_skips block table_bits (input_position - match_length + 1) (input_position - 1) table
      else Inr table)"

text \<open>Pending literals are emitted in front of a copy.\<close>

definition flush_literal :: "bytes \<Rightarrow> bytes \<Rightarrow> nat \<Rightarrow> nat \<Rightarrow> bytes result" where
  "flush_literal block output literal_start input_position =
     (if input_position > literal_start
      then rbind (emit_literal (py_slice block literal_start input_position)) (\<lambda>l. Inr (output @ l))
      else Inr output)"

lemma extend_loop_ge: "extend_loop data m c len = Inr n \<Longrightarrow> len \<le> n"
  by (induction data m c len rule: extend_loop.induct) (subst (asm) extend_loop.simps, force split: if_splits)

text \<open>
  The main loop of \<^verbatim>\<open>_compress_block\<close> over \<^verbatim>\<open>(table, output, literal_start, input_position)\<close>; it
  returns the output and the start of the pending literal.
\<close>

function compress_loop :: "bytes \<Rightarrow> nat \<Rightarrow> int list \<Rightarrow> bytes \<Rightarrow> nat \<Rightarrow> nat \<Rightarrow> (bytes \<times> nat) result" where
  "compress_loop block table_bits table output literal_start input_position =
     (if input_position + INPUT_MARGIN_BYTES < length block then
        rbind (hash_4_bytes block input_position table_bits) (\<lambda>hash_value.
        rbind (py_index table hash_value) (\<lambda>match_pos.
          let table' = table[hash_value := int input_position] in
          if 0 \<le> match_pos \<and> matches_at block (nat match_pos) input_position then
            rbind (flush_literal block output literal_start input_position) (\<lambda>output1.
            rbind (extend_match block (nat match_pos) input_position) (\<lambda>match_length.
            let copy_offset = nat (int input_position - match_pos) in
            rbind (encode_copy_tag match_length copy_offset) (\<lambda>tag.
            let position' = input_position + match_length in
            rbind (populate_skipped block table_bits match_length position' table') (\<lambda>table''.
              compress_loop block table_bits table'' (output1 @ tag) position' position'))))
          else compress_loop block table_bits table' output literal_start (input_position + 1)))
      else Inr (output, literal_start))"
  by pat_completeness auto
termination
  by (relation "measure (\<lambda>(block, bits, table, output, ls, ip). length block - ip)")
     (auto simp: extend_match_def dest!: extend_loop_ge)

declare compress_loop.simps [simp del]

definition compress_block :: "bytes \<Rightarrow> bytes result" where
  "compress_block block =
     (if length block < 4 then emit_literal block
      else let table_bits = compute_table_bits (length block);
               table_size = push_bit table_bits 1
           in rbind (compress_loop block table_bits (replicate table_size (- 1)) [] 0 0) (\<lambda>(output, literal_start).
                if literal_start < length block
                then rbind (emit_literal (drop literal_start block)) (\<lambda>l. Inr (output @ l))
                else Inr output))"

function compress_blocks :: "bytes \<Rightarrow> nat \<Rightarrow> bytes \<Rightarrow> bytes result" where
  "compress_blocks data offset output =
     (if offset < length data then
        let block_end = min (offset + BLOCK_SIZE) (length data);
            block = py_slice data offset block_end
        in rbind (compress_block block) (\<lambda>compressed_block.
             compress_blocks data block_end (output @ compressed_block))
      else Inr output)"
  by pat_completeness auto
termination by (relation "measure (\<lambda>(data, offset, output). length data - offset)") (auto simp: BLOCK_SIZE_def)

declare compress_blocks.simps [simp del]

definition compress :: "bytes \<Rightarrow> bytes result" where
  "compress data =
     (if data = [] then encode_varint 0 SNAPPY_VARINT_MAX_BYTES
      else rbind (encode_varint (int (length data)) SNAPPY_VARINT_MAX_BYTES) (\<lambda>prefix.
             compress_blocks data 0 prefix))"

definition max_compressed_length :: "nat \<Rightarrow> nat" where
  "max_compressed_length source_bytes = 5 + source_bytes + source_bytes div 6 + 1"

section \<open>Runs of tags\<close>

text \<open>
  \<open>emits seg out out'\<close>: read at any position of any stream, the segment takes the decompressor from
  output \<open>out\<close> to output \<open>out'\<close>.
\<close>

definition emits :: "bytes \<Rightarrow> bytes \<Rightarrow> bytes \<Rightarrow> bool" where
  "emits seg out out' \<longleftrightarrow> length out \<le> length out' \<and>
     (\<forall>pre rest total. length out' \<le> total \<longrightarrow>
        decompress_loop (pre @ seg @ rest) total out (length pre) =
        decompress_loop (pre @ seg @ rest) total out' (length (pre @ seg)))"

lemma emits_refl [simp]: "emits [] out out"
  by (simp add: emits_def)

lemma emits_trans:
  assumes "emits s1 o1 o2" and "emits s2 o2 o3"
  shows "emits (s1 @ s2) o1 o3"
  unfolding emits_def
proof (intro conjI allI impI)
  show "length o1 \<le> length o3" using assms by (simp add: emits_def)
  fix pre rest :: bytes and total
  assume le: "length o3 \<le> total"
  have "length o2 \<le> total" using le assms(2) by (simp add: emits_def)
  then have "decompress_loop (pre @ s1 @ (s2 @ rest)) total o1 (length pre)
    = decompress_loop (pre @ s1 @ (s2 @ rest)) total o2 (length (pre @ s1))"
    using assms(1) unfolding emits_def by blast
  moreover have "decompress_loop ((pre @ s1) @ s2 @ rest) total o2 (length (pre @ s1))
    = decompress_loop ((pre @ s1) @ s2 @ rest) total o3 (length ((pre @ s1) @ s2))"
    using assms(2) le unfolding emits_def by blast
  ultimately show "decompress_loop (pre @ (s1 @ s2) @ rest) total o1 (length pre)
    = decompress_loop (pre @ (s1 @ s2) @ rest) total o3 (length (pre @ s1 @ s2))"
    by simp
qed

lemma emits_literal:
  assumes "d \<noteq> []" and "encode_literal_tag (length d) = Inr tag" and "length d \<le> 2 ^ 32"
  shows "emits (tag @ d) out (out @ d)"
  unfolding emits_def
proof (intro conjI allI impI)
  fix pre rest :: bytes and total
  assume le: "length (out @ d) \<le> total"
  have "1 \<le> length d" using assms(1) by (cases d) simp_all
  then have tag: "decode_tag (pre @ tag @ (d @ rest)) (length pre) = Inr (Literal_Tag, length d, 0, length tag)"
    using literal_tag_roundtrip [OF _ assms(3)] assms(2) by auto
  have "length out < total" using le \<open>1 \<le> length d\<close> by simp
  then show "decompress_loop (pre @ (tag @ d) @ rest) total out (length pre)
    = decompress_loop (pre @ (tag @ d) @ rest) total (out @ d) (length (pre @ tag @ d))"
    using tag assms(1) by (subst decompress_loop.simps) (simp add: py_slice_def add.assoc)
qed simp

lemma copy_loop_spec:
  assumes "m < p" and "p + len \<le> length block" and "\<forall>i < len. block ! (m + i) = block ! (p + i)"
  shows "copy_loop len (length base + m) (base @ take p block) = Inr (base @ take (p + len) block)"
  using assms
proof (induction len arbitrary: m p)
  case (Suc len)
  have nth: "(base @ take p block) ! (length base + m) = block ! p"
    using Suc.prems by (force simp: nth_append)
  have ext: "(base @ take p block) @ [block ! p] = base @ take (Suc p) block"
    using Suc.prems(2) by (simp add: take_Suc_conv_app_nth)
  have "\<forall>i < len. block ! (Suc m + i) = block ! (Suc p + i)"
    using Suc.prems(3) by (metis Suc_less_eq add_Suc_shift)
  then have "copy_loop len (length base + Suc m) (base @ take (Suc p) block) = Inr (base @ take (Suc p + len) block)"
    using Suc.prems by (intro Suc.IH) simp_all
  then show ?case using nth ext Suc.prems by (simp add: py_index_def)
qed simp

lemma emits_copy:
  assumes "encode_copy_tag len (p - m) = Inr tag" and "1 \<le> len" and "len \<le> 64"
    and "m < p" and "p + len \<le> length block" and "p < 2 ^ 32"
    and "\<forall>i < len. block ! (m + i) = block ! (p + i)"
  shows "emits tag (base @ take p block) (base @ take (p + len) block)"
  unfolding emits_def
proof (intro conjI allI impI)
  show "length (base @ take p block) \<le> length (base @ take (p + len) block)"
    using assms by simp
  fix pre rest :: bytes and total
  assume le: "length (base @ take (p + len) block) \<le> total"
  have tag: "decode_tag (pre @ tag @ rest) (length pre) = Inr (Copy_Tag, len, p - m, length tag)" "2 \<le> length tag"
    using copy_tag_roundtrip [of len "p - m"] assms(1-4,6) by auto
  have "execute_copy (base @ take p block) (p - m) len total = Inr (base @ take (p + len) block)"
    using copy_loop_spec [OF assms(4,5,7), of base] le assms(4,5) by (simp add: execute_copy_def)
  moreover have "length (base @ take p block) < total" using le assms(2,5) by simp
  moreover have "tag \<noteq> []" using tag(2) by auto
  ultimately show "decompress_loop (pre @ tag @ rest) total (base @ take p block) (length pre)
    = decompress_loop (pre @ tag @ rest) total (base @ take (p + len) block) (length (pre @ tag))"
    using tag(1) by (subst decompress_loop.simps) simp
qed

section \<open>The compressor stays inside its block and table\<close>

lemma literal_tag_length:
  "encode_literal_tag n = Inr tag \<Longrightarrow> n \<le> 65536 \<Longrightarrow>
   length tag = (if n \<le> 60 then 1 else if n \<le> 256 then 2 else 3)"
  by (auto simp: encode_literal_tag_def snappy_constants Let_def split: if_splits)

lemma emit_literal_spec:
  assumes "d \<noteq> []" and "length d \<le> 65536"
  shows "\<exists>seg. emit_literal d = Inr seg \<and> (\<forall>out. emits seg out (out @ d)) \<and>
    length seg = length d + (if length d \<le> 60 then 1 else if length d \<le> 256 then 2 else 3)"
proof -
  have "1 \<le> length d" "length d \<le> 2 ^ 32" using assms by (cases d; simp)+
  then obtain tag where "encode_literal_tag (length d) = Inr tag"
    using literal_tag_roundtrip by blast
  with emits_literal [OF assms(1) this] literal_tag_length [OF this assms(2)] assms show ?thesis
    by (simp add: emit_literal_def)
qed

lemma table_bits_loop_bounds: "bits \<le> 15 \<Longrightarrow> bits \<le> table_bits_loop t bits \<and> table_bits_loop t bits \<le> 15"
proof (induction t bits rule: table_bits_loop.induct)
  case (1 t bits)
  then show ?case by (subst (1 2) table_bits_loop.simps) (auto simp: MAX_HASH_TABLE_BITS_def)
qed

lemma compute_table_bits_bounds: "8 \<le> compute_table_bits n \<and> compute_table_bits n \<le> 15"
  using table_bits_loop_bounds [of 8 "n div 4"] by (simp add: compute_table_bits_def MIN_HASH_TABLE_BITS_def)

lemma hash_4_bytes_spec:
  assumes "pos + 3 < length data" and "bits \<le> 15"
  shows "\<exists>h. hash_4_bytes data pos bits = Inr h \<and> h < 2 ^ bits"
proof -
  have "drop_bit (32 - bits) (take_bit 32 n) < 2 ^ bits" for n :: nat
  proof -
    have "drop_bit (32 - bits) (take_bit 32 n) = take_bit bits (drop_bit (32 - bits) n)"
      using assms(2) by (simp add: drop_bit_take_bit)
    then show ?thesis by simp
  qed
  with assms(1) show ?thesis by (simp add: hash_4_bytes_def py_index_def and_mask_32 Let_def)
qed

lemma extend_loop_spec:
  assumes "m < c" and "c + len \<le> length data" and "len \<le> 64"
    and "\<forall>i < len. data ! (m + i) = data ! (c + i)"
  shows "\<exists>n. extend_loop data m c len = Inr n \<and> len \<le> n \<and> n \<le> 64 \<and> c + n \<le> length data \<and>
    (\<forall>i < n. data ! (m + i) = data ! (c + i))"
  using assms
proof (induction data m c len rule: extend_loop.induct)
  case (1 data m c len)
  show ?case
  proof (cases "len < 64 \<and> c + len < length data \<and> data ! (m + len) = data ! (c + len)")
    case True
    then have idx: "py_index data (m + len) = Inr (data ! (m + len))" "py_index data (c + len) = Inr (data ! (c + len))"
      using "1.prems"(1) by simp_all
    have "\<forall>i < len + 1. data ! (m + i) = data ! (c + i)"
      using "1.prems"(4) True by (auto simp: less_Suc_eq)
    then obtain n where "extend_loop data m c (len + 1) = Inr n" "len + 1 \<le> n" "n \<le> 64" "c + n \<le> length data"
        "\<forall>i < n. data ! (m + i) = data ! (c + i)"
      using "1.IH" [OF _ idx] True "1.prems"(1) by auto
    with True idx show ?thesis by (subst extend_loop.simps) (auto intro!: exI [of _ n])
  next
    case False
    then have "extend_loop data m c len = Inr len"
      using "1.prems"(1) by (subst extend_loop.simps) (auto simp: py_index_def)
    with "1.prems" show ?thesis by simp
  qed
qed

lemma matches_at_iff:
  assumes "pos1 + 4 \<le> length data" and "pos2 + 4 \<le> length data"
  shows "matches_at data pos1 pos2 \<longleftrightarrow> (\<forall>i < 4. data ! (pos1 + i) = data ! (pos2 + i))"
  using assms by (auto simp: matches_at_def py_slice_def list_eq_iff_nth_eq)

text \<open>A table is good at a position when its entries are empty or earlier positions.\<close>

definition table_ok :: "nat \<Rightarrow> nat \<Rightarrow> int list \<Rightarrow> bool" where
  "table_ok bits ip table \<longleftrightarrow> length table = 2 ^ bits \<and> (\<forall>x \<in> set table. - 1 \<le> x \<and> x < int ip)"

lemma table_ok_mono: "table_ok bits ip table \<Longrightarrow> ip \<le> ip' \<Longrightarrow> table_ok bits ip' table"
  by (force simp: table_ok_def)

lemma table_ok_update: "table_ok bits ip table \<Longrightarrow> p < ip \<Longrightarrow> table_ok bits ip (table[h := int p])"
  unfolding table_ok_def using set_update_subset_insert [of table h "int p"] by force

lemma fill_skips_spec:
  assumes "table_ok bits ip table" and "stop \<le> ip" and "stop + 4 \<le> length block" and "bits \<le> 15"
  shows "\<exists>table'. fill_skips block bits p stop table = Inr table' \<and> table_ok bits ip table'"
  using assms
proof (induction block bits p stop table rule: fill_skips.induct)
  case (1 block bits p stop table)
  show ?case
  proof (cases "p < stop")
    case True
    obtain h where h: "hash_4_bytes block p bits = Inr h" "h < 2 ^ bits"
      using hash_4_bytes_spec [of p block bits] True "1.prems" by auto
    then have idx: "py_index table h = Inr (table ! h)" using "1.prems"(1) by (simp add: table_ok_def)
    have "table_ok bits ip (table[h := int p])"
      using "1.prems" True by (intro table_ok_update) simp_all
    from "1.IH" [OF True h(1) idx this "1.prems"(2-4)] True h(1) idx show ?thesis
      by (subst fill_skips.simps) simp
  next
    case False
    with "1.prems" show ?thesis by (subst fill_skips.simps) simp
  qed
qed

section \<open>The compressor's loop invariant\<close>

text \<open>
  After each step the output decodes to the first \<^verbatim>\<open>literal_start\<close> bytes of the block, behind any
  earlier output; copies pay for the tags of short literals, so it grows by at most one sixtieth.
\<close>

definition block_inv :: "bytes \<Rightarrow> bytes \<Rightarrow> nat \<Rightarrow> bool" where
  "block_inv block output ls \<longleftrightarrow> ls \<le> length block \<and> 60 * length output \<le> 61 * ls \<and>
     (\<forall>base. emits output base (base @ take ls block))"

lemma block_inv_0 [simp]: "block_inv block [] 0"
  by (simp add: block_inv_def)

lemma pending_literal:
  assumes "block_inv block output ls" and "ls \<le> ip" and "ip \<le> length block" and "length block \<le> 65536"
  shows "\<exists>output'. flush_literal block output ls ip = Inr output' \<and> 60 * length output' \<le> 61 * ip + 60 \<and> (\<forall>base. emits output' base (base @ take ip block))"
proof (cases "ip > ls")
  case True
  let ?d = "py_slice block ls ip"
  have len: "length ?d = ip - ls" using assms by (simp add: py_slice_def)
  then have "?d \<noteq> []" "length ?d \<le> 65536" using True assms by auto
  then obtain seg where seg: "emit_literal ?d = Inr seg" "\<And>out. emits seg out (out @ ?d)"
      "length seg = length ?d + (if length ?d \<le> 60 then 1 else if length ?d \<le> 256 then 2 else 3)"
    using emit_literal_spec [of ?d] by blast
  have "take ip block = take ls block @ ?d"
    using assms(2) take_add [of ls "ip - ls" block] by (simp add: py_slice_def)
  then have "emits (output @ seg) base (base @ take ip block)" for base
    using emits_trans [OF _ seg(2), of "output" base "base @ take ls block"] assms(1) by (simp add: block_inv_def)
  moreover have "60 * length (output @ seg) \<le> 61 * ip + 60"
    using seg(3) len assms(1,2) by (auto simp: block_inv_def split: if_splits)
  ultimately show ?thesis using True seg(1) by (simp add: flush_literal_def)
next
  case False
  with assms show ?thesis by (simp add: flush_literal_def block_inv_def)
qed

lemma copy_step:
  assumes "60 * length output \<le> 61 * p + 60" and "\<forall>base. emits output base (base @ take p block)"
    and "m < p" and "4 \<le> len" and "len \<le> 64" and "p + len \<le> length block" and "length block \<le> 65536"
    and "\<forall>i < len. block ! (m + i) = block ! (p + i)"
  shows "\<exists>tag. encode_copy_tag len (p - m) = Inr tag \<and> block_inv block (output @ tag) (p + len)"
proof -
  obtain tag where tag: "encode_copy_tag len (p - m) = Inr tag" "length tag \<le> 3"
  proof -
    have "1 \<le> len" "1 \<le> p - m" "p - m < 2 ^ 32" "p - m \<le> 65535" using assms(3-7) by simp_all
    then show thesis using copy_tag_roundtrip [of len "p - m"] assms(5) that by blast
  qed
  have "emits (output @ tag) base (base @ take (p + len) block)" for base
    using emits_trans [OF spec [OF assms(2), of base] emits_copy [OF tag(1), of block base]] assms by simp
  with tag assms show ?thesis by (auto simp: block_inv_def)
qed

lemma compress_loop_skip:
  "ip + INPUT_MARGIN_BYTES < length block \<Longrightarrow> hash_4_bytes block ip bits = Inr h \<Longrightarrow> py_index table h = Inr mp \<Longrightarrow>
   \<not> (0 \<le> mp \<and> matches_at block (nat mp) ip) \<Longrightarrow>
   compress_loop block bits table out ls ip = compress_loop block bits (table[h := int ip]) out ls (ip + 1)"
  by (subst compress_loop.simps) (auto simp: Let_def simp del: py_index_eq_Inr)

lemma compress_loop_match:
  "ip + INPUT_MARGIN_BYTES < length block \<Longrightarrow> hash_4_bytes block ip bits = Inr h \<Longrightarrow> py_index table h = Inr (int m) \<Longrightarrow>
   matches_at block m ip \<Longrightarrow> flush_literal block out ls ip = Inr out1 \<Longrightarrow> extend_match block m ip = Inr n \<Longrightarrow>
   encode_copy_tag n (ip - m) = Inr tag \<Longrightarrow> populate_skipped block bits n (ip + n) (table[h := int ip]) = Inr table' \<Longrightarrow>
   compress_loop block bits table out ls ip = compress_loop block bits table' (out1 @ tag) (ip + n) (ip + n)"
  by (subst compress_loop.simps) (simp add: Let_def nat_minus_as_int del: py_index_eq_Inr)

lemma populate_skipped_spec:
  assumes "table_ok bits ip table" and "4 \<le> n" and "n \<le> ip" and "bits \<le> 15"
  shows "\<exists>table'. populate_skipped block bits n ip table = Inr table' \<and> table_ok bits ip table'"
  using fill_skips_spec [OF assms(1), of "ip - 1" block "ip - n + 1"] assms
  by (simp add: populate_skipped_def INPUT_MARGIN_BYTES_def)

lemma compress_loop_spec:
  assumes "length block \<le> 65536" and "bits \<le> 15" and "block_inv block out ls" and "ls \<le> ip" and "ip \<le> length block"
    and "table_ok bits ip table"
  shows "\<exists>output' ls'. compress_loop block bits table out ls ip = Inr (output', ls') \<and> block_inv block output' ls'"
  using assms(3-)
proof (induction "length block - ip" arbitrary: ip ls out table rule: less_induct)
  case less
  show ?case
  proof (cases "ip + INPUT_MARGIN_BYTES < length block")
    case True
    then have ip: "ip + 15 < length block" by (simp add: INPUT_MARGIN_BYTES_def)
    obtain h where h: "hash_4_bytes block ip bits = Inr h" "h < 2 ^ bits"
      using hash_4_bytes_spec [of ip block bits] ip assms(2) by auto
    then have idx: "py_index table h = Inr (table ! h)" using less.prems(4) by (simp add: table_ok_def)
    let ?t = "table[h := int ip]"
    have t: "table_ok bits (Suc ip) ?t" using table_ok_update [OF table_ok_mono [OF less.prems(4)], of "Suc ip" ip] by simp
    show ?thesis
    proof (cases "0 \<le> table ! h \<and> matches_at block (nat (table ! h)) ip")
      case False
      show ?thesis unfolding compress_loop_skip [OF True h(1) idx False]
        using less.prems ip t by (intro less.hyps) simp_all
    next
      case match: True
      have "table ! h \<in> set table" using h(2) less.prems(4) by (simp add: table_ok_def)
      with less.prems(4) match obtain m where m: "table ! h = int m" "m < ip"
        by (auto simp: table_ok_def elim!: nonneg_int_cases)
      obtain o1 where o1: "flush_literal block out ls ip = Inr o1"
          "60 * length o1 \<le> 61 * ip + 60" "\<forall>base. emits o1 base (base @ take ip block)"
        using pending_literal [OF less.prems(1-3) assms(1)] by blast
      have mm: "matches_at block m ip" using match m by simp
      then have "\<forall>i < 4. block ! (m + i) = block ! (ip + i)"
        using matches_at_iff [of m block ip] m(2) ip by simp
      then obtain n where n: "extend_match block m ip = Inr n" "4 \<le> n" "n \<le> 64" "ip + n \<le> length block"
          "\<forall>i < n. block ! (m + i) = block ! (ip + i)"
        using extend_loop_spec [of m ip 4 block] m(2) ip by (auto simp: extend_match_def)
      obtain tag where tag: "encode_copy_tag n (ip - m) = Inr tag" "block_inv block (o1 @ tag) (ip + n)"
        using copy_step [OF o1(2,3) m(2) n(2-4) assms(1) n(5)] by blast
      obtain t2 where t2: "populate_skipped block bits n (ip + n) ?t = Inr t2" "table_ok bits (ip + n) t2"
        using populate_skipped_spec [OF table_ok_mono [OF t, of "ip + n"], of n block] n(2) assms(2) by auto
      show ?thesis unfolding compress_loop_match [OF True h(1) idx [unfolded m(1)] mm o1(1) n(1) tag(1) t2(1)]
        using n t2(2) tag(2) ip by (intro less.hyps) simp_all
    qed
  next
    case False
    with less.prems show ?thesis by (subst compress_loop.simps) simp
  qed
qed

section \<open>Blocks and whole streams\<close>

lemma compress_block_spec:
  assumes "block \<noteq> []" and "length block \<le> 65536"
  shows "\<exists>seg. compress_block block = Inr seg \<and> (\<forall>base. emits seg base (base @ block)) \<and>
    60 * length seg \<le> 62 * length block + 60 \<and> 60 * length seg \<le> 61 * length block + 180"
proof (cases "length block < 4")
  case True
  then have "length block \<le> 60" by simp
  with True emit_literal_spec [OF assms] show ?thesis by (auto simp: compress_block_def)
next
  case False
  let ?bits = "compute_table_bits (length block)"
  have bits: "?bits \<le> 15" using compute_table_bits_bounds by blast
  have "table_ok ?bits 0 (replicate (push_bit ?bits 1) (- 1))"
    by (simp add: table_ok_def push_bit_eq_mult)
  from compress_loop_spec [OF assms(2) bits block_inv_0 _ _ this]
  obtain out ls where loop: "compress_loop block ?bits (replicate (push_bit ?bits 1) (- 1)) [] 0 0 = Inr (out, ls)"
      and inv: "block_inv block out ls" by auto
  show ?thesis
  proof (cases "ls < length block")
    case True
    let ?d = "drop ls block"
    have ne: "?d \<noteq> []" "length ?d \<le> 65536" using True assms(2) by auto
    obtain seg where seg: "emit_literal ?d = Inr seg" "\<And>out. emits seg out (out @ ?d)"
        "length seg = length ?d + (if length ?d \<le> 60 then 1 else if length ?d \<le> 256 then 2 else 3)"
      using emit_literal_spec [OF ne] by blast
    have "emits (out @ seg) base (base @ block)" for base
      using emits_trans [OF _ seg(2), of out base "base @ take ls block"] inv by (simp add: block_inv_def)
    moreover have "60 * length (out @ seg) \<le> 62 * length block + 60 \<and> 60 * length (out @ seg) \<le> 61 * length block + 180"
      using seg(3) inv True by (auto simp: block_inv_def split: if_splits)
    ultimately show ?thesis using False loop True seg(1) by (simp add: compress_block_def Let_def)
  next
    case le: False
    with inv have "ls = length block" by (simp add: block_inv_def)
    with inv have "emits out base (base @ block)" "60 * length out \<le> 61 * length block" for base
      by (simp_all add: block_inv_def)
    with False loop le show ?thesis by (simp add: compress_block_def Let_def)
  qed
qed

lemma compress_blocks_spec:
  assumes "offset \<le> length data"
  shows "\<exists>seg. compress_blocks data offset out = Inr (out @ seg) \<and> (\<forall>base. emits seg base (base @ drop offset data)) \<and>
    60 * length seg \<le> 62 * (length data - offset) + 60"
  using assms
proof (induction "length data - offset" arbitrary: offset out rule: less_induct)
  case less
  show ?case
  proof (cases "offset < length data")
    case True
    define e where "e = min (offset + BLOCK_SIZE) (length data)"
    let ?b = "py_slice data offset e"
    have e: "offset < e" "e \<le> length data" "length ?b = e - offset" "e < length data \<Longrightarrow> e = offset + 65536" "e \<le> offset + 65536"
      using True by (auto simp: e_def BLOCK_SIZE_def py_slice_def push_bit_eq_mult)
    then have "?b \<noteq> []" "length ?b \<le> 65536" by auto
    then obtain s1 where s1: "compress_block ?b = Inr s1" "\<And>base. emits s1 base (base @ ?b)"
        "60 * length s1 \<le> 62 * length ?b + 60" "60 * length s1 \<le> 61 * length ?b + 180"
      using compress_block_spec [of ?b] by blast
    have "length data - e < length data - offset" using e by simp
    from less.hyps [OF this e(2), of "out @ s1"] obtain s2
      where s2: "compress_blocks data e (out @ s1) = Inr ((out @ s1) @ s2)" "\<And>base. emits s2 base (base @ drop e data)"
        "60 * length s2 \<le> 62 * (length data - e) + 60" by blast
    have eq: "compress_blocks data offset out = Inr (out @ s1 @ s2)"
      using True s1(1) s2(1) by (subst compress_blocks.simps) (simp add: Let_def flip: e_def)
    have "?b @ drop e data = drop offset data"
      using e(1) append_take_drop_id [of "e - offset" "drop offset data"] by (simp add: py_slice_def)
    then have em: "emits (s1 @ s2) base (base @ drop offset data)" for base
      using emits_trans [OF s1(2) s2(2), of base] by simp
    have "60 * length (s1 @ s2) \<le> 62 * (length data - offset) + 60"
    proof (cases "e < length data")
      case True
      with e s1(4) s2(3) show ?thesis by simp
    next
      case False
      with e have "e = length data" by simp
      then have "s2 = []" using s2(1) by (subst (asm) compress_blocks.simps) simp
      with s1(3) e \<open>e = length data\<close> show ?thesis by simp
    qed
    with eq em show ?thesis by blast
  next
    case False
    with less.prems show ?thesis by (subst compress_blocks.simps) simp
  qed
qed

lemma compress_spec:
  assumes "length data < 2 ^ 35"
  shows "\<exists>out. compress data = Inr out \<and> decompress (out @ rest) = Inr data \<and> length out \<le> max_compressed_length (length data)"
proof (cases "data = []")
  case True
  have "encode_varint 0 SNAPPY_VARINT_MAX_BYTES = Inr (varint_groups 0)"
    by (simp add: encode_varint_Inr varint_ok_def SNAPPY_VARINT_MAX_BYTES_def)
  moreover have "decode_varint (varint_groups 0 @ rest) 0 SNAPPY_VARINT_MAX_BYTES = Inr (0, 1)"
    using varint.dec_enc_start [of SNAPPY_VARINT_MAX_BYTES 0 rest]
    by (simp add: varint_ok_def SNAPPY_VARINT_MAX_BYTES_def varint_groups_last)
  ultimately show ?thesis using True
    by (simp add: compress_def decompress_def max_compressed_length_def varint_groups_last)
next
  case False
  let ?n = "length data" let ?p = "varint_groups ?n"
  have ok: "varint_ok SNAPPY_VARINT_MAX_BYTES ?n"
    using assms by (simp add: varint_ok_def SNAPPY_VARINT_MAX_BYTES_def)
  have len: "length ?p \<le> 5" using length_varint_groups [of ?n 4] assms by simp
  obtain seg where seg: "compress_blocks data 0 ?p = Inr (?p @ seg)" "\<And>base. emits seg base (base @ data)"
      "60 * length seg \<le> 62 * ?n + 60" using compress_blocks_spec [of 0 data ?p] by auto
  have c: "compress data = Inr (?p @ seg)"
    using False ok seg(1) by (simp add: compress_def encode_varint_Inr [THEN iffD2])
  have v: "decode_varint (?p @ seg @ rest) 0 SNAPPY_VARINT_MAX_BYTES = Inr (?n, length ?p)"
    using varint.dec_enc_start [OF ok, of "seg @ rest"] by simp
  have "decompress_loop (?p @ seg @ rest) ?n [] (length ?p) = decompress_loop (?p @ seg @ rest) ?n data (length (?p @ seg))"
    using seg(2) [of "[]"] by (simp add: emits_def)
  also have "\<dots> = Inr data" by (subst decompress_loop.simps) simp
  finally have "decompress ((?p @ seg) @ rest) = Inr data" using v False by (simp add: decompress_def)
  moreover have "length (?p @ seg) \<le> max_compressed_length ?n"
    using len seg(3) by (simp add: max_compressed_length_def)
  ultimately show ?thesis using c by blast
qed

section \<open>Malformed input\<close>

lemma decode_tag_error: "decode_tag data pos = Inl e \<Longrightarrow> e = ValueError"
  unfolding decode_tag_def decode_literal_tag_def decode_copy_1_tag_def decode_copy_2_tag_def
    decode_copy_4_tag_def Let_def
  by (simp split: if_splits)

lemma copy_loop_total: "src < length out \<Longrightarrow> \<exists>out'. copy_loop k src out = Inr out' \<and> length out' = length out + k"
proof (induction k arbitrary: src out)
  case (Suc k)
  then show ?case using Suc.IH [of "Suc src" "out @ [out ! src]"] by (simp add: py_index_def)
qed simp

lemma execute_copy_cases:
  "(\<exists>out'. execute_copy out offset len tot = Inr out' \<and> length out' = length out + len \<and> length out' \<le> tot)
   \<or> execute_copy out offset len tot = Inl SnappyDecompressionError"
proof (cases "1 \<le> offset \<and> offset \<le> length out")
  case True
  then have "length out - offset < length out" by linarith
  then obtain out' where "copy_loop len (length out - offset) out = Inr out'" "length out' = length out + len"
    using copy_loop_total by blast
  with True show ?thesis by (simp add: execute_copy_def)
qed (auto simp: execute_copy_def)

lemma decompress_loop_error: "decompress_loop data tot out pos = Inl e \<Longrightarrow> e = SnappyDecompressionError"
proof (induction data tot out pos rule: decompress_loop.induct)
  case (1 data tot out pos)
  note p = "1.prems" [unfolded decompress_loop.simps [of data tot out pos]]
  show ?case
  proof (cases "length out < tot \<and> pos < length data")
    case False
    with p show ?thesis by (auto split: if_splits)
  next
    case True
    then have g: "length out < tot" "\<not> pos \<ge> length data" by simp_all
    show ?thesis
    proof (cases "decode_tag data pos")
      case (Inl x)
      with True p decode_tag_error [OF Inl] show ?thesis by simp
    next
      case (Inr q)
      obtain t len off n where q: "q = (t, len, off, n)" by (cases q) auto
      have tag: "reraise ValueError SnappyDecompressionError (decode_tag data pos) = Inr (t, len, off, n)"
        using Inr q by simp
      show ?thesis
      proof (cases t)
        case Literal_Tag
        with tag g p "1.IH"(1) [OF g tag refl refl refl] show ?thesis by (auto split: if_splits)
      next
        case Copy_Tag
        with tag g p "1.IH"(2) [OF g tag refl refl refl] execute_copy_cases [of out off len tot] show ?thesis by auto
      qed
    qed
  qed
qed

section \<open>Properties\<close>

text \<open>
  Property C7: for every input shorter than \<open>2 ^ 35\<close> bytes the compressor succeeds (it indexes neither
  its block nor its hash table out of range), and decompressing its output gives the input back;
  bytes after the compressed stream are ignored.
\<close>

theorem snappy_roundtrip:
  assumes "length data < 2 ^ 35"
  shows "\<exists>out. compress data = Inr out \<and> (\<forall>trailing. decompress (out @ trailing) = Inr data)"
proof -
  obtain out where "compress data = Inr out" using compress_spec [OF assms] by blast
  with compress_spec [OF assms] show ?thesis by force
qed

theorem snappy_roundtrip_witness:
  "\<exists>out. compress [1, 2, 3] = Inr out \<and> (\<forall>trailing. decompress (out @ trailing) = Inr [1, 2, 3])"
  by (rule snappy_roundtrip) simp

text \<open>
  Property C33: the compressed length never exceeds \<^verbatim>\<open>max_compressed_length\<close>, whatever mix of literals and
  copies the match search produces.
\<close>

theorem snappy_compressed_bound:
  assumes "compress data = Inr out" and "length data < 2 ^ 35"
  shows "length out \<le> max_compressed_length (length data)"
  using compress_spec [OF assms(2), of "[]"] assms(1) by simp

theorem snappy_compressed_bound_witness:
  "\<exists>out. compress [7] = Inr out \<and> length out \<le> max_compressed_length (length [7 :: byte])"
proof -
  have "length [7 :: byte] < 2 ^ 35" by simp
  moreover obtain out where "compress [7] = Inr out" using compress_spec [OF calculation] by blast
  ultimately show ?thesis using snappy_compressed_bound by blast
qed

text \<open>
  Property C24: on any input whatsoever \<^verbatim>\<open>decompress\<close> either returns exactly as many bytes as the length
  prefix declares or raises \<^verbatim>\<open>SnappyDecompressionError\<close>; no other exception escapes.
\<close>

theorem decompress_safe:
  "case decompress data of
     Inl e \<Rightarrow> e = SnappyDecompressionError
   | Inr out \<Rightarrow> \<exists>k. decode_varint data 0 SNAPPY_VARINT_MAX_BYTES = Inr (length out, k)"
proof (cases "decode_varint data 0 SNAPPY_VARINT_MAX_BYTES")
  case (Inl e)
  then have "e = VarintError" by (rule decode_varint_error)
  with Inl show ?thesis by (simp add: decompress_def)
next
  case (Inr q)
  then show ?thesis using decompress_loop_error
    by (cases "decompress_loop data (fst q) [] (snd q)") (auto simp: decompress_def split: prod.splits)
qed

end
