(* ===== verification/Snappy_Frame.thy ===== *)
theory Snappy_Frame
  imports Snappy_Block
begin

unbundle bit_operations_syntax

text \<open>
  The Snappy framing format of \<^verbatim>\<open>node/snappy/framing.py\<close>: the table-driven CRC-32C with its mask,
  \<^verbatim>\<open>frame_compress\<close> and \<^verbatim>\<open>frame_decompress\<close>. The table is shown to compute the bit-serial CRC, and
  framed streams, also concatenated ones, decompress to the data they were made from.
\<close>

section \<open>Checksums\<close>

definition crc_step :: "nat \<Rightarrow> nat" where
  "crc_step crc = (if crc AND 1 \<noteq> 0 then drop_bit 1 crc XOR 0x82F63B78 else drop_bit 1 crc)"

definition crc32c_table :: "nat list" where
  "crc32c_table = map (\<lambda>i. (crc_step ^^ 8) i) [0..<256]"

definition crc32c :: "bytes \<Rightarrow> nat" where
  "crc32c data =
     foldl (\<lambda>crc byte. (crc32c_table ! ((crc XOR unat byte) AND 0xFF)) XOR drop_bit 8 crc) 0xFFFFFFFF data XOR 0xFFFFFFFF"

definition CRC32C_MASK_DELTA :: nat where "CRC32C_MASK_DELTA = 0xA282EAD8"

definition mask_crc :: "nat \<Rightarrow> nat" where
  "mask_crc crc = ((drop_bit 15 crc OR push_bit 17 crc) + CRC32C_MASK_DELTA) AND 0xFFFFFFFF"

section \<open>Framing\<close>

text \<open>\<^verbatim>\<open>b"sNaPpY"\<close>\<close>

definition SNAPPY_MAGIC :: bytes where
  "SNAPPY_MAGIC = [0x73, 0x4E, 0x61, 0x50, 0x70, 0x59]"

definition STREAM_IDENTIFIER :: bytes where
  "STREAM_IDENTIFIER = [0xFF, 0x06, 0x00, 0x00] @ SNAPPY_MAGIC"

definition CHUNK_TYPE_COMPRESSED :: byte where "CHUNK_TYPE_COMPRESSED = 0x00"
definition CHUNK_TYPE_UNCOMPRESSED :: byte where "CHUNK_TYPE_UNCOMPRESSED = 0x01"
definition MAX_UNCOMPRESSED_CHUNK_SIZE :: nat where "MAX_UNCOMPRESSED_CHUNK_SIZE = 65536"

function frame_compress_loop :: "bytes \<Rightarrow> nat \<Rightarrow> bytes \<Rightarrow> bytes result" where
  "frame_compress_loop data offset output =
     (if offset < length data then
        let chunk_end = min (offset + MAX_UNCOMPRESSED_CHUNK_SIZE) (length data);
            chunk = py_slice data offset chunk_end
        in rbind (compress chunk) (\<lambda>compressed.
          let crc = mask_crc (crc32c chunk);
              (chunk_type, chunk_body) =
                (if length compressed < length chunk then (CHUNK_TYPE_COMPRESSED, compressed)
                 else (CHUNK_TYPE_UNCOMPRESSED, chunk));
              chunk_length = 4 + length chunk_body
          in rbind (to_bytes_le 3 chunk_length) (\<lambda>len_bytes.
             rbind (to_bytes_le 4 crc) (\<lambda>crc_bytes.
               frame_compress_loop data chunk_end (output @ [chunk_type] @ len_bytes @ crc_bytes @ chunk_body))))
      else Inr output)"
  by pat_completeness auto
termination
  by (relation "measure (\<lambda>(data, offset, output). length data - offset)") (auto simp: MAX_UNCOMPRESSED_CHUNK_SIZE_def)

declare frame_compress_loop.simps [simp del]

definition frame_compress :: "bytes \<Rightarrow> bytes result" where
  "frame_compress data = frame_compress_loop data 0 STREAM_IDENTIFIER"

text \<open>The body of one data chunk: the stored checksum, then the payload, compressed or not.\<close>

definition data_chunk :: "(bytes \<Rightarrow> bytes result) \<Rightarrow> bytes \<Rightarrow> bytes result" where
  "data_chunk unpack chunk_data =
     (if length chunk_data < 4 then Inl SnappyDecompressionError
      else let stored_crc = le_nat (take 4 chunk_data)
           in rbind (unpack (drop 4 chunk_data)) (\<lambda>uncompressed.
             if length uncompressed > MAX_UNCOMPRESSED_CHUNK_SIZE then Inl SnappyDecompressionError
             else let computed_crc = mask_crc (crc32c uncompressed)
                  in if stored_crc \<noteq> computed_crc then Inl SnappyDecompressionError else Inr uncompressed))"

text \<open>What a chunk appends to the output, by its type.\<close>

definition process_chunk :: "byte \<Rightarrow> nat \<Rightarrow> bytes \<Rightarrow> bytes result" where
  "process_chunk chunk_type chunk_length chunk_data =
     (if chunk_type = CHUNK_TYPE_COMPRESSED then data_chunk decompress chunk_data
      else if chunk_type = CHUNK_TYPE_UNCOMPRESSED then data_chunk Inr chunk_data
      else if chunk_type = 0xFF then
        if chunk_length \<noteq> 6 then Inl SnappyDecompressionError
        else if chunk_data \<noteq> SNAPPY_MAGIC then Inl SnappyDecompressionError
        else Inr []
      else if 0x02 \<le> chunk_type \<and> chunk_type \<le> 0x7F then Inl SnappyDecompressionError
      else Inr [])"

function frame_decompress_loop :: "bytes \<Rightarrow> bytes \<Rightarrow> nat \<Rightarrow> bytes result" where
  "frame_decompress_loop data output pos =
     (if pos < length data then
        if pos + 4 > length data then Inl SnappyDecompressionError
        else let chunk_type = data ! pos;
                 chunk_length = le_nat (py_slice data (pos + 1) (pos + 4));
                 start = pos + 4
             in if start + chunk_length > length data then Inl SnappyDecompressionError
                else rbind (process_chunk chunk_type chunk_length (py_slice data start (start + chunk_length)))
                       (\<lambda>piece. frame_decompress_loop data (output @ piece) (start + chunk_length))
      else Inr output)"
  by pat_completeness auto
termination by (relation "measure (\<lambda>(data, output, pos). length data - pos)") auto

declare frame_decompress_loop.simps [simp del]

definition frame_decompress :: "bytes \<Rightarrow> bytes result" where
  "frame_decompress data =
     (if length data < length STREAM_IDENTIFIER then Inl SnappyDecompressionError
      else if take (length STREAM_IDENTIFIER) data \<noteq> STREAM_IDENTIFIER then Inl SnappyDecompressionError
      else frame_decompress_loop data [] (length STREAM_IDENTIFIER))"

section \<open>The table computes the bit-serial CRC\<close>

text \<open>One bit at a time, as the polynomial division defines it.\<close>

definition crc32c_bitwise :: "bytes \<Rightarrow> nat" where
  "crc32c_bitwise data = foldl (\<lambda>crc byte. (crc_step ^^ 8) (crc XOR unat byte)) 0xFFFFFFFF data XOR 0xFFFFFFFF"

lemma and_1_odd: "n AND 1 \<noteq> 0 \<longleftrightarrow> odd n" for n :: nat
  by (simp add: and_one_eq odd_iff_mod_2_eq_one)

lemma crc_step_alt: "crc_step x = (if odd x then drop_bit 1 x XOR 0x82F63B78 else drop_bit 1 x)"
  unfolding crc_step_def and_1_odd ..

lemma crc_step_xor: "crc_step (x XOR y) = crc_step x XOR crc_step y"
proof -
  have "(a XOR p) XOR (b XOR p) = a XOR b" for a b p :: nat
    by (rule bit_eqI) (auto simp: bit_xor_iff)
  then show ?thesis
    by (cases "odd x"; cases "odd y") (simp_all add: crc_step_alt even_xor_iff drop_bit_xor xor.assoc, simp_all add: xor.commute)
qed

lemma crc_steps_xor: "(crc_step ^^ n) (x XOR y) = (crc_step ^^ n) x XOR (crc_step ^^ n) y"
  by (induction n) (simp_all add: crc_step_xor)

lemma crc_steps_push: "(crc_step ^^ n) (push_bit n x) = x"
proof (induction n)
  case (Suc n)
  have "crc_step (2 * y) = y" for y by (simp add: crc_step_alt drop_bit_eq_div)
  moreover have "push_bit (Suc n) x = 2 * push_bit n x" by (simp add: push_bit_eq_mult)
  ultimately show ?case using Suc unfolding funpow_Suc_right comp_def by simp
qed simp

lemma crc_split: "(x AND 255) XOR push_bit 8 (drop_bit 8 x) = x" for x :: nat
proof -
  have m: "(255 :: nat) = mask 8" by (simp add: mask_eq_exp_minus_1)
  show ?thesis unfolding m
    by (rule bit_eqI) (auto simp: bit_xor_iff bit_and_iff bit_push_bit_iff bit_drop_bit_eq bit_mask_iff)
qed

lemma crc_table_step: "(crc_step ^^ 8) x = (crc32c_table ! (x AND 255)) XOR drop_bit 8 x"
proof -
  have "crc32c_table ! (x AND 255) = (crc_step ^^ 8) (x AND 255)"
    by (simp add: crc32c_table_def and_255)
  then show ?thesis
    using crc_split [of x] crc_steps_xor [of 8 "x AND 255" "push_bit 8 (drop_bit 8 x)"] crc_steps_push [of 8 "drop_bit 8 x"]
    by simp
qed

lemma drop_byte_xor: "drop_bit 8 (crc XOR unat (b :: byte)) = drop_bit 8 crc"
proof -
  have "drop_bit 8 (unat b) = 0" by (simp add: drop_bit_eq_div)
  then show ?thesis by (simp add: drop_bit_xor)
qed

lemma mask_crc_less: "mask_crc crc < 2 ^ 32"
  unfolding mask_crc_def and_mask_32 by (rule take_bit_nat_less_exp)

section \<open>Runs of chunks\<close>

text \<open>
  \<open>frame_emits seg d\<close>: read at any position of any stream, the chunks of \<open>seg\<close> append \<open>d\<close> to the output.
\<close>

definition frame_emits :: "bytes \<Rightarrow> bytes \<Rightarrow> bool" where
  "frame_emits seg d \<longleftrightarrow> (\<forall>out. advances (\<lambda>data pos out. frame_decompress_loop data out pos) seg out (out @ d))"

lemma frame_emitsD: "frame_emits seg d \<Longrightarrow> frame_decompress_loop (pre @ seg @ rest) out (length pre) =
     frame_decompress_loop (pre @ seg @ rest) (out @ d) (length (pre @ seg))"
  by (simp add: frame_emits_def advances_def)

lemma frame_emits_Nil [simp]: "frame_emits [] []"
  by (simp add: frame_emits_def)

lemma frame_emits_append: "frame_emits s1 d1 \<Longrightarrow> frame_emits s2 d2 \<Longrightarrow> frame_emits (s1 @ s2) (d1 @ d2)"
  unfolding frame_emits_def by (metis advances_trans append.assoc)

lemma frame_emits_chunk:
  assumes "process_chunk t (length body) body = Inr piece" and "length body < 2 ^ 24"
  shows "frame_emits ([t] @ le_bytes 3 (length body) @ body) piece"
  unfolding frame_emits_def advances_def
proof (intro allI)
  fix pre rest out :: bytes
  let ?seg = "[t] @ le_bytes 3 (length body) @ body"
  let ?data = "pre @ ?seg @ rest"
  have len: "length ?data = length pre + (4 + length body) + length rest" by simp
  have ty: "?data ! length pre = t" by (simp add: nth_append)
  have "py_slice ?data (length pre + 1) (length pre + 4) = le_bytes 3 (length body)"
    by (simp add: py_slice_def del: le_bytes.simps)
  then have cl: "le_nat (py_slice ?data (length pre + 1) (length pre + 4)) = length body"
    using assms(2) by (simp del: le_bytes.simps)
  have sl: "py_slice ?data (length pre + 4) (length pre + 4 + length body) = body"
    by (simp add: py_slice_def del: le_bytes.simps)
  have "frame_decompress_loop ?data out (length pre) = frame_decompress_loop ?data (out @ piece) (length pre + 4 + length body)"
    by (subst frame_decompress_loop.simps) (simp only: ty cl sl Let_def assms(1) rbind_Inr, simp only: len, simp)
  then show "frame_decompress_loop ?data out (length pre) = frame_decompress_loop ?data (out @ piece) (length (pre @ ?seg))"
    by (simp add: add.assoc del: le_bytes.simps)
qed

lemma data_chunk_crc:
  assumes "unpack payload = Inr d" and "length d \<le> 65536"
  shows "data_chunk unpack (le_bytes 4 (mask_crc (crc32c d)) @ payload) = Inr d"
proof -
  have "le_nat (le_bytes 4 (mask_crc (crc32c d))) = mask_crc (crc32c d)"
    using mask_crc_less by (simp del: le_bytes.simps)
  then show ?thesis using assms
    by (simp add: data_chunk_def MAX_UNCOMPRESSED_CHUNK_SIZE_def del: le_bytes.simps)
qed

lemma length_STREAM_IDENTIFIER [simp]: "length STREAM_IDENTIFIER = 10"
  by (simp add: STREAM_IDENTIFIER_def SNAPPY_MAGIC_def)

lemma identifier_emits: "frame_emits STREAM_IDENTIFIER []"
proof -
  have l: "length SNAPPY_MAGIC = 6" by (simp add: SNAPPY_MAGIC_def)
  have "process_chunk 0xFF (length SNAPPY_MAGIC) SNAPPY_MAGIC = Inr []"
    unfolding process_chunk_def CHUNK_TYPE_COMPRESSED_def CHUNK_TYPE_UNCOMPRESSED_def l by simp
  moreover have "length SNAPPY_MAGIC < 2 ^ 24" unfolding l by simp
  ultimately have "frame_emits ([0xFF] @ le_bytes 3 (length SNAPPY_MAGIC) @ SNAPPY_MAGIC) []"
    by (rule frame_emits_chunk)
  moreover have "le_bytes 3 6 = [6, 0, 0]" by (simp add: le_bytes_numeral)
  ultimately show ?thesis unfolding STREAM_IDENTIFIER_def l by simp
qed

text \<open>A chunk as the compressor writes it, in either form.\<close>

lemma chunk_emits:
  assumes "compress d = Inr c" and "length d \<le> 65536"
    and "(t, body) = (if length c < length d then (CHUNK_TYPE_COMPRESSED, c) else (CHUNK_TYPE_UNCOMPRESSED, d))"
  shows "frame_emits ([t] @ le_bytes 3 (4 + length body) @ le_bytes 4 (mask_crc (crc32c d)) @ body) d \<and> length body \<le> 65536"
proof -
  have dc: "decompress c = Inr d"
    using compress_spec [of d "[]"] assms(1,2) by simp
  have len: "length body \<le> 65536" using assms(2,3) by (simp split: if_splits)
  let ?b = "le_bytes 4 (mask_crc (crc32c d)) @ body"
  have "process_chunk t (length ?b) ?b = Inr d"
    using assms(3) data_chunk_crc [of decompress c d] data_chunk_crc [of Inr d d] dc assms(2)
    by (auto simp: process_chunk_def CHUNK_TYPE_COMPRESSED_def CHUNK_TYPE_UNCOMPRESSED_def simp del: le_bytes.simps split: if_splits)
  then have "frame_emits ([t] @ le_bytes 3 (length ?b) @ ?b) d"
    using len by (intro frame_emits_chunk) (simp_all del: le_bytes.simps)
  with len show ?thesis by (simp del: le_bytes.simps)
qed

lemma frame_compress_loop_spec:
  assumes "offset \<le> length data"
  shows "\<exists>seg. frame_compress_loop data offset out = Inr (out @ seg) \<and> frame_emits seg (drop offset data)"
  using assms
proof (induction "length data - offset" arbitrary: offset out rule: less_induct)
  case less
  show ?case
  proof (cases "offset < length data")
    case True
    define e where "e = min (offset + MAX_UNCOMPRESSED_CHUNK_SIZE) (length data)"
    let ?d = "py_slice data offset e"
    have e: "offset < e" "e \<le> length data" "length ?d \<le> 65536"
      using True by (auto simp: e_def MAX_UNCOMPRESSED_CHUNK_SIZE_def py_slice_def)
    obtain c where c: "compress ?d = Inr c" using compress_spec [of ?d] e(3) by auto
    obtain t body where tb: "(t, body) = (if length c < length ?d then (CHUNK_TYPE_COMPRESSED, c) else (CHUNK_TYPE_UNCOMPRESSED, ?d))"
      by (metis surj_pair)
    let ?s = "[t] @ le_bytes 3 (4 + length body) @ le_bytes 4 (mask_crc (crc32c ?d)) @ body"
    have s1: "frame_emits ?s ?d" and len: "length body \<le> 65536" using chunk_emits [OF c e(3) tb] by blast+
    have b: "to_bytes_le 3 (4 + length body) = Inr (le_bytes 3 (4 + length body))"
        "to_bytes_le 4 (mask_crc (crc32c ?d)) = Inr (le_bytes 4 (mask_crc (crc32c ?d)))"
      using len mask_crc_less [of "crc32c ?d"] by (simp_all add: to_bytes_le_def del: le_bytes.simps)
    have "length data - e < length data - offset" using e by simp
    from less.hyps [OF this e(2), of "out @ ?s"] obtain s2
      where s2: "frame_compress_loop data e (out @ ?s) = Inr ((out @ ?s) @ s2)" "frame_emits s2 (drop e data)" by blast
    have "frame_compress_loop data offset out = Inr (out @ ?s @ s2)"
      using True c s2(1) b by (subst frame_compress_loop.simps)
        (simp only: if_True Let_def e_def [symmetric] rbind_Inr tb [symmetric] prod.case append.assoc)
    moreover have "?d @ drop e data = drop offset data"
      using e(1) append_take_drop_id [of "e - offset" "drop offset data"] by (simp add: py_slice_def)
    ultimately show ?thesis using frame_emits_append [OF s1 s2(2)] by auto
  next
    case False
    with less.prems show ?thesis by (subst frame_compress_loop.simps) simp
  qed
qed

lemma frame_compress_spec:
  "\<exists>f. frame_compress data = Inr f \<and> take 10 f = STREAM_IDENTIFIER \<and> 10 \<le> length f \<and> frame_emits f data"
proof -
  obtain seg where "frame_compress_loop data 0 STREAM_IDENTIFIER = Inr (STREAM_IDENTIFIER @ seg)" "frame_emits seg data"
    using frame_compress_loop_spec [of 0 data] by auto
  then show ?thesis using frame_emits_append [OF identifier_emits, of seg data]
    by (simp add: frame_compress_def STREAM_IDENTIFIER_def SNAPPY_MAGIC_def)
qed

lemma frame_decompress_emits:
  assumes "frame_emits f data" and "take 10 f = STREAM_IDENTIFIER" and "10 \<le> length f"
  shows "frame_decompress f = Inr data"
proof -
  have st: "f = STREAM_IDENTIFIER @ drop 10 f" using assms(2) append_take_drop_id [of 10 f] by simp
  have "frame_decompress_loop f [] 10 = frame_decompress_loop f [] 0"
    using frame_emitsD [OF identifier_emits, of "[]" "drop 10 f" "[]"] st by simp
  also have "\<dots> = frame_decompress_loop f data (length f)"
    using frame_emitsD [OF assms(1), of "[]" "[]" "[]"] by simp
  also have "\<dots> = Inr data" by (subst frame_decompress_loop.simps) simp
  finally show ?thesis using assms(2,3) by (simp add: frame_decompress_def)
qed

section \<open>Malformed input\<close>

lemma decompress_error: "decompress data = Inl e \<Longrightarrow> e = SnappyDecompressionError"
  using decode_varint_error decompress_loop_error
  by (auto simp: decompress_def rbind_eq_Inl reraise_def split: if_splits sum.splits)

lemma process_chunk_error: "process_chunk t n d = Inl e \<Longrightarrow> e = SnappyDecompressionError"
  using decompress_error
  by (auto simp: process_chunk_def data_chunk_def rbind_eq_Inl Let_def split: if_splits)

lemma frame_decompress_loop_error: "frame_decompress_loop data out pos = Inl e \<Longrightarrow> e = SnappyDecompressionError"
proof (induction data out pos rule: frame_decompress_loop.induct)
  case (1 data out pos)
  note p = "1.prems" [unfolded frame_decompress_loop.simps [of data out pos]]
  from p process_chunk_error "1.IH" show ?case by (auto simp: Let_def rbind_eq_Inl split: if_splits)
qed

section \<open>Properties\<close>

text \<open>
  Property C19: the table-driven \<^verbatim>\<open>_crc32c\<close> computes the same checksum as the bit-serial division by the
  Castagnoli polynomial, for every byte string.
\<close>

theorem crc32c_table_correct: "crc32c data = crc32c_bitwise data"
  unfolding crc32c_def crc32c_bitwise_def crc_table_step drop_byte_xor by simp

text \<open>
  Property C15: framing never fails, and the framed stream decompresses to the data, across chunk borders
  and for compressed and raw chunks alike; concatenated streams decompress to the concatenated data.
\<close>

theorem frame_roundtrip:
  "\<exists>f g. frame_compress data = Inr f \<and> frame_compress data' = Inr g \<and>
     frame_decompress f = Inr data \<and> frame_decompress (f @ g) = Inr (data @ data')"
proof -
  obtain f where f: "frame_compress data = Inr f" "take 10 f = STREAM_IDENTIFIER" "10 \<le> length f" "frame_emits f data"
    using frame_compress_spec by blast
  obtain g where g: "frame_compress data' = Inr g" "frame_emits g data'"
    using frame_compress_spec by blast
  have "frame_decompress (f @ g) = Inr (data @ data')"
    using f by (intro frame_decompress_emits frame_emits_append f(4) g(2)) simp_all
  with frame_decompress_emits [OF f(4,2,3)] f(1) g(1) show ?thesis by blast
qed

text \<open>
  Property C27: on any input \<^verbatim>\<open>frame_decompress\<close> either returns or raises \<^verbatim>\<open>SnappyDecompressionError\<close>, the one
  exception its callers handle; input without the stream identifier is always rejected.
\<close>

theorem frame_decompress_safe:
  "(case frame_decompress data of Inl e \<Rightarrow> e = SnappyDecompressionError | Inr out \<Rightarrow> take 10 data = STREAM_IDENTIFIER)"
proof (cases "frame_decompress data")
  case (Inl e)
  then show ?thesis using frame_decompress_loop_error by (auto simp: frame_decompress_def split: if_splits)
next
  case (Inr out)
  then show ?thesis by (auto simp: frame_decompress_def split: if_splits)
qed

end
