(* ===== verification/Reqresp_Codec.thy ===== *)
theory Reqresp_Codec
  imports Snappy_Frame
begin

text \<open>
  The request/response wire format, \<^verbatim>\<open>node/networking/reqresp/codec.py\<close>: a varint with the length of
  the SSZ payload, the payload in Snappy frames, and for responses a leading code byte.
\<close>

definition MAX_PAYLOAD_SIZE :: nat where
  "MAX_PAYLOAD_SIZE = 10 * 1024 * 1024"

definition encode_framed :: "bytes \<Rightarrow> bytes result" where
  "encode_framed ssz_data =
     (if length ssz_data > MAX_PAYLOAD_SIZE then Inl CodecError
      else rbind (frame_compress ssz_data) (\<lambda>compressed.
        rbind (encode_varint (int (length ssz_data)) 10) (\<lambda>length_prefix. Inr (length_prefix @ compressed))))"

definition decode_framed :: "bytes \<Rightarrow> nat \<Rightarrow> bytes result" where
  "decode_framed data offset =
     rbind (reraise VarintError CodecError (decode_varint data offset 10)) (\<lambda>(declared_length, varint_size).
       if declared_length > MAX_PAYLOAD_SIZE then Inl CodecError
       else let compressed_data = drop (offset + varint_size) data
            in rbind (reraise SnappyDecompressionError CodecError (frame_decompress compressed_data)) (\<lambda>decompressed.
                 if length decompressed \<noteq> declared_length then Inl CodecError else Inr decompressed))"

definition encode_request :: "bytes \<Rightarrow> bytes result" where
  "encode_request ssz_data = encode_framed ssz_data"

definition decode_request :: "bytes \<Rightarrow> bytes result" where
  "decode_request data = (if data = [] then Inl CodecError else decode_framed data 0)"

datatype response_code = SUCCESS | INVALID_REQUEST | SERVER_ERROR | RESOURCE_UNAVAILABLE

primrec code_value :: "response_code \<Rightarrow> byte" where
  "code_value SUCCESS = 0"
| "code_value INVALID_REQUEST = 1"
| "code_value SERVER_ERROR = 2"
| "code_value RESOURCE_UNAVAILABLE = 3"

text \<open>\<^verbatim>\<open>cls(raw_code)\<close> with the fallback for codes the enum does not have.\<close>

definition interpret_code :: "byte \<Rightarrow> response_code" where
  "interpret_code raw_code =
     (if raw_code = 0 then SUCCESS else if raw_code = 1 then INVALID_REQUEST
      else if raw_code = 2 then SERVER_ERROR else if raw_code = 3 then RESOURCE_UNAVAILABLE
      else if raw_code \<le> 127 then SERVER_ERROR else INVALID_REQUEST)"

definition response_encode :: "response_code \<Rightarrow> bytes \<Rightarrow> bytes result" where
  "response_encode code ssz_data = rbind (encode_framed ssz_data) (\<lambda>framed. Inr ([code_value code] @ framed))"

definition response_decode :: "bytes \<Rightarrow> (response_code \<times> bytes) result" where
  "response_decode data =
     (if data = [] then Inl CodecError
      else if length data < 2 then Inl CodecError
      else let code = interpret_code (data ! 0)
           in rbind (decode_framed data 1) (\<lambda>decompressed. Inr (code, decompressed)))"

section \<open>Lemmas\<close>

lemma framed_roundtrip:
  assumes "length ssz \<le> MAX_PAYLOAD_SIZE"
  shows "\<exists>w. encode_framed ssz = Inr w \<and> 2 \<le> length w \<and> (\<forall>pre. decode_framed (pre @ w) (length pre) = Inr ssz)"
proof -
  obtain f where f: "frame_compress ssz = Inr f" "frame_decompress f = Inr ssz" "10 \<le> length f"
    using frame_compress_spec [of ssz] frame_decompress_emits by blast
  have ok: "varint_ok 10 (length ssz)" using assms by (simp add: varint_ok_def MAX_PAYLOAD_SIZE_def)
  let ?w = "varint_groups (length ssz) @ f"
  have "encode_framed ssz = Inr ?w"
    using assms f(1) ok by (simp add: encode_framed_def encode_varint_Inr [THEN iffD2])
  moreover have "decode_framed (pre @ ?w) (length pre) = Inr ssz" for pre
    using varint.dec_enc [OF ok, of pre f] assms f(2) by (simp add: decode_framed_def)
  ultimately show ?thesis using f(3) by auto
qed

lemma frame_decompress_error: "frame_decompress data = Inl e \<Longrightarrow> e = SnappyDecompressionError"
  using frame_decompress_loop_error by (auto simp: frame_decompress_def split: if_splits)

lemma decode_framed_error: "decode_framed data offset = Inl e \<Longrightarrow> e = CodecError"
  by (auto simp: decode_framed_def rbind_eq_Inl reraise_def Let_def
      split: if_splits sum.splits dest!: decode_varint_error frame_decompress_error)

lemma decode_framed_bound: "decode_framed data offset = Inr ssz \<Longrightarrow> length ssz \<le> MAX_PAYLOAD_SIZE"
  by (auto simp: decode_framed_def Let_def split: if_splits)

lemma interpret_code_value [simp]: "interpret_code (code_value c) = c"
  by (cases c) (simp_all add: interpret_code_def)

section \<open>Properties\<close>

text \<open>
  Property C16: every payload up to \<^verbatim>\<open>MAX_PAYLOAD_SIZE\<close> can be sent as a request and as a response with
  any code, and the receiver decodes exactly that code and payload.
\<close>

theorem reqresp_roundtrip:
  assumes "length ssz \<le> MAX_PAYLOAD_SIZE"
  shows "\<exists>q w. encode_request ssz = Inr q \<and> decode_request q = Inr ssz \<and>
    response_encode code ssz = Inr w \<and> response_decode w = Inr (code, ssz)"
proof -
  obtain w where w: "encode_framed ssz = Inr w" "2 \<le> length w" "\<And>pre. decode_framed (pre @ w) (length pre) = Inr ssz"
    using framed_roundtrip [OF assms] by blast
  have "decode_request w = Inr ssz" using w(2) w(3) [of "[]"] by (auto simp: decode_request_def)
  moreover have "response_decode ([code_value code] @ w) = Inr (code, ssz)"
    using w(2) w(3) [of "[code_value code]"] by (auto simp: response_decode_def)
  ultimately show ?thesis using w(1) by (simp add: encode_request_def response_encode_def)
qed

theorem reqresp_roundtrip_witness:
  "\<exists>q w. encode_request [1, 2] = Inr q \<and> decode_request q = Inr [1, 2] \<and>
    response_encode RESOURCE_UNAVAILABLE [1, 2] = Inr w \<and> response_decode w = Inr (RESOURCE_UNAVAILABLE, [1, 2])"
  by (rule reqresp_roundtrip) (simp add: MAX_PAYLOAD_SIZE_def)

text \<open>
  Property C25: no input makes the decoders raise anything but \<^verbatim>\<open>CodecError\<close> or return more than
  \<^verbatim>\<open>MAX_PAYLOAD_SIZE\<close> bytes, and an oversized payload is rejected by the encoder.
\<close>

theorem reqresp_safe:
  "(case response_decode data of Inl e \<Rightarrow> e = CodecError | Inr (code, ssz) \<Rightarrow> length ssz \<le> MAX_PAYLOAD_SIZE) \<and>
   (case decode_request data of Inl e \<Rightarrow> e = CodecError | Inr ssz \<Rightarrow> length ssz \<le> MAX_PAYLOAD_SIZE) \<and>
   (case encode_request data of Inl e \<Rightarrow> e = CodecError \<and> length data > MAX_PAYLOAD_SIZE | Inr w \<Rightarrow> length data \<le> MAX_PAYLOAD_SIZE)"
proof (intro conjI)
  show "case response_decode data of Inl e \<Rightarrow> e = CodecError | Inr (code, ssz) \<Rightarrow> length ssz \<le> MAX_PAYLOAD_SIZE"
    by (cases "decode_framed data 1") (auto simp: response_decode_def decode_framed_error decode_framed_bound)
  show "case decode_request data of Inl e \<Rightarrow> e = CodecError | Inr ssz \<Rightarrow> length ssz \<le> MAX_PAYLOAD_SIZE"
    by (cases "decode_framed data 0") (auto simp: decode_request_def decode_framed_error decode_framed_bound)
  show "case encode_request data of Inl e \<Rightarrow> e = CodecError \<and> length data > MAX_PAYLOAD_SIZE | Inr w \<Rightarrow> length data \<le> MAX_PAYLOAD_SIZE"
    using framed_roundtrip [of data] by (cases "length data \<le> MAX_PAYLOAD_SIZE") (auto simp: encode_request_def encode_framed_def)
qed

end
