(* ===== verification/Py_Str.thy ===== *)
theory Py_Str
  imports Py_Prelude
begin

text \<open>
  Python strings as lists of code points, literals, and the strict UTF-8 codec of
  \<^verbatim>\<open>str.encode("utf-8")\<close> and \<^verbatim>\<open>bytes.decode("utf-8")\<close>.
\<close>

type_synonym pystr = "nat list"

text \<open>An ASCII literal of the source.\<close>

definition lit :: "string \<Rightarrow> pystr" where
  "lit s = map of_char s"

text \<open>Code points that may be encoded: all but the surrogates.\<close>

definition scalar :: "nat \<Rightarrow> bool" where
  "scalar c \<longleftrightarrow> c < 0x110000 \<and> \<not> (0xD800 \<le> c \<and> c < 0xE000)"

definition str_ok :: "pystr \<Rightarrow> bool" where
  "str_ok s \<longleftrightarrow> list_all scalar s"

section \<open>UTF-8\<close>

definition utf8_char :: "nat \<Rightarrow> bytes" where
  "utf8_char c = map word_of_nat
     (if c < 0x80 then [c]
      else if c < 0x800 then [0xC0 + c div 64, 0x80 + c mod 64]
      else if c < 0x10000 then [0xE0 + c div 4096, 0x80 + c div 64 mod 64, 0x80 + c mod 64]
      else [0xF0 + c div 262144, 0x80 + c div 4096 mod 64, 0x80 + c div 64 mod 64, 0x80 + c mod 64])"

definition utf8_encode :: "pystr \<Rightarrow> bytes result" where
  "utf8_encode s = (if str_ok s then Inr (concat (map utf8_char s)) else Inl UnicodeEncodeError)"

definition is_cont :: "byte \<Rightarrow> bool" where
  "is_cont b \<longleftrightarrow> 0x80 \<le> unat b \<and> unat b < 0xC0"

text \<open>The first code point of a byte string and the bytes it takes.\<close>

definition utf8_next :: "bytes \<Rightarrow> (nat \<times> bytes) option" where
  "utf8_next bs =
     (case bs of [] \<Rightarrow> None | b # r \<Rightarrow>
        let n = unat b in
        if n < 0x80 then Some (n, r)
        else if 0xC2 \<le> n \<and> n < 0xE0 then
          (case r of c1 # r1 \<Rightarrow> if is_cont c1 then Some ((n - 0xC0) * 64 + (unat c1 - 0x80), r1) else None | _ \<Rightarrow> None)
        else if 0xE0 \<le> n \<and> n < 0xF0 then
          (case r of c1 # c2 # r2 \<Rightarrow>
             let c = (n - 0xE0) * 4096 + (unat c1 - 0x80) * 64 + (unat c2 - 0x80)
             in if is_cont c1 \<and> is_cont c2 \<and> 0x800 \<le> c \<and> scalar c then Some (c, r2) else None | _ \<Rightarrow> None)
        else if 0xF0 \<le> n \<and> n < 0xF5 then
          (case r of c1 # c2 # c3 # r3 \<Rightarrow>
             let c = (n - 0xF0) * 262144 + (unat c1 - 0x80) * 4096 + (unat c2 - 0x80) * 64 + (unat c3 - 0x80)
             in if is_cont c1 \<and> is_cont c2 \<and> is_cont c3 \<and> 0x10000 \<le> c \<and> scalar c then Some (c, r3) else None | _ \<Rightarrow> None)
        else None)"

lemma utf8_next_shorter: "utf8_next bs = Some (c, r) \<Longrightarrow> length r < length bs"
  by (auto simp: utf8_next_def Let_def split: list.splits if_splits)

function utf8_decode :: "bytes \<Rightarrow> pystr result" where
  "utf8_decode bs =
     (if bs = [] then Inr []
      else case utf8_next bs of
        None \<Rightarrow> Inl UnicodeDecodeError
      | Some (c, r) \<Rightarrow> rbind (utf8_decode r) (\<lambda>s. Inr (c # s)))"
  by pat_completeness auto
termination by (relation "measure length") (auto dest: utf8_next_shorter)

declare utf8_decode.simps [simp del]

lemma utf8_decode_Nil [simp]: "utf8_decode [] = Inr []"
  by (simp add: utf8_decode.simps)

lemma cont_byte: "x < 64 \<Longrightarrow> is_cont (word_of_nat (0x80 + x)) \<and> unat (word_of_nat (0x80 + x) :: byte) = 0x80 + x"
  by (simp add: is_cont_def unat_of_nat_byte del: of_nat_add)

lemma split_64: "c div 4096 * 4096 + c div 64 mod 64 * 64 + c mod 64 = c" for c :: nat
proof -
  have "c div 64 div 64 = c div 4096" using div_mult2_eq [of c 64 64] by simp
  then show ?thesis using div_mult_mod_eq [of "c div 64" 64] div_mult_mod_eq [of c 64] by linarith
qed

lemma utf8_next_char:
  assumes "scalar c"
  shows "utf8_next (utf8_char c @ r) = Some (c, r)"
proof -
  have c: "c < 0x110000" using assms by (simp add: scalar_def)
  consider "c < 0x80" | "0x80 \<le> c" "c < 0x800" | "0x800 \<le> c" "c < 0x10000" | "0x10000 \<le> c" by linarith
  then show ?thesis
  proof cases
    case 1
    then show ?thesis by (simp add: utf8_char_def utf8_next_def)
  next
    case 2
    have d: "2 \<le> c div 64" "c div 64 < 32" using 2 by (simp_all add: less_mult_imp_div_less less_eq_div_iff_mult_less_eq)
    then have "unat (word_of_nat (0xC0 + c div 64) :: byte) = 0xC0 + c div 64" by (simp del: of_nat_add)
    with 2 d cont_byte [of "c mod 64"] show ?thesis
      by (simp add: utf8_char_def utf8_next_def Let_def del: of_nat_add)
  next
    case 3
    have d: "c div 4096 < 16" using 3 by (simp add: less_mult_imp_div_less)
    then have u: "unat (word_of_nat (0xE0 + c div 4096) :: byte) = 0xE0 + c div 4096" by (simp del: of_nat_add)
    have "c div 4096 * 4096 + c div 64 mod 64 * 64 + c mod 64 = c"
      by (rule split_64)
    with 3 d u cont_byte [of "c mod 64"] cont_byte [of "c div 64 mod 64"] assms show ?thesis
      by (simp add: utf8_char_def utf8_next_def Let_def del: of_nat_add)
  next
    case 4
    have d: "c div 262144 < 5" using c by (simp add: less_mult_imp_div_less)
    then have u: "unat (word_of_nat (0xF0 + c div 262144) :: byte) = 0xF0 + c div 262144" by (simp del: of_nat_add)
    have "c div 262144 * 262144 + c div 4096 mod 64 * 4096 + c div 64 mod 64 * 64 + c mod 64 = c"
    proof -
      have "c div 4096 div 64 = c div 262144" using div_mult2_eq [of c 4096 64] by simp
      then show ?thesis using split_64 [of c] div_mult_mod_eq [of "c div 4096" 64] by linarith
    qed
    with 4 d u cont_byte [of "c mod 64"] cont_byte [of "c div 64 mod 64"] cont_byte [of "c div 4096 mod 64"] assms show ?thesis
      by (simp add: utf8_char_def utf8_next_def Let_def del: of_nat_add)
  qed
qed

lemma utf8_char_nonempty [simp]: "utf8_char c \<noteq> []"
  by (simp add: utf8_char_def)

lemma utf8_decode_encode: "utf8_encode s = Inr bs \<Longrightarrow> utf8_decode bs = Inr s"
proof (induction s arbitrary: bs)
  case (Cons c s)
  then have "scalar c" "utf8_encode s = Inr (concat (map utf8_char s))" "bs = utf8_char c @ concat (map utf8_char s)"
    by (simp_all add: utf8_encode_def str_ok_def split: if_splits)
  with Cons.IH utf8_next_char [of c] show ?case by (subst utf8_decode.simps) simp
qed (simp add: utf8_encode_def str_ok_def)

lemma utf8_decode_error: "utf8_decode bs = Inl e \<Longrightarrow> e = UnicodeDecodeError"
proof (induction bs rule: utf8_decode.induct)
  case (1 bs)
  note p = "1.prems" [unfolded utf8_decode.simps [of bs]]
  from p "1.IH" show ?case by (auto simp: rbind_eq_Inl split: if_splits option.splits prod.splits)
qed

lemma utf8_ascii: "list_all (\<lambda>c. c < 128) s \<Longrightarrow> utf8_encode s = Inr (map word_of_nat s)"
  by (induction s) (auto simp: utf8_encode_def str_ok_def scalar_def utf8_char_def split: if_splits)

section \<open>String operations\<close>

text \<open>\<^verbatim>\<open>s.split(sep)\<close> for a one-character separator.\<close>

fun split_on :: "nat \<Rightarrow> pystr \<Rightarrow> pystr list" where
  "split_on sep [] = [[]]"
| "split_on sep (c # cs) =
     (if c = sep then [] # split_on sep cs
      else case split_on sep cs of [] \<Rightarrow> [[c]] | w # ws \<Rightarrow> (c # w) # ws)"

definition starts_with :: "pystr \<Rightarrow> pystr \<Rightarrow> bool" where
  "starts_with s prefix \<longleftrightarrow> take (length prefix) s = prefix"

lemma split_on_word: "sep \<notin> set w \<Longrightarrow> split_on sep w = [w]"
  by (induction w) auto

lemma split_on_append: "sep \<notin> set w \<Longrightarrow> split_on sep (w @ sep # r) = w # split_on sep r"
  by (induction w) auto

text \<open>\<^verbatim>\<open>str(n)\<close> of a non-negative integer.\<close>

fun dec_digits :: "nat \<Rightarrow> nat list" where
  "dec_digits n = (if n < 10 then [n] else dec_digits (n div 10) @ [n mod 10])"

declare dec_digits.simps [simp del]

definition nat_str :: "nat \<Rightarrow> pystr" where
  "nat_str n = map (\<lambda>d. 48 + d) (dec_digits n)"

text \<open>
  \<^verbatim>\<open>int(s)\<close>: surrounding white space, a sign, decimal digits with single underscores between them, at
  most 4300 digits. The Unicode character database supplies the white space and the decimal digits
  beyond ASCII.
\<close>

record ucd =
  ucd_space :: "nat \<Rightarrow> bool"
  ucd_digit :: "nat \<Rightarrow> nat option"

text \<open>No white space and no digits beyond ASCII.\<close>

definition ascii_ucd :: ucd where
  "ascii_ucd = \<lparr>ucd_space = (\<lambda>_. False), ucd_digit = (\<lambda>_. None)\<rparr>"

definition is_space :: "ucd \<Rightarrow> nat \<Rightarrow> bool" where
  "is_space u c \<longleftrightarrow> (9 \<le> c \<and> c \<le> 13) \<or> (28 \<le> c \<and> c \<le> 32) \<or> (128 \<le> c \<and> ucd_space u c)"

definition digit_of :: "ucd \<Rightarrow> nat \<Rightarrow> nat option" where
  "digit_of u c = (if 48 \<le> c \<and> c \<le> 57 then Some (c - 48) else if 128 \<le> c then ucd_digit u c else None)"

fun int_digits :: "ucd \<Rightarrow> bool \<Rightarrow> pystr \<Rightarrow> nat list option" where
  "int_digits u after_digit [] = (if after_digit then Some [] else None)"
| "int_digits u after_digit (c # cs) =
     (if c = 95 then (if after_digit then int_digits u False cs else None)
      else case digit_of u c of None \<Rightarrow> None | Some d \<Rightarrow> map_option (Cons d) (int_digits u True cs))"

definition py_strip :: "ucd \<Rightarrow> pystr \<Rightarrow> pystr" where
  "py_strip u s = rev (dropWhile (is_space u) (rev (dropWhile (is_space u) s)))"

definition int_body :: "ucd \<Rightarrow> pystr \<Rightarrow> nat result" where
  "int_body u s = (case int_digits u False s of None \<Rightarrow> Inl ValueError
     | Some ds \<Rightarrow> if length ds > 4300 then Inl ValueError else Inr (foldl (\<lambda>n d. n * 10 + d) 0 ds))"

definition py_int :: "ucd \<Rightarrow> pystr \<Rightarrow> int result" where
  "py_int u s =
     (case py_strip u s of
        [] \<Rightarrow> Inl ValueError
      | c # cs \<Rightarrow>
          if c = 45 then rbind (int_body u cs) (\<lambda>n. Inr (- int n))
          else if c = 43 then rbind (int_body u cs) (\<lambda>n. Inr (int n))
          else rbind (int_body u (c # cs)) (\<lambda>n. Inr (int n)))"

lemma dec_digits_less: "\<forall>d \<in> set (dec_digits n). d < 10"
  by (induction n rule: dec_digits.induct) (subst dec_digits.simps, auto)

lemma dec_digits_nonempty [simp]: "dec_digits n \<noteq> []"
  by (subst dec_digits.simps) simp

lemma dec_digits_value: "foldl (\<lambda>n d. n * 10 + d) 0 (dec_digits n) = n"
  by (induction n rule: dec_digits.induct) (subst dec_digits.simps, auto)

lemma length_dec_digits: "n < 10 ^ k \<Longrightarrow> 0 < k \<Longrightarrow> length (dec_digits n) \<le> k"
proof (induction n arbitrary: k rule: dec_digits.induct)
  case (1 n)
  show ?case
  proof (cases "n < 10")
    case True
    then show ?thesis using "1.prems" by (subst dec_digits.simps) simp
  next
    case False
    then obtain j where j: "k = Suc j" "0 < j" using "1.prems" by (cases k; cases "k - 1") auto
    have "n div 10 < 10 ^ j" using "1.prems"(1) j(1) by (simp add: less_mult_imp_div_less mult.commute)
    then show ?thesis using "1.IH" [OF False, of j] j False by (subst dec_digits.simps) simp
  qed
qed

lemma int_digits_ascii: "\<forall>d \<in> set ds. d < 10 \<Longrightarrow> after_digit \<or> ds \<noteq> [] \<Longrightarrow> int_digits u after_digit (map (\<lambda>d. 48 + d) ds) = Some ds"
  by (induction ds arbitrary: after_digit) (auto simp: digit_of_def)

lemma py_strip_id: "s \<noteq> [] \<Longrightarrow> \<not> is_space u (hd s) \<Longrightarrow> \<not> is_space u (last s) \<Longrightarrow> py_strip u s = s"
proof -
  assume a: "s \<noteq> []" "\<not> is_space u (hd s)" "\<not> is_space u (last s)"
  then have "dropWhile (is_space u) s = s" by (cases s) simp_all
  moreover have "dropWhile (is_space u) (rev s) = rev s" using a by (cases s rule: rev_cases) simp_all
  ultimately show ?thesis by (simp add: py_strip_def)
qed

lemma nat_str_chars: "c \<in> set (nat_str n) \<Longrightarrow> 48 \<le> c \<and> c < 58"
  using dec_digits_less [of n] by (auto simp: nat_str_def)

lemma nat_str_nonempty [simp]: "nat_str n \<noteq> []"
  by (simp add: nat_str_def)

lemma py_int_nat_str: "n < 2 ^ 64 \<Longrightarrow> py_int u (nat_str n) = Inr (int n)"
proof -
  assume n: "n < 2 ^ 64"
  have "hd (nat_str n) \<in> set (nat_str n)" "last (nat_str n) \<in> set (nat_str n)" by simp_all
  then have hd: "48 \<le> hd (nat_str n)" "hd (nat_str n) < 58" "48 \<le> last (nat_str n)" "last (nat_str n) < 58"
    using nat_str_chars by blast+
  then have strip: "py_strip u (nat_str n) = nat_str n"
    by (intro py_strip_id) (auto simp: is_space_def)
  have "(2 :: nat) ^ 64 < 10 ^ 20" by simp
  then have "length (dec_digits n) \<le> 20" using n by (intro length_dec_digits) simp_all
  then have "int_body u (nat_str n) = Inr n"
    using int_digits_ascii [OF dec_digits_less, of False n u] dec_digits_value [of n] by (simp add: int_body_def nat_str_def)
  moreover obtain c cs where "nat_str n = c # cs" by (cases "nat_str n") simp_all
  ultimately show ?thesis using strip hd by (simp add: py_int_def)
qed

end
