(* ===== verification/Gossip_Rpc.thy ===== *)
theory Gossip_Rpc
  imports Varint Py_Str
begin

unbundle bit_operations_syntax

text \<open>
  The protobuf wire format of gossipsub RPCs, \<^verbatim>\<open>node/networking/gossipsub/rpc.py\<close>: field tags,
  length-delimited fields, the eight message types with their encoders and decoders, and the skipping
  of unknown fields. Every decoder is the same loop over fields with its own field handler.
\<close>

section \<open>Fields\<close>

definition WIRE_TYPE_VARINT :: nat where "WIRE_TYPE_VARINT = 0"
definition WIRE_TYPE_64BIT :: nat where "WIRE_TYPE_64BIT = 1"
definition WIRE_TYPE_LENGTH_DELIMITED :: nat where "WIRE_TYPE_LENGTH_DELIMITED = 2"
definition WIRE_TYPE_32BIT :: nat where "WIRE_TYPE_32BIT = 5"

lemmas wire_types = WIRE_TYPE_VARINT_def WIRE_TYPE_64BIT_def WIRE_TYPE_LENGTH_DELIMITED_def WIRE_TYPE_32BIT_def

text \<open>The default cap of the varint codec, which all callers of this module use.\<close>

abbreviation read_varint :: "bytes \<Rightarrow> nat \<Rightarrow> (nat \<times> nat) result" where
  "read_varint data pos \<equiv> decode_varint data pos 10"

abbreviation write_varint :: "int \<Rightarrow> bytes result" where
  "write_varint v \<equiv> encode_varint v 10"

definition decode_length_at :: "bytes \<Rightarrow> nat \<Rightarrow> (nat \<times> nat) result" where
  "decode_length_at data pos =
     rbind (read_varint data pos) (\<lambda>(len, consumed).
       let new_pos = pos + consumed
       in if new_pos + len > length data then Inl ProtobufDecodeError else Inr (len, new_pos))"

definition pb_encode_tag :: "nat \<Rightarrow> nat \<Rightarrow> bytes result" where
  "pb_encode_tag field_number wire_type = write_varint (int (push_bit 3 field_number OR wire_type))"

definition pb_decode_tag :: "bytes \<Rightarrow> nat \<Rightarrow> (nat \<times> nat \<times> nat) result" where
  "pb_decode_tag data pos =
     rbind (read_varint data pos) (\<lambda>(tag, consumed). Inr (drop_bit 3 tag, tag AND 7, pos + consumed))"

definition encode_length_delimited :: "nat \<Rightarrow> bytes \<Rightarrow> bytes result" where
  "encode_length_delimited field_number data =
     rbind (pb_encode_tag field_number WIRE_TYPE_LENGTH_DELIMITED) (\<lambda>tag.
       rbind (write_varint (int (length data))) (\<lambda>len. Inr (tag @ len @ data)))"

definition pb_encode_string :: "nat \<Rightarrow> pystr \<Rightarrow> bytes result" where
  "pb_encode_string field_number s = rbind (utf8_encode s) (encode_length_delimited field_number)"

definition pb_encode_bytes :: "nat \<Rightarrow> bytes \<Rightarrow> bytes result" where
  "pb_encode_bytes field_number b = encode_length_delimited field_number b"

definition pb_encode_bool :: "nat \<Rightarrow> bool \<Rightarrow> bytes result" where
  "pb_encode_bool field_number b =
     rbind (pb_encode_tag field_number WIRE_TYPE_VARINT) (\<lambda>tag.
       rbind (write_varint (if b then 1 else 0)) (\<lambda>v. Inr (tag @ v)))"

definition pb_encode_uint64 :: "nat \<Rightarrow> int \<Rightarrow> bytes result" where
  "pb_encode_uint64 field_number n =
     rbind (pb_encode_tag field_number WIRE_TYPE_VARINT) (\<lambda>tag.
       rbind (write_varint n) (\<lambda>v. Inr (tag @ v)))"

definition skip_field :: "bytes \<Rightarrow> nat \<Rightarrow> nat \<Rightarrow> nat result" where
  "skip_field data pos wire_type =
     (if wire_type = WIRE_TYPE_VARINT then rbind (read_varint data pos) (\<lambda>(_, consumed). Inr (pos + consumed))
      else if wire_type = WIRE_TYPE_LENGTH_DELIMITED then rbind (decode_length_at data pos) (\<lambda>(len, pos). Inr (pos + len))
      else if wire_type = WIRE_TYPE_32BIT then Inr (pos + 4)
      else if wire_type = WIRE_TYPE_64BIT then Inr (pos + 8)
      else Inl ProtobufDecodeError)"

text \<open>
  \<^verbatim>\<open>while pos < len(data)\<close>: read a tag, let the handler consume the field. The handlers never move
  back, so \<open>max\<close> is the position they return (\<open>forward\<close> below); it makes the loop's progress evident.
\<close>

type_synonym 's field_step = "bytes \<Rightarrow> nat \<Rightarrow> nat \<Rightarrow> nat \<Rightarrow> 's \<Rightarrow> ('s \<times> nat) result"

lemma read_varint_consumes: "decode_varint data pos m = Inr (v, k) \<Longrightarrow> 0 < k \<and> pos + k \<le> length data"
  unfolding decode_varint_def by (drule varint_loop_bounds) auto

function field_loop :: "'s field_step \<Rightarrow> bytes \<Rightarrow> nat \<Rightarrow> 's \<Rightarrow> 's result" where
  "field_loop step data pos s =
     (if pos < length data then
        rbind (pb_decode_tag data pos) (\<lambda>(field_num, wire_type, pos).
          rbind (step data field_num wire_type pos s) (\<lambda>(s', pos'). field_loop step data (max pos pos') s'))
      else Inr s)"
  by pat_completeness auto
termination
  by (relation "measure (\<lambda>(step, data, pos, s). length data - pos)")
     (auto simp: pb_decode_tag_def dest!: read_varint_consumes)

declare field_loop.simps [simp del]

definition skip_step :: "'s field_step" where
  "skip_step data field_num wire_type pos s = rbind (skip_field data pos wire_type) (\<lambda>pos'. Inr (s, pos'))"

text \<open>
  The handler of the messages that first split off every length-delimited field and then look at
  its number.
\<close>

definition delimited_step :: "(nat \<Rightarrow> bytes \<Rightarrow> 's \<Rightarrow> 's result) \<Rightarrow> 's field_step" where
  "delimited_step act data field_num wire_type pos s =
     (if wire_type = WIRE_TYPE_LENGTH_DELIMITED then
        rbind (decode_length_at data pos) (\<lambda>(len, pos).
          rbind (act field_num (py_slice data pos (pos + len)) s) (\<lambda>s'. Inr (s', pos + len)))
      else skip_step data field_num wire_type pos s)"

section \<open>Messages\<close>

record sub_opts =
  so_subscribe :: bool
  so_topic_id :: pystr

definition sub_opts_encode :: "sub_opts \<Rightarrow> bytes result" where
  "sub_opts_encode m = rconcat [pb_encode_bool 1 (so_subscribe m), pb_encode_string 2 (so_topic_id m)]"

definition sub_opts_step :: "sub_opts field_step" where
  "sub_opts_step data field_num wire_type pos m =
     (if field_num = 1 \<and> wire_type = WIRE_TYPE_VARINT then
        rbind (read_varint data pos) (\<lambda>(subscribe_flag, consumed).
          Inr (m\<lparr>so_subscribe := subscribe_flag \<noteq> 0\<rparr>, pos + consumed))
      else if field_num = 2 \<and> wire_type = WIRE_TYPE_LENGTH_DELIMITED then
        rbind (decode_length_at data pos) (\<lambda>(len, pos).
          rbind (utf8_decode (py_slice data pos (pos + len))) (\<lambda>t. Inr (m\<lparr>so_topic_id := t\<rparr>, pos + len)))
      else skip_step data field_num wire_type pos m)"

definition sub_opts_decode :: "bytes \<Rightarrow> sub_opts result" where
  "sub_opts_decode data = field_loop sub_opts_step data 0 \<lparr>so_subscribe = False, so_topic_id = []\<rparr>"

record message =
  m_from_peer :: bytes
  m_data :: bytes
  m_seqno :: bytes
  m_topic :: pystr
  m_signature :: bytes
  m_key :: bytes

definition empty_message :: message where
  "empty_message = \<lparr>m_from_peer = [], m_data = [], m_seqno = [], m_topic = [], m_signature = [], m_key = []\<rparr>"

definition message_encode :: "message \<Rightarrow> bytes result" where
  "message_encode m = rconcat
     [emit_if (m_from_peer m \<noteq> []) (pb_encode_bytes 1 (m_from_peer m)),
      emit_if (m_data m \<noteq> []) (pb_encode_bytes 2 (m_data m)),
      emit_if (m_seqno m \<noteq> []) (pb_encode_bytes 3 (m_seqno m)),
      emit_if (m_topic m \<noteq> []) (pb_encode_string 4 (m_topic m)),
      emit_if (m_signature m \<noteq> []) (pb_encode_bytes 5 (m_signature m)),
      emit_if (m_key m \<noteq> []) (pb_encode_bytes 6 (m_key m))]"

definition message_field :: "nat \<Rightarrow> bytes \<Rightarrow> message \<Rightarrow> message result" where
  "message_field field_num field_data m =
     (if field_num = 1 then Inr (m\<lparr>m_from_peer := field_data\<rparr>)
      else if field_num = 2 then Inr (m\<lparr>m_data := field_data\<rparr>)
      else if field_num = 3 then Inr (m\<lparr>m_seqno := field_data\<rparr>)
      else if field_num = 4 then rbind (utf8_decode field_data) (\<lambda>t. Inr (m\<lparr>m_topic := t\<rparr>))
      else if field_num = 5 then Inr (m\<lparr>m_signature := field_data\<rparr>)
      else if field_num = 6 then Inr (m\<lparr>m_key := field_data\<rparr>)
      else Inr m)"

definition message_decode :: "bytes \<Rightarrow> message result" where
  "message_decode data = field_loop (delimited_step message_field) data 0 empty_message"

record control_ihave =
  ih_topic_id :: pystr
  ih_message_ids :: "bytes list"

definition ihave_encode :: "control_ihave \<Rightarrow> bytes result" where
  "ihave_encode m = rconcat
     (emit_if (ih_topic_id m \<noteq> []) (pb_encode_string 1 (ih_topic_id m)) # map (pb_encode_bytes 2) (ih_message_ids m))"

definition ihave_field :: "nat \<Rightarrow> bytes \<Rightarrow> control_ihave \<Rightarrow> control_ihave result" where
  "ihave_field field_num field_data m =
     (if field_num = 1 then rbind (utf8_decode field_data) (\<lambda>t. Inr (m\<lparr>ih_topic_id := t\<rparr>))
      else if field_num = 2 then Inr (m\<lparr>ih_message_ids := ih_message_ids m @ [field_data]\<rparr>)
      else Inr m)"

definition ihave_decode :: "bytes \<Rightarrow> control_ihave result" where
  "ihave_decode data = field_loop (delimited_step ihave_field) data 0 \<lparr>ih_topic_id = [], ih_message_ids = []\<rparr>"

text \<open>\<^verbatim>\<open>ControlIWant\<close> and \<^verbatim>\<open>ControlIDontWant\<close> are both a list of message ids.\<close>

definition ids_step :: "bytes list field_step" where
  "ids_step data field_num wire_type pos ids =
     (if field_num = 1 \<and> wire_type = WIRE_TYPE_LENGTH_DELIMITED then
        rbind (decode_length_at data pos) (\<lambda>(len, pos). Inr (ids @ [py_slice data pos (pos + len)], pos + len))
      else skip_step data field_num wire_type pos ids)"

record control_iwant =
  iw_message_ids :: "bytes list"

definition iwant_encode :: "control_iwant \<Rightarrow> bytes result" where
  "iwant_encode m = rconcat (map (pb_encode_bytes 1) (iw_message_ids m))"

definition iwant_decode :: "bytes \<Rightarrow> control_iwant result" where
  "iwant_decode data = rbind (field_loop ids_step data 0 []) (\<lambda>ids. Inr \<lparr>iw_message_ids = ids\<rparr>)"

record control_graft =
  gr_topic_id :: pystr

definition graft_encode :: "control_graft \<Rightarrow> bytes result" where
  "graft_encode m = rconcat [emit_if (gr_topic_id m \<noteq> []) (pb_encode_string 1 (gr_topic_id m))]"

definition graft_step :: "control_graft field_step" where
  "graft_step data field_num wire_type pos m =
     (if field_num = 1 \<and> wire_type = WIRE_TYPE_LENGTH_DELIMITED then
        rbind (decode_length_at data pos) (\<lambda>(len, pos).
          rbind (utf8_decode (py_slice data pos (pos + len))) (\<lambda>t. Inr (m\<lparr>gr_topic_id := t\<rparr>, pos + len)))
      else skip_step data field_num wire_type pos m)"

definition graft_decode :: "bytes \<Rightarrow> control_graft result" where
  "graft_decode data = field_loop graft_step data 0 \<lparr>gr_topic_id = []\<rparr>"

record control_prune =
  pr_topic_id :: pystr
  pr_backoff :: int

definition prune_encode :: "control_prune \<Rightarrow> bytes result" where
  "prune_encode m = rconcat
     [emit_if (pr_topic_id m \<noteq> []) (pb_encode_string 1 (pr_topic_id m)),
      emit_if (pr_backoff m > 0) (pb_encode_uint64 3 (pr_backoff m))]"

definition prune_step :: "control_prune field_step" where
  "prune_step data field_num wire_type pos m =
     (if field_num = 1 \<and> wire_type = WIRE_TYPE_LENGTH_DELIMITED then
        rbind (decode_length_at data pos) (\<lambda>(len, pos).
          rbind (utf8_decode (py_slice data pos (pos + len))) (\<lambda>t. Inr (m\<lparr>pr_topic_id := t\<rparr>, pos + len)))
      else if field_num = 3 \<and> wire_type = WIRE_TYPE_VARINT then
        rbind (read_varint data pos) (\<lambda>(backoff, consumed). Inr (m\<lparr>pr_backoff := int backoff\<rparr>, pos + consumed))
      else skip_step data field_num wire_type pos m)"

definition prune_decode :: "bytes \<Rightarrow> control_prune result" where
  "prune_decode data = field_loop prune_step data 0 \<lparr>pr_topic_id = [], pr_backoff = 0\<rparr>"

record control_idontwant =
  idw_message_ids :: "bytes list"

definition idontwant_encode :: "control_idontwant \<Rightarrow> bytes result" where
  "idontwant_encode m = rconcat (map (pb_encode_bytes 1) (idw_message_ids m))"

definition idontwant_decode :: "bytes \<Rightarrow> control_idontwant result" where
  "idontwant_decode data = rbind (field_loop ids_step data 0 []) (\<lambda>ids. Inr \<lparr>idw_message_ids = ids\<rparr>)"

record control_message =
  c_ihave :: "control_ihave list"
  c_iwant :: "control_iwant list"
  c_graft :: "control_graft list"
  c_prune :: "control_prune list"
  c_idontwant :: "control_idontwant list"

definition empty_control :: control_message where
  "empty_control = \<lparr>c_ihave = [], c_iwant = [], c_graft = [], c_prune = [], c_idontwant = []\<rparr>"

definition is_empty_control :: "control_message \<Rightarrow> bool" where
  "is_empty_control c \<longleftrightarrow>
     \<not> (c_ihave c \<noteq> [] \<or> c_iwant c \<noteq> [] \<or> c_graft c \<noteq> [] \<or> c_prune c \<noteq> [] \<or> c_idontwant c \<noteq> [])"

text \<open>An embedded message: its encoding as a length-delimited field.\<close>

definition embed :: "nat \<Rightarrow> ('m \<Rightarrow> bytes result) \<Rightarrow> 'm \<Rightarrow> bytes result" where
  "embed field_number enc m = rbind (enc m) (encode_length_delimited field_number)"

definition control_encode :: "control_message \<Rightarrow> bytes result" where
  "control_encode c = rconcat
     (map (embed 1 ihave_encode) (c_ihave c) @ map (embed 2 iwant_encode) (c_iwant c) @
      map (embed 3 graft_encode) (c_graft c) @ map (embed 4 prune_encode) (c_prune c) @
      map (embed 5 idontwant_encode) (c_idontwant c))"

definition control_field :: "nat \<Rightarrow> bytes \<Rightarrow> control_message \<Rightarrow> control_message result" where
  "control_field field_num field_data c =
     (if field_num = 1 then rbind (ihave_decode field_data) (\<lambda>m. Inr (c\<lparr>c_ihave := c_ihave c @ [m]\<rparr>))
      else if field_num = 2 then rbind (iwant_decode field_data) (\<lambda>m. Inr (c\<lparr>c_iwant := c_iwant c @ [m]\<rparr>))
      else if field_num = 3 then rbind (graft_decode field_data) (\<lambda>m. Inr (c\<lparr>c_graft := c_graft c @ [m]\<rparr>))
      else if field_num = 4 then rbind (prune_decode field_data) (\<lambda>m. Inr (c\<lparr>c_prune := c_prune c @ [m]\<rparr>))
      else if field_num = 5 then rbind (idontwant_decode field_data) (\<lambda>m. Inr (c\<lparr>c_idontwant := c_idontwant c @ [m]\<rparr>))
      else Inr c)"

definition control_decode :: "bytes \<Rightarrow> control_message result" where
  "control_decode data = field_loop (delimited_step control_field) data 0 empty_control"

record rpc =
  r_subscriptions :: "sub_opts list"
  r_publish :: "message list"
  r_control :: "control_message option"

definition rpc_encode :: "rpc \<Rightarrow> bytes result" where
  "rpc_encode r = rconcat
     (map (embed 1 sub_opts_encode) (r_subscriptions r) @ map (embed 2 message_encode) (r_publish r) @
      (case r_control r of None \<Rightarrow> [] | Some c \<Rightarrow> [emit_if (\<not> is_empty_control c) (embed 3 control_encode c)]))"

definition rpc_field :: "nat \<Rightarrow> bytes \<Rightarrow> rpc \<Rightarrow> rpc result" where
  "rpc_field field_num field_data r =
     (if field_num = 1 then rbind (sub_opts_decode field_data) (\<lambda>m. Inr (r\<lparr>r_subscriptions := r_subscriptions r @ [m]\<rparr>))
      else if field_num = 2 then rbind (message_decode field_data) (\<lambda>m. Inr (r\<lparr>r_publish := r_publish r @ [m]\<rparr>))
      else if field_num = 3 then rbind (control_decode field_data) (\<lambda>c. Inr (r\<lparr>r_control := Some c\<rparr>))
      else Inr r)"

definition rpc_decode :: "bytes \<Rightarrow> rpc result" where
  "rpc_decode data = field_loop (delimited_step rpc_field) data 0 \<lparr>r_subscriptions = [], r_publish = [], r_control = None\<rparr>"

definition rpc_subscription :: "pystr list \<Rightarrow> bool \<Rightarrow> rpc" where
  "rpc_subscription topics subscribe =
     \<lparr>r_subscriptions = map (\<lambda>t. \<lparr>so_subscribe = subscribe, so_topic_id = t\<rparr>) topics, r_publish = [], r_control = None\<rparr>"

definition rpc_graft :: "pystr list \<Rightarrow> rpc" where
  "rpc_graft topics =
     \<lparr>r_subscriptions = [], r_publish = [],
      r_control = Some (empty_control\<lparr>c_graft := map (\<lambda>t. \<lparr>gr_topic_id = t\<rparr>) topics\<rparr>)\<rparr>"

section \<open>Reading fields back\<close>

lemma tag_value: "w < 8 \<Longrightarrow> push_bit 3 n OR w = 8 * n + w" for n w :: nat
  using or_push_add [of w 3 n] by (simp add: or.commute add.commute)

lemma and_7_mod: "n AND 7 = n mod 8" for n :: nat
  using take_bit_eq_mask [of 3 n] by (simp add: mask_eq_exp_minus_1 take_bit_eq_mod)

lemma write_varint_Inr: "write_varint (int v) = Inr b \<longleftrightarrow> varint_ok 10 v \<and> b = varint_groups v"
  by (simp add: encode_varint_Inr)

lemma pb_encode_tag_Inr: "w < 8 \<Longrightarrow> pb_encode_tag n w = Inr b \<longleftrightarrow> varint_ok 10 (8 * n + w) \<and> b = varint_groups (8 * n + w)"
  by (simp only: pb_encode_tag_def tag_value write_varint_Inr)

lemma pb_decode_tag_at:
  assumes "w < 8" and "varint_ok 10 (8 * n + w)"
  shows "pb_decode_tag (pre @ varint_groups (8 * n + w) @ rest) (length pre)
    = Inr (n, w, length (pre @ varint_groups (8 * n + w)))"
  using varint.dec_enc [OF assms(2), of pre rest] assms(1) by (simp add: pb_decode_tag_def and_7_mod drop_bit_eq_div)

lemma field_loop_end [simp]: "field_loop step b (length b) s = Inr s"
  by (simp add: field_loop.simps)

lemma field_loop_field:
  assumes w: "w < 8" "varint_ok 10 (8 * n + w)"
    and step: "\<And>pre rest. step (pre @ body @ rest) n w (length pre) s = Inr (s', length (pre @ body))"
  shows "advances (field_loop step) (varint_groups (8 * n + w) @ body) s s'"
  unfolding advances_def
proof (intro allI)
  fix pre rest
  let ?tag = "varint_groups (8 * n + w)"
  have "length pre < length (pre @ (?tag @ body) @ rest)" by simp
  moreover have "pb_decode_tag (pre @ (?tag @ body) @ rest) (length pre) = Inr (n, w, length (pre @ ?tag))"
    using pb_decode_tag_at [OF w, of pre "body @ rest"] by simp
  moreover have "step (pre @ (?tag @ body) @ rest) n w (length (pre @ ?tag)) s = Inr (s', length (pre @ ?tag @ body))"
    using step [of "pre @ ?tag" rest] by simp
  ultimately show "field_loop step (pre @ (?tag @ body) @ rest) (length pre) s
      = field_loop step (pre @ (?tag @ body) @ rest) (length (pre @ ?tag @ body)) s'"
    by (subst field_loop.simps) (simp add: max_def)
qed

lemma writes_delimited:
  assumes "\<And>data pos p. decode_length_at data pos = Inr (length d, p) \<Longrightarrow> py_slice data p (p + length d) = d \<Longrightarrow>
      step data n WIRE_TYPE_LENGTH_DELIMITED pos s = Inr (s', p + length d)"
  shows "writes (field_loop step) (encode_length_delimited n d) s s'"
  unfolding writes_def
proof (intro allI impI)
  fix b
  assume "encode_length_delimited n d = Inr b"
  then have ok: "varint_ok 10 (8 * n + 2)" "varint_ok 10 (length d)"
    and b: "b = varint_groups (8 * n + 2) @ varint_groups (length d) @ d"
    by (auto simp: encode_length_delimited_def WIRE_TYPE_LENGTH_DELIMITED_def pb_encode_tag_Inr write_varint_Inr)
  let ?l = "varint_groups (length d)"
  have "step (pre @ (?l @ d) @ rest) n 2 (length pre) s = Inr (s', length (pre @ ?l @ d))" for pre rest
  proof -
    have "decode_length_at (pre @ (?l @ d) @ rest) (length pre) = Inr (length d, length (pre @ ?l))"
      using varint.dec_enc [OF ok(2), of pre "d @ rest"] by (simp add: decode_length_at_def)
    moreover have "py_slice (pre @ (?l @ d) @ rest) (length (pre @ ?l)) (length (pre @ ?l) + length d) = d"
      by (simp add: py_slice_def)
    ultimately show ?thesis using assms [unfolded WIRE_TYPE_LENGTH_DELIMITED_def] by simp
  qed
  then show "advances (field_loop step) b s s'" unfolding b using ok(1) by (intro field_loop_field) simp_all
qed

lemma writes_uint64:
  assumes "\<And>data pos k. read_varint data pos = Inr (nat v, k) \<Longrightarrow> step data n WIRE_TYPE_VARINT pos s = Inr (s', pos + k)"
  shows "writes (field_loop step) (pb_encode_uint64 n v) s s'"
  unfolding writes_def
proof (intro allI impI)
  fix b
  assume "pb_encode_uint64 n v = Inr b"
  then have ok: "varint_ok 10 (8 * n + 0)" "varint_ok 10 (nat v)"
    and b: "b = varint_groups (8 * n + 0) @ varint_groups (nat v)"
    by (auto simp: pb_encode_uint64_def WIRE_TYPE_VARINT_def pb_encode_tag_Inr encode_varint_Inr)
  have "step (pre @ varint_groups (nat v) @ rest) n 0 (length pre) s = Inr (s', length (pre @ varint_groups (nat v)))" for pre rest
    using assms [unfolded WIRE_TYPE_VARINT_def, OF varint.dec_enc [OF ok(2)]] by simp
  then show "advances (field_loop step) b s s'" unfolding b using ok(1) by (intro field_loop_field) simp_all
qed

lemma pb_encode_bool_uint64: "pb_encode_bool n b = pb_encode_uint64 n (if b then 1 else 0)"
  by (simp add: pb_encode_bool_def pb_encode_uint64_def)

lemma writes_string:
  assumes "\<And>d data pos p. utf8_decode d = Inr t \<Longrightarrow> decode_length_at data pos = Inr (length d, p) \<Longrightarrow>
      py_slice data p (p + length d) = d \<Longrightarrow> step data n WIRE_TYPE_LENGTH_DELIMITED pos s = Inr (s', p + length d)"
  shows "writes (field_loop step) (pb_encode_string n t) s s'"
proof (cases "utf8_encode t")
  case (Inr d)
  then show ?thesis using writes_delimited [of d step n s s'] assms utf8_decode_encode [OF Inr]
    by (simp add: pb_encode_string_def)
qed (simp add: pb_encode_string_def writes_def)

text \<open>The same facts for the messages that go through \<^const>\<open>delimited_step\<close>.\<close>

lemma writes_delimited_act:
  "act n d s = Inr s' \<Longrightarrow> writes (field_loop (delimited_step act)) (encode_length_delimited n d) s s'"
  by (rule writes_delimited) (simp add: delimited_step_def)

lemma writes_bytes_act:
  "act n d s = Inr s' \<Longrightarrow> writes (field_loop (delimited_step act)) (pb_encode_bytes n d) s s'"
  by (simp add: pb_encode_bytes_def writes_delimited_act)

lemma writes_string_act:
  "(\<And>d. utf8_decode d = Inr t \<Longrightarrow> act n d s = Inr s') \<Longrightarrow> writes (field_loop (delimited_step act)) (pb_encode_string n t) s s'"
  by (rule writes_string) (simp add: delimited_step_def)

lemma writes_embed:
  "(\<And>d. enc m = Inr d \<Longrightarrow> act n d s = Inr s') \<Longrightarrow> writes (field_loop (delimited_step act)) (embed n enc m) s s'"
  by (cases "enc m") (simp_all add: embed_def writes_def [of _ "Inl _"] writes_delimited_act)

lemma field_loop_run: "writes (field_loop step) m s s' \<Longrightarrow> m = Inr b \<Longrightarrow> field_loop step b 0 s = Inr s'"
  using writes_run by fastforce

section \<open>Round trips of the messages\<close>

lemma sub_opts_roundtrip:
  assumes "sub_opts_encode m = Inr b"
  shows "sub_opts_decode b = Inr m"
proof -
  let ?s0 = "\<lparr>so_subscribe = False, so_topic_id = []\<rparr>"
  have "writes (field_loop sub_opts_step) (sub_opts_encode m) ?s0 m"
    unfolding sub_opts_encode_def pb_encode_bool_uint64
  proof (intro writes_Cons [OF writes_uint64 [where s' = "?s0\<lparr>so_subscribe := so_subscribe m\<rparr>"]] writes_Cons [OF writes_string writes_Nil])
  qed (auto simp: sub_opts_step_def wire_types split: if_splits)
  with assms show ?thesis unfolding sub_opts_decode_def by (rule field_loop_run [rotated])
qed

lemma message_roundtrip:
  assumes "message_encode m = Inr b"
  shows "message_decode b = Inr m"
proof -
  let ?loop = "field_loop (delimited_step message_field)" and ?s0 = "empty_message"
  let ?s1 = "?s0\<lparr>m_from_peer := m_from_peer m\<rparr>" let ?s2 = "?s1\<lparr>m_data := m_data m\<rparr>"
  let ?s3 = "?s2\<lparr>m_seqno := m_seqno m\<rparr>" let ?s4 = "?s3\<lparr>m_topic := m_topic m\<rparr>"
  let ?s5 = "?s4\<lparr>m_signature := m_signature m\<rparr>"
  have "writes ?loop (message_encode m) ?s0 m"
    unfolding message_encode_def
    by (intro writes_Cons [where ?s1.0 = ?s1] writes_Cons [where ?s1.0 = ?s2] writes_Cons [where ?s1.0 = ?s3]
          writes_Cons [where ?s1.0 = ?s4] writes_Cons [where ?s1.0 = ?s5] writes_Cons [OF _ writes_Nil]
          writes_emit_if writes_bytes_act writes_string_act)
       (simp_all add: message_field_def empty_message_def)
  with assms show ?thesis unfolding message_decode_def by (rule field_loop_run [rotated])
qed

lemma ihave_roundtrip:
  assumes "ihave_encode m = Inr b"
  shows "ihave_decode b = Inr m"
proof -
  let ?loop = "field_loop (delimited_step ihave_field)" and ?s0 = "\<lparr>ih_topic_id = [], ih_message_ids = []\<rparr>"
  let ?s1 = "?s0\<lparr>ih_topic_id := ih_topic_id m\<rparr>"
  let ?add = "\<lambda>m d. m\<lparr>ih_message_ids := ih_message_ids m @ [d]\<rparr>"
  have "writes ?loop (rconcat (map (pb_encode_bytes 2) (ih_message_ids m))) ?s1 (foldl ?add ?s1 (ih_message_ids m))"
    by (intro writes_map writes_bytes_act) (simp add: ihave_field_def)
  moreover have "foldl ?add s ids = s\<lparr>ih_message_ids := ih_message_ids s @ ids\<rparr>" for s :: control_ihave and ids
    by (induction ids arbitrary: s) simp_all
  then have "foldl ?add ?s1 (ih_message_ids m) = m" by simp
  ultimately have "writes ?loop (ihave_encode m) ?s0 m"
    unfolding ihave_encode_def
    by (intro writes_Cons [where ?s1.0 = ?s1] writes_emit_if writes_string_act) (simp_all add: ihave_field_def)
  with assms show ?thesis unfolding ihave_decode_def by (rule field_loop_run [rotated])
qed

lemma ids_roundtrip:
  assumes "rconcat (map (pb_encode_bytes 1) ids) = Inr b"
  shows "field_loop ids_step b 0 [] = Inr ids"
proof -
  have "writes (field_loop ids_step) (rconcat (map (pb_encode_bytes 1) ids)) [] (foldl (\<lambda>acc d. acc @ [d]) [] ids)"
    unfolding pb_encode_bytes_def by (intro writes_map writes_delimited) (simp add: ids_step_def)
  then show ?thesis using field_loop_run [OF _ assms] foldl_snoc_map [of "\<lambda>d. d" "[]" ids] by simp
qed

lemma iwant_roundtrip: "iwant_encode m = Inr b \<Longrightarrow> iwant_decode b = Inr m"
  by (simp add: iwant_encode_def iwant_decode_def ids_roundtrip)

lemma idontwant_roundtrip: "idontwant_encode m = Inr b \<Longrightarrow> idontwant_decode b = Inr m"
  by (simp add: idontwant_encode_def idontwant_decode_def ids_roundtrip)

lemma graft_roundtrip:
  assumes "graft_encode m = Inr b"
  shows "graft_decode b = Inr m"
proof -
  have "writes (field_loop graft_step) (graft_encode m) \<lparr>gr_topic_id = []\<rparr> m"
    unfolding graft_encode_def by (intro writes_Cons [OF _ writes_Nil] writes_emit_if writes_string) (simp_all add: graft_step_def)
  with assms show ?thesis unfolding graft_decode_def by (rule field_loop_run [rotated])
qed

text \<open>A backoff that is not positive is not written, so it comes back as zero.\<close>

definition prune_norm :: "control_prune \<Rightarrow> control_prune" where
  "prune_norm m = m\<lparr>pr_backoff := max 0 (pr_backoff m)\<rparr>"

lemma prune_roundtrip:
  assumes "prune_encode m = Inr b"
  shows "prune_decode b = Inr (prune_norm m)"
proof -
  let ?s0 = "\<lparr>pr_topic_id = [], pr_backoff = 0\<rparr>"
  have "writes (field_loop prune_step) (prune_encode m) ?s0 (prune_norm m)"
    unfolding prune_encode_def
    by (intro writes_Cons [where ?s1.0 = "?s0\<lparr>pr_topic_id := pr_topic_id m\<rparr>"] writes_Cons [OF _ writes_Nil]
          writes_emit_if writes_string writes_uint64)
       (simp_all add: prune_step_def prune_norm_def wire_types)
  with assms show ?thesis unfolding prune_decode_def by (rule field_loop_run [rotated])
qed

text \<open>A repeated field of embedded messages, appended one by one to a list of the state.\<close>

lemma writes_repeated:
  assumes "\<And>x s d. enc x = Inr d \<Longrightarrow> act n d s = Inr (upd (\<lambda>xs. xs @ [norm x]) s)"
    and comp: "\<And>f g s. upd f (upd g s) = upd (f \<circ> g) s" and id: "\<And>s. upd (\<lambda>xs. xs) s = s"
  shows "writes (field_loop (delimited_step act)) (rconcat (map (embed n enc) ms)) s (upd (\<lambda>xs. xs @ map norm ms) s)"
proof -
  let ?add = "\<lambda>s m. upd (\<lambda>xs. xs @ [norm m]) s"
  have "writes (field_loop (delimited_step act)) (rconcat (map (embed n enc) ms)) s (foldl ?add s ms)"
    by (intro writes_map writes_embed assms(1))
  moreover have "foldl ?add s ms = upd (\<lambda>xs. xs @ map norm ms) s"
    by (induction ms arbitrary: s) (simp_all add: comp id comp_def)
  ultimately show ?thesis by simp
qed

definition control_norm :: "control_message \<Rightarrow> control_message" where
  "control_norm c = c\<lparr>c_prune := map prune_norm (c_prune c)\<rparr>"

lemma control_roundtrip:
  assumes "control_encode c = Inr b"
  shows "control_decode b = Inr (control_norm c)"
proof -
  let ?loop = "field_loop (delimited_step control_field)"
  note field = control_field_def ihave_roundtrip iwant_roundtrip graft_roundtrip prune_roundtrip idontwant_roundtrip
  have w: "writes ?loop (rconcat (map (embed 1 ihave_encode) a)) s (c_ihave_update (\<lambda>xs. xs @ map id a) s)"
      "writes ?loop (rconcat (map (embed 2 iwant_encode) b)) s (c_iwant_update (\<lambda>xs. xs @ map id b) s)"
      "writes ?loop (rconcat (map (embed 3 graft_encode) g)) s (c_graft_update (\<lambda>xs. xs @ map id g) s)"
      "writes ?loop (rconcat (map (embed 4 prune_encode) p)) s (c_prune_update (\<lambda>xs. xs @ map prune_norm p) s)"
      "writes ?loop (rconcat (map (embed 5 idontwant_encode) i)) s (c_idontwant_update (\<lambda>xs. xs @ map id i) s)"
    for s a b g p i by (rule writes_repeated; simp add: field comp_def)+
  have "writes ?loop (control_encode c) empty_control
     (c_idontwant_update (\<lambda>xs. xs @ map id (c_idontwant c)) (c_prune_update (\<lambda>xs. xs @ map prune_norm (c_prune c))
       (c_graft_update (\<lambda>xs. xs @ map id (c_graft c)) (c_iwant_update (\<lambda>xs. xs @ map id (c_iwant c))
         (c_ihave_update (\<lambda>xs. xs @ map id (c_ihave c)) empty_control)))))"
    unfolding control_encode_def by (rule writes_append [OF w(1) writes_append [OF w(2) writes_append [OF w(3) writes_append [OF w(4) w(5)]]]])
  from field_loop_run [OF this assms] show ?thesis
    by (simp add: control_decode_def control_norm_def empty_control_def)
qed

text \<open>An RPC with an empty control message is written without it.\<close>

definition rpc_norm :: "rpc \<Rightarrow> rpc" where
  "rpc_norm r = r\<lparr>r_control := (case r_control r of None \<Rightarrow> None
     | Some c \<Rightarrow> if is_empty_control c then None else Some (control_norm c))\<rparr>"

lemma rpc_writes:
  "writes (field_loop (delimited_step rpc_field)) (rpc_encode r) \<lparr>r_subscriptions = [], r_publish = [], r_control = None\<rparr> (rpc_norm r)"
proof -
  let ?loop = "field_loop (delimited_step rpc_field)" let ?s0 = "\<lparr>r_subscriptions = [], r_publish = [], r_control = None\<rparr>"
  let ?s1 = "r_subscriptions_update (\<lambda>xs. xs @ map id (r_subscriptions r)) ?s0"
  let ?s2 = "r_publish_update (\<lambda>xs. xs @ map id (r_publish r)) ?s1"
  have 1: "writes ?loop (rconcat (map (embed 1 sub_opts_encode) (r_subscriptions r))) ?s0 ?s1"
    by (rule writes_repeated) (simp_all add: rpc_field_def sub_opts_roundtrip comp_def)
  have 2: "writes ?loop (rconcat (map (embed 2 message_encode) (r_publish r))) ?s1 ?s2"
    by (rule writes_repeated) (simp_all add: rpc_field_def message_roundtrip comp_def)
  have 3: "writes ?loop (rconcat (case r_control r of None \<Rightarrow> []
      | Some c \<Rightarrow> [emit_if (\<not> is_empty_control c) (embed 3 control_encode c)])) ?s2 (rpc_norm r)"
  proof (cases "r_control r")
    case None
    then show ?thesis by (cases r) (simp add: rpc_norm_def writes_def)
  next
    case (Some c)
    have "writes ?loop (rconcat [emit_if (\<not> is_empty_control c) (embed 3 control_encode c)]) ?s2 (rpc_norm r)"
      using Some by (intro writes_Cons [OF _ writes_Nil] writes_emit_if writes_embed)
        (simp_all add: rpc_field_def control_roundtrip rpc_norm_def)
    with Some show ?thesis by simp
  qed
  show ?thesis unfolding rpc_encode_def by (rule writes_append [OF 1 writes_append [OF 2 3]])
qed

section \<open>Progress and failures\<close>

text \<open>No handler moves back, so the position the loop continues at is the one the handler returned.\<close>

definition forward :: "'s field_step \<Rightarrow> bool" where
  "forward step \<longleftrightarrow> (\<forall>data n w pos s s' pos'. step data n w pos s = Inr (s', pos') \<longrightarrow> pos \<le> pos')"

lemma decode_length_at_forward: "decode_length_at data pos = Inr (len, p) \<Longrightarrow> pos \<le> p \<and> p + len \<le> length data"
  by (auto simp: decode_length_at_def Let_def split: if_splits)

lemma skip_step_forward: "skip_step data n w pos s = Inr (s', pos') \<Longrightarrow> pos \<le> pos'"
  by (auto simp: skip_step_def skip_field_def split: if_splits dest: decode_length_at_forward)

lemma steps_forward:
  "forward (delimited_step act)" "forward sub_opts_step" "forward ids_step" "forward graft_step" "forward prune_step"
  unfolding forward_def delimited_step_def sub_opts_step_def ids_step_def graft_step_def prune_step_def
  by (auto split: if_splits dest!: decode_length_at_forward skip_step_forward)

definition decode_failure :: "py_exn \<Rightarrow> bool" where
  "decode_failure e \<longleftrightarrow> e = VarintError \<or> e = ProtobufDecodeError \<or> e = UnicodeDecodeError"

lemma field_loop_failure:
  assumes "\<And>data n w pos s e. step data n w pos s = Inl e \<Longrightarrow> decode_failure e"
  shows "field_loop step data pos s = Inl e \<Longrightarrow> decode_failure e"
proof (induction "length data - pos" arbitrary: pos s rule: less_induct)
  case less
  note p = less.prems [unfolded field_loop.simps [of step data pos s]]
  then have lt: "pos < length data" by (auto split: if_splits)
  show ?case
  proof (cases "read_varint data pos")
    case (Inl x)
    with p lt decode_varint_error [OF Inl] show ?thesis by (simp add: pb_decode_tag_def decode_failure_def)
  next
    case (Inr tk)
    obtain t k where tk: "tk = (t, k)" by (cases tk)
    have k: "0 < k" using read_varint_consumes Inr tk by simp
    let ?step = "step data (drop_bit 3 t) (t AND 7) (pos + k) s"
    show ?thesis
    proof (cases ?step)
      case (Inl x)
      with p lt Inr tk assms [OF Inl] show ?thesis by (simp add: pb_decode_tag_def)
    next
      case Inr': (Inr r)
      obtain s' q where r: "r = (s', q)" by (cases r)
      have "field_loop step data (max (pos + k) q) s' = Inl e"
        using p lt Inr tk Inr' r by (simp add: pb_decode_tag_def)
      then show ?thesis using less.hyps [of "max (pos + k) q" s'] lt k by simp
    qed
  qed
qed

lemma decode_length_at_failure: "decode_length_at data pos = Inl e \<Longrightarrow> decode_failure e"
  by (auto simp: decode_length_at_def rbind_eq_Inl decode_failure_def Let_def dest: decode_varint_error split: if_splits)

lemma skip_step_failure: "skip_step data n w pos s = Inl e \<Longrightarrow> decode_failure e"
  by (auto simp: skip_step_def skip_field_def rbind_eq_Inl decode_failure_def [of ProtobufDecodeError] decode_failure_def [of VarintError]
      split: if_splits dest: decode_varint_error decode_length_at_failure)

lemma utf8_failure: "utf8_decode d = Inl e \<Longrightarrow> decode_failure e"
  by (auto simp: decode_failure_def dest: utf8_decode_error)

lemma varint_failure: "decode_varint data pos m = Inl e \<Longrightarrow> decode_failure e"
  by (auto simp: decode_failure_def dest: decode_varint_error)

lemmas failures = decode_length_at_failure skip_step_failure utf8_failure varint_failure

lemma delimited_failure:
  assumes "\<And>n d s e. act n d s = Inl e \<Longrightarrow> decode_failure e"
  shows "field_loop (delimited_step act) data pos s = Inl e \<Longrightarrow> decode_failure e"
  by (erule field_loop_failure [rotated])
     (auto simp: delimited_step_def rbind_eq_Inl split: if_splits dest: failures assms)

lemma leaf_failures:
  "sub_opts_decode d = Inl e \<Longrightarrow> decode_failure e" "message_decode d = Inl e \<Longrightarrow> decode_failure e"
  "ihave_decode d = Inl e \<Longrightarrow> decode_failure e" "iwant_decode d = Inl e \<Longrightarrow> decode_failure e"
  "graft_decode d = Inl e \<Longrightarrow> decode_failure e" "prune_decode d = Inl e \<Longrightarrow> decode_failure e"
  "idontwant_decode d = Inl e \<Longrightarrow> decode_failure e"
  unfolding sub_opts_decode_def message_decode_def ihave_decode_def iwant_decode_def graft_decode_def prune_decode_def
    idontwant_decode_def rbind_eq_Inl
  by (auto simp: sub_opts_step_def message_field_def ihave_field_def ids_step_def graft_step_def prune_step_def rbind_eq_Inl
      split: if_splits dest: failures elim!: field_loop_failure [rotated] delimited_failure [rotated])

lemma rpc_decode_encode: "rpc_encode r = Inr b \<Longrightarrow> rpc_decode b = Inr (rpc_norm r)"
  unfolding rpc_decode_def by (rule field_loop_run [OF rpc_writes])

lemma control_failure: "control_decode d = Inl e \<Longrightarrow> decode_failure e"
  unfolding control_decode_def
  by (erule delimited_failure [rotated]) (auto simp: control_field_def rbind_eq_Inl split: if_splits dest: leaf_failures)

section \<open>Properties\<close>

text \<open>
  Property C13: whatever RPC is encoded, decoding gives it back, with subscriptions, messages and every kind
  of control message in order. Only two values are not carried over: an empty control message comes
  back as none, and a negative prune backoff as zero.
\<close>

theorem rpc_roundtrip:
  assumes "rpc_encode r = Inr b"
  shows "rpc_decode b = Inr (rpc_norm r)"
  using assms by (rule rpc_decode_encode)

theorem rpc_roundtrip_witness:
  "\<exists>b. rpc_encode (rpc_graft [lit ''a'']) = Inr b \<and> rpc_decode b = Inr (rpc_norm (rpc_graft [lit ''a'']))"
proof -
  have e: "rpc_encode (rpc_graft [lit ''a'']) = Inr [26, 5, 26, 3, 10, 1, 97]"
    by (simp add: rpc_encode_def rpc_graft_def is_empty_control_def empty_control_def emit_if_def embed_def control_encode_def
        graft_encode_def pb_encode_string_def utf8_ascii lit_def encode_length_delimited_def pb_encode_tag_def tag_value wire_types
        encode_varint_def varint_groups_last)
  show ?thesis using e rpc_roundtrip [OF e] by blast
qed


end
