(* ===== verification/Gossip_Topic.thy ===== *)
theory Gossip_Topic
  imports Py_Str
begin

text \<open>
  Gossip topics, \<^verbatim>\<open>node/networking/gossipsub/topic.py\<close>: the topic strings and their parser. The parser
  reads the subnet number with Python's \<^verbatim>\<open>int\<close>, so it depends on the Unicode tables \<open>u\<close>.
\<close>

definition TOPIC_PREFIX :: pystr where "TOPIC_PREFIX = lit ''leanconsensus''"
definition ENCODING_POSTFIX :: pystr where "ENCODING_POSTFIX = lit ''ssz_snappy''"
definition BLOCK_TOPIC_NAME :: pystr where "BLOCK_TOPIC_NAME = lit ''block''"
definition ATTESTATION_SUBNET_TOPIC_PREFIX :: pystr where "ATTESTATION_SUBNET_TOPIC_PREFIX = lit ''attestation''"
definition AGGREGATED_ATTESTATION_TOPIC_NAME :: pystr where "AGGREGATED_ATTESTATION_TOPIC_NAME = lit ''aggregation''"

lemmas topic_names = TOPIC_PREFIX_def ENCODING_POSTFIX_def BLOCK_TOPIC_NAME_def ATTESTATION_SUBNET_TOPIC_PREFIX_def
  AGGREGATED_ATTESTATION_TOPIC_NAME_def lit_def

datatype topic_kind = BLOCK | ATTESTATION_SUBNET | AGGREGATED_ATTESTATION

primrec topic_kind_str :: "topic_kind \<Rightarrow> pystr" where
  "topic_kind_str BLOCK = BLOCK_TOPIC_NAME"
| "topic_kind_str ATTESTATION_SUBNET = ATTESTATION_SUBNET_TOPIC_PREFIX"
| "topic_kind_str AGGREGATED_ATTESTATION = AGGREGATED_ATTESTATION_TOPIC_NAME"

text \<open>\<^verbatim>\<open>TopicKind(topic_name)\<close>\<close>

definition topic_kind_of :: "pystr \<Rightarrow> topic_kind result" where
  "topic_kind_of name =
     (if name = BLOCK_TOPIC_NAME then Inr BLOCK
      else if name = ATTESTATION_SUBNET_TOPIC_PREFIX then Inr ATTESTATION_SUBNET
      else if name = AGGREGATED_ATTESTATION_TOPIC_NAME then Inr AGGREGATED_ATTESTATION
      else Inl ValueError)"

record gossip_topic =
  gt_kind :: topic_kind
  gt_network_name :: pystr
  gt_subnet_id :: "nat option"

text \<open>\<^verbatim>\<open>SubnetId(n)\<close>, a \<^verbatim>\<open>Uint64\<close>.\<close>

definition subnet_id_new :: "int \<Rightarrow> nat result" where
  "subnet_id_new n = (if 0 \<le> n \<and> n < 2 ^ 64 then Inr (nat n) else Inl SSZValueError)"

definition slash :: nat where "slash = 47"

definition topic_string :: "pystr \<Rightarrow> pystr \<Rightarrow> pystr" where
  "topic_string network_name topic_name =
     [slash] @ TOPIC_PREFIX @ [slash] @ network_name @ [slash] @ topic_name @ [slash] @ ENCODING_POSTFIX"

definition to_topic_id :: "gossip_topic \<Rightarrow> pystr result" where
  "to_topic_id t =
     (if gt_kind t = ATTESTATION_SUBNET then
        (case gt_subnet_id t of
           None \<Rightarrow> Inl ValueError
         | Some n \<Rightarrow> Inr (topic_string (gt_network_name t) (lit ''attestation_'' @ nat_str n)))
      else Inr (topic_string (gt_network_name t) (topic_kind_str (gt_kind t))))"

definition validate_fork :: "gossip_topic \<Rightarrow> pystr \<Rightarrow> unit result" where
  "validate_fork t expected_network_name =
     (if gt_network_name t \<noteq> expected_network_name then Inl ForkMismatchError else Inr ())"

definition parse_topic_string :: "pystr \<Rightarrow> (pystr \<times> pystr \<times> pystr \<times> pystr) result" where
  "parse_topic_string topic_str =
     (let topic_components = split_on slash (dropWhile (\<lambda>c. c = slash) topic_str)
      in if length topic_components \<noteq> 4 then Inl ValueError
         else Inr (topic_components ! 0, topic_components ! 1, topic_components ! 2, topic_components ! 3))"

text \<open>The fall-through of \<^verbatim>\<open>from_string\<close>: \<^verbatim>\<open>ValueError\<close> from \<^verbatim>\<open>int\<close> is swallowed, an out-of-range
  \<^verbatim>\<open>SubnetId\<close> is not.\<close>

definition plain_topic :: "pystr \<Rightarrow> pystr \<Rightarrow> gossip_topic result" where
  "plain_topic network_name topic_name =
     rbind (topic_kind_of topic_name) (\<lambda>kind. Inr \<lparr>gt_kind = kind, gt_network_name = network_name, gt_subnet_id = None\<rparr>)"

definition topic_from_string :: "ucd \<Rightarrow> pystr \<Rightarrow> gossip_topic result" where
  "topic_from_string u topic_str =
     rbind (parse_topic_string topic_str) (\<lambda>(prefix, network_name, topic_name, encoding).
       if prefix \<noteq> TOPIC_PREFIX then Inl ValueError
       else if encoding \<noteq> ENCODING_POSTFIX then Inl ValueError
       else if starts_with topic_name (lit ''attestation_'') then
         (let subnet_part = drop (length (lit ''attestation_'')) topic_name
          in case rbind (py_int u subnet_part) subnet_id_new of
               Inr n \<Rightarrow> Inr \<lparr>gt_kind = ATTESTATION_SUBNET, gt_network_name = network_name, gt_subnet_id = Some n\<rparr>
             | Inl e \<Rightarrow> if e = ValueError then plain_topic network_name topic_name else Inl e)
       else plain_topic network_name topic_name)"

definition topic_from_string_validated :: "ucd \<Rightarrow> pystr \<Rightarrow> pystr \<Rightarrow> gossip_topic result" where
  "topic_from_string_validated u topic_str expected_network_name =
     rbind (topic_from_string u topic_str) (\<lambda>topic.
       rbind (validate_fork topic expected_network_name) (\<lambda>_. Inr topic))"

definition block_topic :: "pystr \<Rightarrow> gossip_topic" where
  "block_topic network_name = \<lparr>gt_kind = BLOCK, gt_network_name = network_name, gt_subnet_id = None\<rparr>"

definition committee_aggregation_topic :: "pystr \<Rightarrow> gossip_topic" where
  "committee_aggregation_topic network_name =
     \<lparr>gt_kind = AGGREGATED_ATTESTATION, gt_network_name = network_name, gt_subnet_id = None\<rparr>"

definition attestation_subnet_topic :: "pystr \<Rightarrow> nat \<Rightarrow> gossip_topic" where
  "attestation_subnet_topic network_name subnet_id =
     \<lparr>gt_kind = ATTESTATION_SUBNET, gt_network_name = network_name, gt_subnet_id = Some subnet_id\<rparr>"

section \<open>Lemmas\<close>

lemma dropWhile_stop: "xs \<noteq> [] \<Longrightarrow> \<not> P (hd xs) \<Longrightarrow> dropWhile P (xs @ ys) = xs @ ys"
  by (cases xs) simp_all

lemma length_attestation: "length (lit ''attestation_'') = 12"
  by (simp add: lit_def)

lemma parse_topic_string_topic:
  assumes "slash \<notin> set network_name" and "slash \<notin> set topic_name"
  shows "parse_topic_string (topic_string network_name topic_name) = Inr (TOPIC_PREFIX, network_name, topic_name, ENCODING_POSTFIX)"
proof -
  have p: "slash \<notin> set TOPIC_PREFIX" "slash \<notin> set ENCODING_POSTFIX" "TOPIC_PREFIX \<noteq> []" "hd TOPIC_PREFIX \<noteq> slash"
    by (simp_all add: topic_names slash_def)
  have "dropWhile (\<lambda>c. c = slash) (topic_string network_name topic_name)
      = TOPIC_PREFIX @ slash # network_name @ slash # topic_name @ slash # ENCODING_POSTFIX"
    using dropWhile_stop [OF p(3), of "\<lambda>c. c = slash"] p(4) by (simp add: topic_string_def)
  then have "split_on slash (dropWhile (\<lambda>c. c = slash) (topic_string network_name topic_name))
      = [TOPIC_PREFIX, network_name, topic_name, ENCODING_POSTFIX]"
    using p(1,2) assms by (simp add: split_on_append split_on_word)
  then show ?thesis by (simp add: parse_topic_string_def)
qed

lemma topic_from_string_eq:
  "topic_from_string u (topic_string nn tn) =
     (if starts_with tn (lit ''attestation_'') then
        (case rbind (py_int u (drop 12 tn)) subnet_id_new of
           Inr n \<Rightarrow> Inr (attestation_subnet_topic nn n)
         | Inl e \<Rightarrow> if e = ValueError then plain_topic nn tn else Inl e)
      else plain_topic nn tn)"
  if "slash \<notin> set nn" and "slash \<notin> set tn"
  unfolding topic_from_string_def attestation_subnet_topic_def length_attestation Let_def parse_topic_string_topic [OF that]
  by simp

text \<open>A topic is well formed when the subnet is given exactly for attestation subnets.\<close>

definition topic_ok :: "gossip_topic \<Rightarrow> bool" where
  "topic_ok t \<longleftrightarrow> slash \<notin> set (gt_network_name t) \<and>
     (case gt_subnet_id t of None \<Rightarrow> gt_kind t \<noteq> ATTESTATION_SUBNET | Some n \<Rightarrow> gt_kind t = ATTESTATION_SUBNET \<and> n < 2 ^ 64)"

lemma kind_names: "slash \<notin> set (topic_kind_str k)" "\<not> starts_with (topic_kind_str k) (lit ''attestation_'')"
    "topic_kind_of (topic_kind_str k) = Inr k"
  by (cases k; simp add: topic_names slash_def starts_with_def topic_kind_of_def)+

lemma topic_roundtrip_lemma:
  assumes "topic_ok t"
  shows "\<exists>s. to_topic_id t = Inr s \<and> topic_from_string u s = Inr t"
proof (cases "gt_kind t = ATTESTATION_SUBNET")
  case True
  then obtain n where n: "gt_subnet_id t = Some n" "n < 2 ^ 64" and nn: "slash \<notin> set (gt_network_name t)"
    using assms by (auto simp: topic_ok_def split: option.splits)
  let ?tn = "lit ''attestation_'' @ nat_str n"
  have sl: "slash \<notin> set ?tn" using nat_str_chars [of slash n] by (auto simp: lit_def slash_def)
  have "starts_with ?tn (lit ''attestation_'')" "drop 12 ?tn = nat_str n" by (simp_all add: starts_with_def lit_def)
  then have "topic_from_string u (topic_string (gt_network_name t) ?tn) = Inr (attestation_subnet_topic (gt_network_name t) n)"
    using topic_from_string_eq [OF nn sl, of u] py_int_nat_str [OF n(2), of u] n(2) by (simp add: subnet_id_new_def)
  moreover have "attestation_subnet_topic (gt_network_name t) n = t"
    using True n(1) by (simp add: attestation_subnet_topic_def)
  ultimately show ?thesis using True n(1) by (simp add: to_topic_id_def)
next
  case False
  then have sn: "gt_subnet_id t = None" and nn: "slash \<notin> set (gt_network_name t)"
    using assms by (auto simp: topic_ok_def split: option.splits)
  have "topic_from_string u (topic_string (gt_network_name t) (topic_kind_str (gt_kind t))) = Inr t"
    using topic_from_string_eq [OF nn kind_names(1), of u "gt_kind t"] kind_names(2,3) [of "gt_kind t"] sn
    by (simp add: plain_topic_def)
  then show ?thesis using False by (simp add: to_topic_id_def)
qed

section \<open>Properties\<close>

text \<open>
  Property C32: a well-formed topic (no slash in the network name, a subnet number exactly for attestation
  subnets) has a topic string, and parsing that string gives the topic back; with fork validation it is
  accepted for its own network and rejected for any other.
\<close>

theorem topic_roundtrip:
  assumes "topic_ok t"
  shows "\<exists>s. to_topic_id t = Inr s \<and> topic_from_string u s = Inr t \<and>
    topic_from_string_validated u s name = (if name = gt_network_name t then Inr t else Inl ForkMismatchError)"
  using topic_roundtrip_lemma [OF assms, of u] by (auto simp: topic_from_string_validated_def validate_fork_def)

theorem topic_roundtrip_witness:
  "\<exists>s. to_topic_id (attestation_subnet_topic (lit ''dev'') 3) = Inr s \<and>
     topic_from_string ascii_ucd s = Inr (attestation_subnet_topic (lit ''dev'') 3) \<and>
     topic_from_string_validated ascii_ucd s (lit ''main'') =
       (if lit ''main'' = gt_network_name (attestation_subnet_topic (lit ''dev'') 3)
        then Inr (attestation_subnet_topic (lit ''dev'') 3) else Inl ForkMismatchError)"
  by (rule topic_roundtrip) (simp add: topic_ok_def attestation_subnet_topic_def lit_def slash_def)


end
