(* ===== verification/Peer_Id.thy ===== *)
theory Peer_Id
  imports Varint Py_Str
begin

text \<open>
  Peer identifiers, \<^verbatim>\<open>node/networking/transport/peer_id.py\<close>: Base58, the multihash and the
  protobuf public key a \<^verbatim>\<open>PeerId\<close> is derived from. SHA-256 is the parameter \<open>sha256\<close>. Base58 is
  shown to be a bijection between byte strings and the strings over its alphabet.
\<close>

section \<open>Key types and multihash codes\<close>

datatype key_type = RSA | ED25519 | SECP256K1 | ECDSA

primrec key_type_value :: "key_type \<Rightarrow> nat" where
  "key_type_value RSA = 0"
| "key_type_value ED25519 = 1"
| "key_type_value SECP256K1 = 2"
| "key_type_value ECDSA = 3"

datatype multihash_code = IDENTITY | SHA256

primrec multihash_code_value :: "multihash_code \<Rightarrow> byte" where
  "multihash_code_value IDENTITY = 0x00"
| "multihash_code_value SHA256 = 0x12"

section \<open>Base58\<close>

definition ALPHABET :: pystr where
  "ALPHABET = lit ''123456789ABCDEFGHJKLMNPQRSTUVWXYZabcdefghijkmnopqrstuvwxyz''"

text \<open>\<^verbatim>\<open>while num > 0: num, remainder = divmod(num, 58)\<close>: the digits, lowest first.\<close>

fun base58_digits :: "nat \<Rightarrow> nat list" where
  "base58_digits num = (if num > 0 then num mod 58 # base58_digits (num div 58) else [])"

declare base58_digits.simps [simp del]

definition base58_encode :: "bytes \<Rightarrow> pystr" where
  "base58_encode data =
     (let leading_zeros = length data - length (dropWhile (\<lambda>b. b = 0) data);
          num = be_nat data;
          result = map (\<lambda>d. ALPHABET ! d) (base58_digits num) @ replicate leading_zeros (ALPHABET ! 0)
      in rev result)"

text \<open>\<^verbatim>\<open>ALPHABET.find(character)\<close>\<close>

definition alphabet_find :: "nat \<Rightarrow> nat option" where
  "alphabet_find c = (let i = length (takeWhile (\<lambda>x. x \<noteq> c) ALPHABET) in if i < length ALPHABET then Some i else None)"

fun base58_value :: "nat \<Rightarrow> pystr \<Rightarrow> nat result" where
  "base58_value num [] = Inr num"
| "base58_value num (c # cs) =
     (case alphabet_find c of None \<Rightarrow> Inl ValueError | Some p \<Rightarrow> base58_value (num * 58 + p) cs)"

definition base58_decode :: "pystr \<Rightarrow> bytes result" where
  "base58_decode encoded =
     (let leading_ones = length encoded - length (dropWhile (\<lambda>c. c = ALPHABET ! 0) encoded)
      in rbind (base58_value 0 encoded) (\<lambda>num.
           let decoded_bytes = (if num = 0 then [] else be_bytes ((bit_length num + 7) div 8) num)
           in Inr (replicate leading_ones 0 @ decoded_bytes)))"

section \<open>Multihash, public keys, peer identifiers\<close>

definition IDENTITY_THRESHOLD :: nat where "IDENTITY_THRESHOLD = 42"

record multihash =
  mh_code :: multihash_code
  mh_digest :: bytes

definition multihash_encode :: "multihash \<Rightarrow> bytes result" where
  "multihash_encode m =
     (if length (mh_digest m) > 127 then Inl ValueError
      else Inr ([multihash_code_value (mh_code m), word_of_nat (length (mh_digest m))] @ mh_digest m))"

definition multihash_from_data :: "(bytes \<Rightarrow> bytes) \<Rightarrow> bytes \<Rightarrow> multihash" where
  "multihash_from_data sha256 data =
     (if length data \<le> IDENTITY_THRESHOLD then \<lparr>mh_code = IDENTITY, mh_digest = data\<rparr>
      else \<lparr>mh_code = SHA256, mh_digest = sha256 data\<rparr>)"

record public_key =
  pk_key_type :: key_type
  pk_key_data :: bytes

definition public_key_encode :: "public_key \<Rightarrow> bytes result" where
  "public_key_encode k =
     rbind (encode_varint (int (key_type_value (pk_key_type k))) 10) (\<lambda>t.
       rbind (encode_varint (int (length (pk_key_data k))) 10) (\<lambda>l.
         let type_field = [0x08] @ t; data_field = [0x12] @ l @ pk_key_data k
         in Inr (type_field @ data_field)))"

text \<open>A \<^verbatim>\<open>PeerId\<close> is its multihash bytes.\<close>

type_synonym peer_id = bytes

definition peer_id_str :: "peer_id \<Rightarrow> pystr" where
  "peer_id_str p = base58_encode p"

definition peer_id_from_base58 :: "pystr \<Rightarrow> peer_id result" where
  "peer_id_from_base58 s = base58_decode s"

definition peer_id_from_public_key :: "(bytes \<Rightarrow> bytes) \<Rightarrow> public_key \<Rightarrow> peer_id result" where
  "peer_id_from_public_key sha256 k =
     rbind (public_key_encode k) (\<lambda>encoded. multihash_encode (multihash_from_data sha256 encoded))"

section \<open>Digits\<close>

lemma ALPHABET_facts: "length ALPHABET = 58" "distinct ALPHABET"
  by (simp_all add: ALPHABET_def lit_def)

lemma alphabet_find_nth: "d < 58 \<Longrightarrow> alphabet_find (ALPHABET ! d) = Some d"
proof -
  assume d: "d < 58"
  have "takeWhile (\<lambda>x. x \<noteq> ALPHABET ! d) ALPHABET = take d ALPHABET"
    using d ALPHABET_facts by (intro takeWhile_eq_take_P_nth) (auto simp: nth_eq_iff_index_eq)
  with d ALPHABET_facts show ?thesis by (simp add: alphabet_find_def)
qed

lemma alphabet_find_Some: "alphabet_find c = Some d \<Longrightarrow> d < 58 \<and> ALPHABET ! d = c"
  using nth_length_takeWhile [of "\<lambda>x. x \<noteq> c" ALPHABET] ALPHABET_facts(1)
  by (auto simp: alphabet_find_def Let_def split: if_splits)

lemma digits_less: "\<forall>d \<in> set (base58_digits n). d < 58"
  by (induction n rule: base58_digits.induct) (subst base58_digits.simps, auto)

lemma digits_0 [simp]: "base58_digits 0 = []"
  by (simp add: base58_digits.simps)

lemma digits_pos: "0 < n \<Longrightarrow> base58_digits n = n mod 58 # base58_digits (n div 58)"
  by (subst base58_digits.simps) simp

lemma digits_last: "0 < n \<Longrightarrow> base58_digits n \<noteq> [] \<and> last (base58_digits n) \<noteq> 0"
proof (induction n rule: base58_digits.induct)
  case (1 n)
  show ?case
  proof (cases "n div 58 = 0")
    case True
    then show ?thesis using "1.prems" by (simp add: digits_pos)
  next
    case False
    then show ?thesis using 1 by (simp add: digits_pos)
  qed
qed

text \<open>The number a list of digits stands for, highest first, starting from \<open>a\<close>.\<close>

definition horner :: "nat \<Rightarrow> nat list \<Rightarrow> nat" where
  "horner a ds = foldl (\<lambda>n d. n * 58 + d) a ds"

lemma horner_digits: "horner 0 (rev (base58_digits n)) = n"
proof (induction n rule: base58_digits.induct)
  case (1 n)
  then show ?case by (cases "n = 0") (auto simp: horner_def digits_pos)
qed

lemma digits_horner:
  "list_all (\<lambda>d. d < 58) ds \<Longrightarrow> ds = [] \<or> hd ds \<noteq> 0 \<Longrightarrow> base58_digits (horner 0 ds) = rev ds"
proof (induction ds rule: rev_induct)
  case (snoc d ds)
  have IH: "base58_digits (horner 0 ds) = rev ds" using snoc by (cases ds) auto
  have "0 < horner 0 (ds @ [d])"
  proof (cases "ds = []")
    case True
    then show ?thesis using snoc.prems by (simp add: horner_def)
  next
    case False
    then have "horner 0 ds \<noteq> 0" using IH by (metis digits_0 rev_is_Nil_conv)
    then show ?thesis by (simp add: horner_def)
  qed
  then show ?case using IH snoc.prems(1) by (simp add: digits_pos horner_def)
qed (simp add: horner_def)

lemma base58_value_horner:
  "base58_value a s = Inr n \<longleftrightarrow> (\<exists>ds. map alphabet_find s = map Some ds \<and> n = horner a ds)"
proof (induction s arbitrary: a)
  case (Cons c s)
  show ?case
  proof (cases "alphabet_find c")
    case (Some p)
    show ?thesis
    proof
      assume "base58_value a (c # s) = Inr n"
      with Some Cons obtain ds where "map alphabet_find s = map Some ds" "n = horner (a * 58 + p) ds" by auto
      with Some show "\<exists>ds. map alphabet_find (c # s) = map Some ds \<and> n = horner a ds"
        by (intro exI [of _ "p # ds"]) (simp add: horner_def)
    qed (use Some Cons in \<open>auto simp: horner_def Cons_eq_map_conv\<close>)
  qed (auto simp: Cons_eq_map_conv)
qed (auto simp: horner_def)

section \<open>Base58 is a bijection\<close>

lemma be_nat_replicate: "be_nat (replicate z 0 @ t) = be_nat t"
proof -
  have "le_nat (replicate z 0) = 0" by (induction z) simp_all
  then show ?thesis by (simp add: be_nat_append) (simp add: be_nat_def)
qed

lemma horner_replicate: "horner 0 (replicate z 0 @ ds) = horner 0 ds"
  by (induction z) (simp_all add: horner_def)

lemma split_leading:
  obtains z t where "xs = replicate z a @ t" "dropWhile (\<lambda>x. x = a) xs = t" "z = length xs - length t" "t = [] \<or> hd t \<noteq> a"
proof
  let ?t = "dropWhile (\<lambda>x. x = a) xs"
  have "takeWhile (\<lambda>x. x = a) xs = replicate (length (takeWhile (\<lambda>x. x = a) xs)) a"
    by (rule replicate_eqI) (auto dest: set_takeWhileD)
  moreover have len: "length (takeWhile (\<lambda>x. x = a) xs) = length xs - length ?t"
    using takeWhile_dropWhile_id [of "\<lambda>x. x = a" xs] by (metis add_diff_cancel_right' length_append)
  ultimately show "xs = replicate (length xs - length ?t) a @ ?t"
    using takeWhile_dropWhile_id [of "\<lambda>x. x = a" xs] by metis
  show "?t = [] \<or> hd ?t \<noteq> a" using hd_dropWhile [of "\<lambda>x. x = a" xs] by blast
qed simp_all

lemma dropWhile_leading: "t = [] \<or> hd t \<noteq> a \<Longrightarrow> dropWhile (\<lambda>x. x = a) (replicate z a @ t) = t"
  by (induction z) (cases t; simp)+

lemma base58_encode_split:
  assumes "t = [] \<or> hd t \<noteq> 0"
  shows "base58_encode (replicate z 0 @ t) = replicate z (ALPHABET ! 0) @ map (\<lambda>d. ALPHABET ! d) (rev (base58_digits (be_nat t)))"
  using dropWhile_leading [OF assms, of z] by (simp add: base58_encode_def be_nat_replicate rev_map)

lemma base58_decode_split:
  assumes "t = [] \<or> hd t \<noteq> ALPHABET ! 0" and "map alphabet_find t = map Some ds"
  shows "base58_decode (replicate z (ALPHABET ! 0) @ t) =
    Inr (replicate z 0 @ (if horner 0 ds = 0 then [] else be_bytes (ceil_div (bit_length (horner 0 ds)) 8) (horner 0 ds)))"
proof -
  have "map alphabet_find (replicate z (ALPHABET ! 0) @ t) = map Some (replicate z 0 @ ds)"
    using assms(2) alphabet_find_nth [of 0] by simp
  then have "base58_value 0 (replicate z (ALPHABET ! 0) @ t) = Inr (horner 0 ds)"
    using base58_value_horner horner_replicate by metis
  then show ?thesis using dropWhile_leading [OF assms(1), of z] by (simp add: base58_decode_def ceil_div_def add.commute)
qed

lemma map_find_nth: "\<forall>d \<in> set ds. d < 58 \<Longrightarrow> map alphabet_find (map (\<lambda>d. ALPHABET ! d) ds) = map Some ds"
  by (simp add: alphabet_find_nth)

lemma base58_decode_encode: "base58_decode (base58_encode data) = Inr data"
proof -
  obtain z t where t: "data = replicate z 0 @ t" "t = [] \<or> hd t \<noteq> (0 :: byte)" by (rule split_leading)
  let ?n = "be_nat t" let ?ds = "rev (base58_digits ?n)" let ?s = "map (\<lambda>d. ALPHABET ! d) ?ds"
  have n0: "?n = 0 \<longleftrightarrow> t = []"
  proof (cases "t = []")
    case False
    then have "0 < (256 :: nat) ^ (length t - 1)" "256 ^ (length t - 1) \<le> be_nat t" using be_nat_pos [of t] t(2) by simp_all
    then have "0 < be_nat t" by (rule less_le_trans)
    with False show ?thesis by simp
  qed (simp add: be_nat_def)
  have "?s = [] \<or> hd ?s \<noteq> ALPHABET ! 0"
  proof (cases "?n = 0")
    case False
    then have "hd ?ds \<noteq> 0" "hd ?ds \<in> set ?ds" "?ds \<noteq> []" using digits_last [of ?n] by (auto simp: hd_rev)
    then have "ALPHABET ! hd ?ds \<noteq> ALPHABET ! 0"
      using digits_less [of ?n] ALPHABET_facts by (auto simp: nth_eq_iff_index_eq)
    then show ?thesis using \<open>?ds \<noteq> []\<close> by (simp add: hd_map)
  qed simp
  then have "base58_decode (replicate z (ALPHABET ! 0) @ ?s) = Inr (replicate z 0 @ (if ?n = 0 then [] else be_bytes (ceil_div (bit_length ?n) 8) ?n))"
    using base58_decode_split [OF _ map_find_nth [of ?ds], of z] digits_less [of ?n] by (simp add: horner_digits)
  moreover have "(if ?n = 0 then [] else be_bytes (ceil_div (bit_length ?n) 8) ?n) = t"
    using n0 t(2) be_bytes_shortest [of t] by auto
  ultimately show ?thesis using t base58_encode_split [OF t(2), of z] by simp
qed

lemma base58_encode_decode:
  assumes "base58_decode s = Inr data"
  shows "base58_encode data = s"
proof -
  obtain z t where t: "s = replicate z (ALPHABET ! 0) @ t" "t = [] \<or> hd t \<noteq> ALPHABET ! 0" by (rule split_leading)
  obtain ds0 where "map alphabet_find s = map Some ds0"
    using assms base58_value_horner [of 0 s] by (auto simp: base58_decode_def)
  then obtain ds where ds: "map alphabet_find t = map Some ds"
    using t(1) by (auto simp: append_eq_map_conv)
  have lt: "list_all (\<lambda>d. d < 58) ds" and map: "map (\<lambda>d. ALPHABET ! d) ds = t"
    using ds by (auto simp: list_eq_iff_nth_eq list_all_length dest!: alphabet_find_Some)
  have hd: "ds = [] \<or> hd ds \<noteq> 0" using t(2) map by (cases ds) (auto intro!: gr0I)
  let ?n = "horner 0 ds" let ?b = "if ?n = 0 then [] else be_bytes (ceil_div (bit_length ?n) 8) ?n"
  have data: "data = replicate z 0 @ ?b" using base58_decode_split [OF t(2) ds, of z] assms t(1) by simp
  have "?b = [] \<or> hd ?b \<noteq> 0"
  proof (cases "?n = 0")
    case False
    then have "be_bytes (ceil_div (bit_length ?n) 8) ?n ! 0 \<noteq> 0" using length_field_bounds [of ?n] by (intro be_bytes_leading) simp_all
    then show ?thesis using False by (auto simp: hd_conv_nth)
  qed simp
  moreover have "be_nat ?b = ?n" using length_field_bounds(2) [of ?n] by (simp add: be_nat_def [of "[]"])
  ultimately have "base58_encode data = replicate z (ALPHABET ! 0) @ map (\<lambda>d. ALPHABET ! d) (rev (base58_digits ?n))"
    unfolding data by (simp add: base58_encode_split)
  then show ?thesis using digits_horner [OF lt hd] map t(1) by simp
qed

section \<open>Properties\<close>

text \<open>
  Property C17: Base58 is a bijection: every peer identifier is read back from its string form, and every
  string the parser accepts is exactly the string form of the identifier it returns, so two different
  strings never denote the same peer.
\<close>

theorem base58_bijection:
  "peer_id_from_base58 (peer_id_str p) = Inr p \<and>
   (case peer_id_from_base58 s of Inl e \<Rightarrow> e = ValueError | Inr q \<Rightarrow> peer_id_str q = s)"
proof -
  have "base58_value a s = Inl e \<Longrightarrow> e = ValueError" for a e
    by (induction s arbitrary: a) (auto split: option.splits)
  then have "base58_decode s = Inl e \<Longrightarrow> e = ValueError" for e
    by (auto simp: base58_decode_def rbind_eq_Inl Let_def)
  then show ?thesis
    by (auto simp: peer_id_from_base58_def peer_id_str_def base58_decode_encode base58_encode_decode split: sum.split)
qed

text \<open>
  Keys of up to 38 bytes, which covers Ed25519 and compressed secp256k1, are embedded in
  their peer identifier without hashing, so different keys have different identifiers.
\<close>

theorem small_keys_injective:
  assumes "length (pk_key_data k) \<le> 38" and "length (pk_key_data k') \<le> 38"
    and "peer_id_from_public_key sha256 k = Inr p" and "peer_id_from_public_key sha256 k' = Inr p"
  shows "k = k'"
proof -
  have enc: "public_key_encode q = Inr ([0x08, word_of_nat (key_type_value (pk_key_type q)), 0x12, word_of_nat (length (pk_key_data q))] @ pk_key_data q)"
    if "length (pk_key_data q) \<le> 38" for q :: public_key
  proof -
    have "key_type_value (pk_key_type q) < 4" by (cases "pk_key_type q") simp_all
    then have "encode_varint (int (key_type_value (pk_key_type q))) 10 = Inr [word_of_nat (key_type_value (pk_key_type q))]"
        "encode_varint (int (length (pk_key_data q))) 10 = Inr [word_of_nat (length (pk_key_data q))]"
      using that by (simp_all add: encode_varint_Inr varint_ok_def varint_groups_last)
    then show ?thesis by (simp add: public_key_encode_def)
  qed
  have id: "peer_id_from_public_key sha256 q = Inr ([0x00, word_of_nat (length (pk_key_data q) + 4)] @
      [0x08, word_of_nat (key_type_value (pk_key_type q)), 0x12, word_of_nat (length (pk_key_data q))] @ pk_key_data q)"
    if "length (pk_key_data q) \<le> 38" for q :: public_key
    using that by (simp add: peer_id_from_public_key_def enc multihash_from_data_def multihash_encode_def IDENTITY_THRESHOLD_def)
  have ty: "word_of_nat (key_type_value a) = (word_of_nat (key_type_value b) :: byte) \<Longrightarrow> a = b" for a b
    by (cases a; cases b) simp_all
  from assms id [of k] id [of k'] have "pk_key_type k = pk_key_type k'" "pk_key_data k = pk_key_data k'"
    using ty by auto
  then show ?thesis by simp
qed

theorem small_keys_injective_witness:
  "\<exists>p. peer_id_from_public_key (\<lambda>d. d) \<lparr>pk_key_type = ED25519, pk_key_data = [5]\<rparr> = Inr p \<and>
     (\<forall>t. peer_id_from_public_key (\<lambda>d. d) \<lparr>pk_key_type = t, pk_key_data = [5]\<rparr> = Inr p \<longleftrightarrow> t = ED25519)"
proof -
  let ?k = "\<lambda>t. \<lparr>pk_key_type = t, pk_key_data = [5 :: byte]\<rparr>"
  obtain p where p: "peer_id_from_public_key (\<lambda>d. d) (?k ED25519) = Inr p"
    by (simp add: peer_id_from_public_key_def public_key_encode_def encode_varint_def varint_groups_last
        multihash_from_data_def multihash_encode_def IDENTITY_THRESHOLD_def)
  have "peer_id_from_public_key (\<lambda>d. d) (?k t) = Inr p \<Longrightarrow> t = ED25519" for t
    using small_keys_injective [OF _ _ _ p, of "?k t"] by simp
  with p show ?thesis by blast
qed

end
