(* ===== verification/Block_Cache.thy ===== *)
theory Block_Cache
  imports Containers
begin

text \<open>
  The cache of blocks that wait for their parent, \<^verbatim>\<open>node/sync/block_cache.py\<close>: insertion-ordered blocks,
  the orphan set and the parent-to-children index. The invariant ties the index to the blocks, and the
  cache is a state machine whose reachable states keep it.
\<close>

section \<open>The cache\<close>

type_synonym peer = bytes

record pending_block =
  pb_block :: signed_block
  pb_root :: root
  pb_parent_root :: root
  pb_slot :: slot
  pb_received_from :: "peer option"
  pb_backfill_depth :: nat

definition MAX_CACHED_BLOCKS :: nat where "MAX_CACHED_BLOCKS = 1024"

record block_cache =
  bc_blocks :: "(root, pending_block) dict"
  bc_orphans :: "root set"
  bc_by_parent :: "(root, root set) dict"

definition empty_cache :: block_cache where
  "empty_cache = \<lparr>bc_blocks = [], bc_orphans = {}, bc_by_parent = []\<rparr>"

definition cache_len :: "block_cache \<Rightarrow> nat" where
  "cache_len c = length (bc_blocks c)"

definition cache_contains :: "block_cache \<Rightarrow> root \<Rightarrow> bool" where
  "cache_contains c r \<longleftrightarrow> dget (bc_blocks c) r \<noteq> None"

definition mark_orphan :: "block_cache \<Rightarrow> root \<Rightarrow> block_cache" where
  "mark_orphan c r = (if cache_contains c r then c\<lparr>bc_orphans := insert r (bc_orphans c)\<rparr> else c)"

text \<open>\<^verbatim>\<open>self._by_parent.get(p, set())\<close>\<close>

definition children_of :: "block_cache \<Rightarrow> root \<Rightarrow> root set" where
  "children_of c p = (case dget (bc_by_parent c) p of None \<Rightarrow> {} | Some s \<Rightarrow> s)"

text \<open>Taking a child out of its parent's set, and the entry with its last child.\<close>

definition detach :: "root \<Rightarrow> root \<Rightarrow> (root, root set) dict \<Rightarrow> (root, root set) dict" where
  "detach p r index =
     (case dget index p of
        None \<Rightarrow> index
      | Some s \<Rightarrow>
          if s = {} then index
          else if s - {r} = {} then ddel index p
          else dput index p (s - {r}))"

text \<open>The eviction branch of \<^verbatim>\<open>add\<close>: the oldest block goes, its cached children are orphans again.\<close>

definition evict_oldest :: "block_cache \<Rightarrow> block_cache" where
  "evict_oldest c =
     (case bc_blocks c of
        [] \<Rightarrow> c
      | (evicted_root, evicted) # rest \<Rightarrow>
          let c1 = \<lparr>bc_blocks = rest, bc_orphans = bc_orphans c - {evicted_root},
                    bc_by_parent = detach (pb_parent_root evicted) evicted_root (bc_by_parent c)\<rparr>
          in c1\<lparr>bc_orphans := bc_orphans c1 \<union> Set.filter (cache_contains c1) (children_of c1 evicted_root)\<rparr>)"

text \<open>Storing a pending block and indexing it by its parent.\<close>

definition insert_pending :: "block_cache \<Rightarrow> pending_block \<Rightarrow> block_cache" where
  "insert_pending c p =
     c\<lparr>bc_blocks := dput (bc_blocks c) (pb_root p) p,
       bc_by_parent := dput (bc_by_parent c) (pb_parent_root p) (insert (pb_root p) (children_of c (pb_parent_root p)))\<rparr>"

definition cache_add :: "digest \<Rightarrow> block_cache \<Rightarrow> signed_block \<Rightarrow> peer option \<Rightarrow> nat \<Rightarrow> (pending_block \<times> block_cache) result" where
  "cache_add H c block peer backfill_depth =
     rbind (block_root H (sb_block block)) (\<lambda>root.
       case dget (bc_blocks c) root of
         Some existing \<Rightarrow> Inr (existing, c)
       | None \<Rightarrow>
           let c1 = (if cache_len c \<ge> MAX_CACHED_BLOCKS then evict_oldest c else c);
               pending = \<lparr>pb_block = block, pb_root = root, pb_parent_root = b_parent_root (sb_block block),
                          pb_slot = b_slot (sb_block block), pb_received_from = peer, pb_backfill_depth = backfill_depth\<rparr>
           in Inr (pending, insert_pending c1 pending))"

definition cache_remove :: "block_cache \<Rightarrow> root \<Rightarrow> pending_block option \<times> block_cache" where
  "cache_remove c root =
     (case dget (bc_blocks c) root of
        None \<Rightarrow> (None, c)
      | Some pending \<Rightarrow>
          (Some pending,
           \<lparr>bc_blocks = ddel (bc_blocks c) root, bc_orphans = bc_orphans c - {root},
            bc_by_parent = detach (pb_parent_root pending) root (bc_by_parent c)\<rparr>))"

definition get_children :: "(root set \<Rightarrow> root list) \<Rightarrow> block_cache \<Rightarrow> root \<Rightarrow> pending_block list" where
  "get_children iter c parent_root =
     sort_key pb_slot (List.map_filter (dget (bc_blocks c)) (iter (children_of c parent_root)))"

definition orphan_count :: "block_cache \<Rightarrow> nat" where
  "orphan_count c = card (bc_orphans c)"

section \<open>Invariant\<close>

text \<open>
  Blocks are stored under their own root and at most \<^verbatim>\<open>MAX_CACHED_BLOCKS\<close>; orphans are cached; the index
  has exactly one non-empty set per parent of a cached block, namely its cached children.
\<close>

definition siblings :: "(root, pending_block) dict \<Rightarrow> root \<Rightarrow> root set" where
  "siblings blocks p = {r. \<exists>x. dget blocks r = Some x \<and> pb_parent_root x = p}"

definition cache_inv :: "block_cache \<Rightarrow> bool" where
  "cache_inv c \<longleftrightarrow>
     dwf (bc_blocks c) \<and> length (bc_blocks c) \<le> MAX_CACHED_BLOCKS \<and>
     (\<forall>r x. dget (bc_blocks c) r = Some x \<longrightarrow> pb_root x = r) \<and>
     bc_orphans c \<subseteq> set (dkeys (bc_blocks c)) \<and>
     dwf (bc_by_parent c) \<and>
     (\<forall>p. dget (bc_by_parent c) p = (let s = siblings (bc_blocks c) p in if s = {} then None else Some s))"

lemma cache_inv_index: "cache_inv c \<Longrightarrow> children_of c p = siblings (bc_blocks c) p"
  by (simp add: cache_inv_def children_of_def Let_def)

lemma finite_siblings: "finite (siblings blocks p)"
proof -
  have "siblings blocks p \<subseteq> set (dkeys blocks)" by (auto simp: siblings_def dict.set_keys)
  then show ?thesis by (rule finite_subset) simp
qed

lemma siblings_del: "siblings (ddel blocks r) p = siblings blocks p - {r}"
  by (auto simp: siblings_def dict.get_del split: if_splits)

lemma detach_wf: "dwf index \<Longrightarrow> dwf (detach p r index)"
  by (simp add: detach_def dict.wf_del dict.wf_put split: option.split)

lemma detach_index:
  assumes "\<And>p. dget index p = (let s = siblings blocks p in if s = {} then None else Some s)"
    and "dget blocks r = Some x"
  shows "dget (detach (pb_parent_root x) r index) p = (let s = siblings (ddel blocks r) p in if s = {} then None else Some s)"
proof -
  let ?q = "pb_parent_root x"
  have mem: "r \<in> siblings blocks ?q" using assms(2) by (simp add: siblings_def)
  then have q: "dget index ?q = Some (siblings blocks ?q)" using assms(1) [of ?q] by (auto simp: Let_def)
  have other: "siblings blocks p - {r} = siblings blocks p" if "p \<noteq> ?q"
    using that assms(2) by (auto simp: siblings_def)
  show ?thesis
  proof (cases "p = ?q")
    case True
    with q mem show ?thesis
      by (auto simp: detach_def siblings_del Let_def dict.get_del dict.get_put)
  next
    case False
    with q mem other assms(1) [of p] show ?thesis
      by (auto simp: detach_def siblings_del Let_def dict.get_del dict.get_put)
  qed
qed

lemma cache_remove_inv:
  assumes "cache_inv c"
  shows "cache_inv (snd (cache_remove c r))"
proof (cases "dget (bc_blocks c) r")
  case (Some x)
  have "length (ddel (bc_blocks c) r) \<le> length (bc_blocks c)" by (simp add: ddel_def)
  moreover have "bc_orphans c - {r} \<subseteq> set (dkeys (ddel (bc_blocks c) r))"
    using assms by (auto simp: cache_inv_def dict.set_keys dict.get_del)
  ultimately show ?thesis
    using assms Some detach_index [of "bc_by_parent c" "bc_blocks c" r x]
    by (auto simp: cache_inv_def cache_remove_def dict.wf_del detach_wf dict.get_del split: if_splits)
qed (use assms in \<open>simp add: cache_remove_def\<close>)

lemma mark_orphan_inv: "cache_inv c \<Longrightarrow> cache_inv (mark_orphan c r)"
  by (auto simp: cache_inv_def mark_orphan_def cache_contains_def dict.set_keys)

text \<open>Evicting is removing the oldest block and marking its cached children.\<close>

lemma dwf_Cons: "dwf ((k, v) # d) \<longleftrightarrow> dwf d \<and> dget d k = None"
  by (auto simp: dwf_def dget_def map_of_eq_None_iff)

lemma ddel_Cons: "dwf ((k, v) # d) \<Longrightarrow> ddel ((k, v) # d) k = d"
  by (auto simp: dwf_def ddel_def filter_id_conv image_iff)

lemma evict_oldest_eq:
  assumes "cache_inv c" and "bc_blocks c = (r, x) # rest"
  shows "evict_oldest c = (let c1 = snd (cache_remove c r) in
    c1\<lparr>bc_orphans := bc_orphans c1 \<union> Set.filter (cache_contains c1) (children_of c1 r)\<rparr>)"
  using assms ddel_Cons [of r x rest]
  by (simp add: evict_oldest_def cache_remove_def cache_inv_def Let_def)

lemma evict_oldest_inv:
  assumes "cache_inv c"
  shows "cache_inv (evict_oldest c)"
proof (cases "bc_blocks c")
  case Nil
  with assms show ?thesis by (simp add: evict_oldest_def)
next
  case (Cons kv rest)
  obtain r x where kv: "kv = (r, x)" by (cases kv)
  have "cache_inv (snd (cache_remove c r))" by (rule cache_remove_inv [OF assms])
  then show ?thesis using evict_oldest_eq [OF assms, of r x rest] Cons kv
    by (auto simp: cache_inv_def Let_def cache_contains_def dict.set_keys)
qed

lemma evict_oldest_blocks: "bc_blocks (evict_oldest c) = tl (bc_blocks c)"
  by (cases "bc_blocks c") (auto simp: evict_oldest_def Let_def)

lemma length_dput_new: "dget d k = None \<Longrightarrow> length (dput d k v) = Suc (length d)"
  by (induction d) (auto simp: dput_def dget_def split: if_splits)

lemma insert_pending_inv:
  assumes "cache_inv c" and "dget (bc_blocks c) (pb_root p) = None" and "length (bc_blocks c) < MAX_CACHED_BLOCKS"
  shows "cache_inv (insert_pending c p)"
proof -
  let ?b = "dput (bc_blocks c) (pb_root p) p"
  have sib: "siblings ?b q = (if q = pb_parent_root p then insert (pb_root p) (siblings (bc_blocks c) q) else siblings (bc_blocks c) q)" for q
    using assms(2) by (auto simp: siblings_def dict.get_put split: if_splits)
  have idx: "dget (dput (bc_by_parent c) (pb_parent_root p) (insert (pb_root p) (children_of c (pb_parent_root p)))) q
      = (let s = siblings ?b q in if s = {} then None else Some s)" for q
    using assms(1) cache_inv_index [OF assms(1)] by (simp add: dict.get_put sib cache_inv_def Let_def)
  have "length ?b \<le> MAX_CACHED_BLOCKS" using length_dput_new [OF assms(2)] assms(3) by simp
  moreover have "bc_orphans c \<subseteq> set (dkeys ?b)"
    using assms(1) dict.keys_put [of "bc_blocks c" "pb_root p" p] by (auto simp: cache_inv_def)
  ultimately show ?thesis using assms(1) idx
    by (auto simp: cache_inv_def insert_pending_def dict.wf_put dict.get_put split: if_splits)
qed

lemma cache_add_inv:
  assumes "cache_inv c" and "cache_add H c b peer d = Inr (p, c')"
  shows "cache_inv c'"
proof -
  obtain root where root: "block_root H (sb_block b) = Inr root" using assms(2) by (auto simp: cache_add_def)
  show ?thesis
  proof (cases "dget (bc_blocks c) root")
    case (Some x)
    with assms root show ?thesis by (simp add: cache_add_def)
  next
    case None
    define c1 where "c1 = (if cache_len c \<ge> MAX_CACHED_BLOCKS then evict_oldest c else c)"
    have "cache_inv c1" using assms(1) by (simp add: c1_def evict_oldest_inv)
    moreover have "length (bc_blocks c1) < MAX_CACHED_BLOCKS"
      using assms(1) by (auto simp: c1_def evict_oldest_blocks cache_len_def cache_inv_def MAX_CACHED_BLOCKS_def)
    moreover have "dget (bc_blocks c1) root = None"
      using None by (cases "bc_blocks c") (auto simp: c1_def evict_oldest_blocks split: if_splits)
    moreover have "c' = insert_pending c1 p" "pb_root p = root"
      using assms(2) root None by (auto simp: cache_add_def c1_def Let_def)
    ultimately show ?thesis by (simp add: insert_pending_inv)
  qed
qed

section \<open>The cache as a state machine\<close>

inductive cache_step :: "digest \<Rightarrow> block_cache \<Rightarrow> block_cache \<Rightarrow> bool" for H :: digest where
  step_add: "cache_add H c b peer d = Inr (p, c') \<Longrightarrow> cache_step H c c'"
| step_remove: "cache_remove c r = (removed, c') \<Longrightarrow> cache_step H c c'"
| step_mark: "cache_step H c (mark_orphan c r)"

lemma cache_step_inv: "cache_step H c c' \<Longrightarrow> cache_inv c \<Longrightarrow> cache_inv c'"
proof (induction rule: cache_step.induct)
  case (step_remove c r removed c')
  then show ?case using cache_remove_inv [of c r] by simp
qed (auto intro: cache_add_inv mark_orphan_inv)

lemma empty_cache_inv: "cache_inv empty_cache"
  by (simp add: cache_inv_def empty_cache_def dwf_def siblings_def)

interpretation cache_machine: machine "\<lambda>c. c = empty_cache" "cache_step H" cache_inv for H
  by unfold_locales (auto simp: empty_cache_inv intro: cache_step_inv)

section \<open>Looking up children\<close>

lemma set_map_filter: "set (List.map_filter f xs) = {y. \<exists>x \<in> set xs. f x = Some y}"
  by (induction xs) (auto simp: map_filter_simps split: option.splits)

lemma get_children_set:
  assumes "cache_inv c" and "set_order iter"
  shows "set (get_children iter c p) = {x. \<exists>r. dget (bc_blocks c) r = Some x \<and> pb_parent_root x = p}"
proof -
  have "set (iter (children_of c p)) = siblings (bc_blocks c) p"
    using assms finite_siblings by (simp add: cache_inv_index set_order_def)
  then show ?thesis by (auto simp: get_children_def set_map_filter siblings_def)
qed

lemma distinct_map_filter_inj:
  "distinct xs \<Longrightarrow> (\<And>x y z. f x = Some z \<Longrightarrow> f y = Some z \<Longrightarrow> x = y) \<Longrightarrow> distinct (List.map_filter f xs)"
proof (induction xs)
  case (Cons x xs)
  have "set (List.map_filter f xs) = {y. \<exists>x \<in> set xs. f x = Some y}" by (rule set_map_filter)
  with Cons show ?case by (auto simp: map_filter_simps split: option.splits)
qed (simp add: map_filter_simps)

lemma get_children_distinct:
  assumes "cache_inv c" and "set_order iter"
  shows "distinct (get_children iter c p)"
proof -
  have "distinct (iter (children_of c p))"
    using assms finite_siblings by (simp add: cache_inv_index set_order_def)
  moreover have "dget (bc_blocks c) r = Some x \<Longrightarrow> dget (bc_blocks c) r' = Some x \<Longrightarrow> r = r'" for r r' x
    using assms(1) unfolding cache_inv_def by metis
  ultimately show ?thesis by (auto simp: get_children_def intro: distinct_map_filter_inj)
qed

lemma add_new:
  assumes "cache_inv c" and "cache_add H c b peer d = Inr (p, c')" and "\<not> cache_contains c (pb_root p)"
  shows "c' = insert_pending (if cache_len c \<ge> MAX_CACHED_BLOCKS then evict_oldest c else c) p"
proof -
  obtain root where root: "block_root H (sb_block b) = Inr root" using assms(2) by (auto simp: cache_add_def)
  have "dget (bc_blocks c) root = None"
  proof (cases "dget (bc_blocks c) root")
    case (Some x)
    with assms root have "p = x" "pb_root x = root" by (auto simp: cache_add_def cache_inv_def)
    with assms(3) Some show ?thesis by (simp add: cache_contains_def)
  qed
  with assms(2) root show ?thesis by (auto simp: cache_add_def Let_def)
qed

lemma add_blocks:
  assumes "cache_inv c" and "cache_add H c b peer d = Inr (p, c')" and "\<not> cache_contains c (pb_root p)"
  shows "bc_blocks c' = (if cache_len c = MAX_CACHED_BLOCKS then tl (bc_blocks c) else bc_blocks c) @ [(pb_root p, p)]"
proof -
  have none: "dget (bc_blocks c) (pb_root p) = None" using assms(3) by (simp add: cache_contains_def)
  then have "dget (tl (bc_blocks c)) (pb_root p) = None" by (cases "bc_blocks c") (auto split: if_splits)
  moreover have "cache_len c \<ge> MAX_CACHED_BLOCKS \<longleftrightarrow> cache_len c = MAX_CACHED_BLOCKS"
    using assms(1) by (auto simp: cache_inv_def cache_len_def)
  ultimately show ?thesis using none
    by (simp add: add_new [OF assms] insert_pending_def evict_oldest_blocks dput_new)
qed

lemma add_full_orphans:
  assumes "cache_inv c" and "cache_add H c b peer d = Inr (p, c')" and "\<not> cache_contains c (pb_root p)"
    and "cache_len c = MAX_CACHED_BLOCKS"
    and r: "cache_contains c' r" "r \<noteq> pb_root p" "r \<in> siblings (bc_blocks c) (fst (hd (bc_blocks c)))"
  shows "r \<in> bc_orphans c'"
proof -
  have c': "c' = insert_pending (evict_oldest c) p" using add_new [OF assms(1-3)] assms(4) by simp
  obtain k x rest where ne: "bc_blocks c = (k, x) # rest"
    using assms(4) by (cases "bc_blocks c") (auto simp: cache_len_def MAX_CACHED_BLOCKS_def)
  let ?c1 = "snd (cache_remove c k)"
  have inv1: "cache_inv ?c1" by (rule cache_remove_inv [OF assms(1)])
  have wf: "dwf ((k, x) # rest)" using ne assms(1) by (simp add: cache_inv_def)
  then have b1: "bc_blocks ?c1 = rest" using ne ddel_Cons [of k x rest] by (simp add: cache_remove_def)
  have "bc_blocks c' = rest @ [(pb_root p, p)]" using add_blocks [OF assms(1-3)] assms(4) ne by simp
  then obtain y where y: "dget rest r = Some y"
    using r(1,2) by (auto simp: cache_contains_def dget_def map_of_append split: option.splits)
  have "r \<noteq> k" using y wf by (auto simp: dwf_Cons)
  with r(3) y have "pb_parent_root y = k" by (simp add: siblings_def ne)
  with y have "r \<in> children_of ?c1 k" "cache_contains ?c1 r"
    by (simp_all add: cache_inv_index [OF inv1] b1 siblings_def cache_contains_def)
  then have "r \<in> bc_orphans (evict_oldest c)" using evict_oldest_eq [OF assms(1) ne] by (simp add: Let_def)
  then show ?thesis by (simp add: c' insert_pending_def)
qed

section \<open>Properties\<close>

text \<open>
  Property C9: whatever sequence of additions, removals and orphan marks the cache goes through, it never holds
  more than \<^verbatim>\<open>MAX_CACHED_BLOCKS\<close> blocks, every orphan is a cached block, and the parent index lists for
  each parent exactly its cached children, without empty entries.
\<close>

theorem block_cache_invariant:
  assumes "reach (\<lambda>c. c = empty_cache) (cache_step H) c"
  shows "cache_len c \<le> MAX_CACHED_BLOCKS \<and> bc_orphans c \<subseteq> set (dkeys (bc_blocks c)) \<and>
    (\<forall>p. dget (bc_by_parent c) p \<noteq> Some {} \<and>
      children_of c p = {r. \<exists>x. dget (bc_blocks c) r = Some x \<and> pb_root x = r \<and> pb_parent_root x = p})"
proof (intro conjI allI)
  have inv: "cache_inv c" by (rule cache_machine.reach_inv [OF assms])
  then show "cache_len c \<le> MAX_CACHED_BLOCKS" "bc_orphans c \<subseteq> set (dkeys (bc_blocks c))" "dget (bc_by_parent c) p \<noteq> Some {}" for p
    by (auto simp: cache_inv_def cache_len_def Let_def)
  show "children_of c p = {r. \<exists>x. dget (bc_blocks c) r = Some x \<and> pb_root x = r \<and> pb_parent_root x = p}" for p
    using inv cache_inv_index [OF inv] by (auto simp: siblings_def cache_inv_def)
qed

definition sample_block :: signed_block where
  "sample_block = \<lparr>sb_block = \<lparr>b_slot = 5, b_proposer_index = 0, b_parent_root = replicate 32 1,
     b_state_root = replicate 32 7, b_body = \<lparr>bb_attestations = []\<rparr>\<rparr>,
     sb_proof = []\<rparr>"

definition sample_pending :: pending_block where
  "sample_pending = \<lparr>pb_block = sample_block, pb_root = [2], pb_parent_root = [1], pb_slot = 5, pb_received_from = None, pb_backfill_depth = 0\<rparr>"

theorem block_cache_invariant_witness:
  "reach (\<lambda>c. c = empty_cache) (cache_step (\<lambda>x. x)) (mark_orphan empty_cache [3]) \<and>
   cache_len (mark_orphan empty_cache [3]) \<le> MAX_CACHED_BLOCKS"
proof -
  have "reach (\<lambda>c. c = empty_cache) (cache_step (\<lambda>x. x)) empty_cache" by (rule reach_init) simp
  then have "reach (\<lambda>c. c = empty_cache) (cache_step (\<lambda>x. x)) (mark_orphan empty_cache [3])"
    by (rule reach_step) (rule step_mark)
  with block_cache_invariant [OF this] show ?thesis by blast
qed

text \<open>
  Property C28: \<^verbatim>\<open>get_children\<close> returns every cached child of a parent once, in slot order, whatever order
  Python's set iteration has.
\<close>

theorem get_children_exact:
  assumes "cache_inv c" and "set_order iter"
  shows "set (get_children iter c p) = {x. \<exists>r. dget (bc_blocks c) r = Some x \<and> pb_parent_root x = p} \<and>
    distinct (get_children iter c p) \<and> sorted (map pb_slot (get_children iter c p))"
  using get_children_set [OF assms] get_children_distinct [OF assms] by (simp add: get_children_def)

theorem get_children_exact_witness:
  "set_order (sorted_list_of_set :: root set \<Rightarrow> root list) \<and> cache_inv (insert_pending empty_cache sample_pending) \<and>
   set (get_children sorted_list_of_set (insert_pending empty_cache sample_pending) [1]) = {sample_pending}"
proof -
  have pb: "pb_root sample_pending = [2]" "pb_parent_root sample_pending = [1]" by (simp_all add: sample_pending_def)
  have o: "set_order (sorted_list_of_set :: root set \<Rightarrow> root list)" by (simp add: set_order_def)
  have c: "cache_inv (insert_pending empty_cache sample_pending)"
    by (rule insert_pending_inv [OF empty_cache_inv]) (simp_all add: empty_cache_def MAX_CACHED_BLOCKS_def)
  have "dget (bc_blocks (insert_pending empty_cache sample_pending)) r = Some x \<longleftrightarrow> r = [2] \<and> x = sample_pending" for r x
    by (auto simp: insert_pending_def empty_cache_def dict.get_put pb)
  then have "{x. \<exists>r. dget (bc_blocks (insert_pending empty_cache sample_pending)) r = Some x \<and> pb_parent_root x = [1]} = {sample_pending}"
    by (auto simp: pb)
  with get_children_exact [OF c o, of "[1]"] o c show ?thesis by simp
qed



end
