(* ===== verification/Peer_Manager.thy ===== *)
theory Peer_Manager
  imports Block_Cache "HOL-Library.Multiset"
begin

text \<open>
  Sync peers, \<^verbatim>\<open>node/sync/peer_manager.py\<close> with the records of \<^verbatim>\<open>node/networking/peer.py\<close>: scores, requests
  in flight, peer selection and the estimate of the finalized slot. The weighted random choice is the
  parameter \<open>pick\<close>.
\<close>

section \<open>Peers\<close>

datatype connection_state = DISCONNECTED | CONNECTING | CONNECTED | DISCONNECTING
datatype direction = INBOUND | OUTBOUND

text \<open>The chain status a peer reports, \<^verbatim>\<open>node/networking/reqresp/message.py\<close>.\<close>

record status =
  stt_finalized :: checkpoint
  stt_head :: checkpoint

record peer_info =
  pi_peer_id :: peer
  pi_state :: connection_state
  pi_direction :: direction
  pi_address :: "bytes option"
  pi_status :: "status option"

definition info_is_connected :: "peer_info \<Rightarrow> bool" where
  "info_is_connected i \<longleftrightarrow> pi_state i = CONNECTED"

definition INITIAL_PEER_SCORE :: int where "INITIAL_PEER_SCORE = 100"
definition MIN_PEER_SCORE :: int where "MIN_PEER_SCORE = 0"
definition MAX_PEER_SCORE :: int where "MAX_PEER_SCORE = 200"
definition SCORE_SUCCESS_BONUS :: int where "SCORE_SUCCESS_BONUS = 10"
definition SCORE_FAILURE_PENALTY :: int where "SCORE_FAILURE_PENALTY = 20"
definition MAX_CONCURRENT_REQUESTS :: int where "MAX_CONCURRENT_REQUESTS = 2"

lemmas peer_constants = INITIAL_PEER_SCORE_def MIN_PEER_SCORE_def MAX_PEER_SCORE_def SCORE_SUCCESS_BONUS_def
  SCORE_FAILURE_PENALTY_def MAX_CONCURRENT_REQUESTS_def

record sync_peer =
  sp_info :: peer_info
  sp_status :: "status option"
  sp_requests_in_flight :: int
  sp_score :: int

definition is_connected :: "sync_peer \<Rightarrow> bool" where
  "is_connected p \<longleftrightarrow> info_is_connected (sp_info p)"

definition is_available :: "sync_peer \<Rightarrow> bool" where
  "is_available p \<longleftrightarrow> is_connected p \<and> sp_requests_in_flight p < MAX_CONCURRENT_REQUESTS"

definition has_slot :: "sync_peer \<Rightarrow> slot \<Rightarrow> bool" where
  "has_slot p s \<longleftrightarrow> (case sp_status p of None \<Rightarrow> False | Some st \<Rightarrow> cp_slot (stt_head st) \<ge> s)"

definition on_request_start :: "sync_peer \<Rightarrow> sync_peer" where
  "on_request_start p = p\<lparr>sp_requests_in_flight := sp_requests_in_flight p + 1\<rparr>"

definition record_success :: "sync_peer \<Rightarrow> sync_peer" where
  "record_success p = p\<lparr>sp_requests_in_flight := max 0 (sp_requests_in_flight p - 1),
     sp_score := min (sp_score p + SCORE_SUCCESS_BONUS) MAX_PEER_SCORE\<rparr>"

definition record_failure :: "sync_peer \<Rightarrow> sync_peer" where
  "record_failure p = p\<lparr>sp_requests_in_flight := max 0 (sp_requests_in_flight p - 1),
     sp_score := max (sp_score p - SCORE_FAILURE_PENALTY) MIN_PEER_SCORE\<rparr>"

section \<open>The manager\<close>

type_synonym peer_manager = "(peer, sync_peer) dict"

text \<open>\<^verbatim>\<open>peer = self.peers.get(peer_id)\<close> and, when there is one, an update of that object.\<close>

definition update_peer :: "peer_manager \<Rightarrow> peer \<Rightarrow> (sync_peer \<Rightarrow> sync_peer) \<Rightarrow> peer_manager" where
  "update_peer pm i f = (case dget pm i of None \<Rightarrow> pm | Some p \<Rightarrow> dput pm i (f p))"

definition add_peer :: "peer_manager \<Rightarrow> peer_info \<Rightarrow> sync_peer \<times> peer_manager" where
  "add_peer pm info =
     (case dget pm (pi_peer_id info) of
        Some existing \<Rightarrow> let p = existing\<lparr>sp_info := info\<rparr> in (p, dput pm (pi_peer_id info) p)
      | None \<Rightarrow>
          let p = \<lparr>sp_info = info, sp_status = None, sp_requests_in_flight = 0, sp_score = INITIAL_PEER_SCORE\<rparr>
          in (p, dput pm (pi_peer_id info) p))"

definition remove_peer :: "peer_manager \<Rightarrow> peer \<Rightarrow> sync_peer option \<times> peer_manager" where
  "remove_peer pm i = (dget pm i, ddel pm i)"

definition update_status :: "peer_manager \<Rightarrow> peer \<Rightarrow> status \<Rightarrow> peer_manager" where
  "update_status pm i st = update_peer pm i (\<lambda>p. p\<lparr>sp_status := Some st\<rparr>)"

definition candidates :: "peer_manager \<Rightarrow> slot option \<Rightarrow> sync_peer list" where
  "candidates pm min_slot =
     filter (\<lambda>p. is_available p \<and> (case min_slot of None \<Rightarrow> True | Some s \<Rightarrow> has_slot p s)) (map snd pm)"

definition select_peer_for_request :: "(int list \<Rightarrow> nat) \<Rightarrow> peer_manager \<Rightarrow> slot option \<Rightarrow> sync_peer option" where
  "select_peer_for_request pick pm min_slot =
     (let cs = candidates pm min_slot
      in if cs = [] then None
         else let weights = map (\<lambda>p. max (sp_score p) 1) cs in Some (cs ! pick weights))"

text \<open>\<^verbatim>\<open>random.choices(candidates, weights, k=1)[0]\<close> picks one of the candidates when all weights are positive.\<close>

definition picks :: "(int list \<Rightarrow> nat) \<Rightarrow> bool" where
  "picks pick \<longleftrightarrow> (\<forall>ws. ws \<noteq> [] \<longrightarrow> (\<forall>w \<in> set ws. 0 < w) \<longrightarrow> pick ws < length ws)"

definition finalized_reports :: "peer_manager \<Rightarrow> slot list" where
  "finalized_reports pm =
     List.map_filter (\<lambda>p. case sp_status p of None \<Rightarrow> None
       | Some st \<Rightarrow> if is_connected p then Some (cp_slot (stt_finalized st)) else None) (map snd pm)"

definition get_network_finalized_slot :: "peer_manager \<Rightarrow> slot option" where
  "get_network_finalized_slot pm =
     (let reports = finalized_reports pm
      in max_by (\<lambda>s. (count_list reports s, s)) (remdups reports))"

definition on_request_success :: "peer_manager \<Rightarrow> peer \<Rightarrow> peer_manager" where
  "on_request_success pm i = update_peer pm i record_success"

definition on_request_failure :: "peer_manager \<Rightarrow> peer \<Rightarrow> peer_manager" where
  "on_request_failure pm i = update_peer pm i record_failure"

section \<open>Invariant\<close>

definition peer_ok :: "peer \<Rightarrow> sync_peer \<Rightarrow> bool" where
  "peer_ok i p \<longleftrightarrow> pi_peer_id (sp_info p) = i \<and>
     MIN_PEER_SCORE \<le> sp_score p \<and> sp_score p \<le> MAX_PEER_SCORE \<and>
     0 \<le> sp_requests_in_flight p \<and> sp_requests_in_flight p \<le> MAX_CONCURRENT_REQUESTS"

definition peers_inv :: "peer_manager \<Rightarrow> bool" where
  "peers_inv pm \<longleftrightarrow> dwf pm \<and> (\<forall>i p. dget pm i = Some p \<longrightarrow> peer_ok i p)"

lemma update_peer_inv:
  "peers_inv pm \<Longrightarrow> (\<And>p. dget pm i = Some p \<Longrightarrow> peer_ok i p \<Longrightarrow> peer_ok i (f p)) \<Longrightarrow> peers_inv (update_peer pm i f)"
  by (auto simp: peers_inv_def update_peer_def dict.wf_put dict.get_put split: option.splits if_splits)

lemma add_peer_inv: "peers_inv pm \<Longrightarrow> peers_inv (snd (add_peer pm info))"
  by (auto simp: peers_inv_def add_peer_def Let_def dict.wf_put dict.get_put peer_ok_def peer_constants
      split: option.splits if_splits)

lemma remove_peer_inv: "peers_inv pm \<Longrightarrow> peers_inv (snd (remove_peer pm i))"
  by (auto simp: peers_inv_def remove_peer_def dict.wf_del dict.get_del split: if_splits)

lemma update_status_inv: "peers_inv pm \<Longrightarrow> peers_inv (update_status pm i st)"
  unfolding update_status_def by (erule update_peer_inv) (simp add: peer_ok_def)

lemma on_request_success_inv: "peers_inv pm \<Longrightarrow> peers_inv (on_request_success pm i)"
  unfolding on_request_success_def by (erule update_peer_inv) (auto simp: peer_ok_def record_success_def peer_constants)

lemma on_request_failure_inv: "peers_inv pm \<Longrightarrow> peers_inv (on_request_failure pm i)"
  unfolding on_request_failure_def by (erule update_peer_inv) (auto simp: peer_ok_def record_failure_def peer_constants)

lemma select_member:
  assumes "picks pick" and "select_peer_for_request pick pm min_slot = Some p"
  shows "p \<in> set (candidates pm min_slot)"
proof -
  let ?cs = "candidates pm min_slot" let ?ws = "map (\<lambda>p. max (sp_score p) 1) ?cs"
  have ne: "?cs \<noteq> []" and p: "p = ?cs ! pick ?ws" using assms(2) by (auto simp: select_peer_for_request_def Let_def split: if_splits)
  have "\<forall>w \<in> set ?ws. 0 < w" by auto
  then have "pick ?ws < length ?ws" using assms(1) [unfolded picks_def, rule_format, of ?ws] ne by (simp only: map_is_Nil_conv simp_thms)
  with p show ?thesis by simp
qed

lemma candidate_tracked: "p \<in> set (candidates pm m) \<Longrightarrow> peers_inv pm \<Longrightarrow> dget pm (pi_peer_id (sp_info p)) = Some p"
  by (auto simp: candidates_def peers_inv_def peer_ok_def dget_iff_mem)

lemma start_inv:
  assumes "peers_inv pm" and "picks pick" and "select_peer_for_request pick pm m = Some p"
  shows "peers_inv (update_peer pm (pi_peer_id (sp_info p)) on_request_start)"
proof (rule update_peer_inv [OF assms(1)])
  fix q
  assume q: "dget pm (pi_peer_id (sp_info p)) = Some q" "peer_ok (pi_peer_id (sp_info p)) q"
  have m: "p \<in> set (candidates pm m)" by (rule select_member [OF assms(2,3)])
  have "q = p" using candidate_tracked [OF m assms(1)] q(1) by simp
  moreover have "is_available p" using m by (simp add: candidates_def)
  ultimately show "peer_ok (pi_peer_id (sp_info p)) (on_request_start q)" using q(2)
    by (simp add: peer_ok_def on_request_start_def is_available_def)
qed

section \<open>The manager as a state machine\<close>

text \<open>
  Requests start on a peer that was just selected, as the backfill does; everything else may happen in
  any order.
\<close>

inductive peers_step :: "(int list \<Rightarrow> nat) \<Rightarrow> peer_manager \<Rightarrow> peer_manager \<Rightarrow> bool" for pick where
  step_add_peer: "peers_step pick pm (snd (add_peer pm info))"
| step_remove_peer: "peers_step pick pm (snd (remove_peer pm i))"
| step_status: "peers_step pick pm (update_status pm i st)"
| step_start: "select_peer_for_request pick pm m = Some p \<Longrightarrow>
    peers_step pick pm (update_peer pm (pi_peer_id (sp_info p)) on_request_start)"
| step_success: "peers_step pick pm (on_request_success pm i)"
| step_failure: "peers_step pick pm (on_request_failure pm i)"

lemma peers_step_inv: "peers_step pick pm pm' \<Longrightarrow> picks pick \<Longrightarrow> peers_inv pm \<Longrightarrow> peers_inv pm'"
  by (induction rule: peers_step.induct)
     (auto intro: add_peer_inv remove_peer_inv update_status_inv start_inv on_request_success_inv on_request_failure_inv)

text \<open>The steps of a manager with a sound random choice, the contract the machine needs.\<close>

definition sound_peers_step :: "(int list \<Rightarrow> nat) \<Rightarrow> peer_manager \<Rightarrow> peer_manager \<Rightarrow> bool" where
  "sound_peers_step pick pm pm' \<longleftrightarrow> picks pick \<and> peers_step pick pm pm'"

interpretation peers_machine: machine "\<lambda>pm. pm = []" "sound_peers_step pick" peers_inv for pick
proof
  show "peers_inv pm" if "pm = []" for pm using that by (simp add: peers_inv_def dwf_def)
  show "peers_inv pm'" if "peers_inv pm" "sound_peers_step pick pm pm'" for pm pm'
    using that peers_step_inv unfolding sound_peers_step_def by blast
qed

section \<open>The finalized slot most peers claim\<close>

lemma network_slot_iff:
  "get_network_finalized_slot pm = Some s \<longleftrightarrow> s \<in> set (finalized_reports pm) \<and>
     (\<forall>t \<in> set (finalized_reports pm). (count_list (finalized_reports pm) t, t) \<le> (count_list (finalized_reports pm) s, s))"
proof -
  have "inj_on (\<lambda>s. (count_list (finalized_reports pm) s, s)) (set (remdups (finalized_reports pm)))" by (simp add: inj_on_def)
  from max_by_iff [OF this, of s] show ?thesis
    by (simp add: get_network_finalized_slot_def Let_def)
qed

section \<open>Properties\<close>

text \<open>
  Property C18: in every state the peer manager can reach, all scores stay between the floor and the ceiling
  and no peer ever has more than \<^verbatim>\<open>MAX_CONCURRENT_REQUESTS\<close> requests in flight, nor fewer than none.
\<close>

theorem peer_manager_invariant:
  assumes "reach (\<lambda>pm. pm = []) (sound_peers_step pick) pm" and "dget pm i = Some p"
  shows "pi_peer_id (sp_info p) = i \<and> MIN_PEER_SCORE \<le> sp_score p \<and> sp_score p \<le> MAX_PEER_SCORE \<and>
    0 \<le> sp_requests_in_flight p \<and> sp_requests_in_flight p \<le> MAX_CONCURRENT_REQUESTS"
  using peers_machine.reach_inv [OF assms(1)] assms(2) by (simp add: peers_inv_def peer_ok_def)

definition sample_peer :: peer_info where
  "sample_peer = \<lparr>pi_peer_id = [9], pi_state = CONNECTED, pi_direction = OUTBOUND, pi_address = None, pi_status = None\<rparr>"

theorem peer_manager_invariant_witness:
  "\<exists>p. dget (snd (add_peer [] sample_peer)) [9] = Some p \<and> sp_score p \<le> MAX_PEER_SCORE"
proof -
  have "reach (\<lambda>pm. pm = []) (sound_peers_step (\<lambda>_. 0)) []" by (rule reach_init) simp
  moreover have "sound_peers_step (\<lambda>_. 0) [] (snd (add_peer [] sample_peer))"
    by (simp add: sound_peers_step_def picks_def step_add_peer)
  ultimately have r: "reach (\<lambda>pm. pm = []) (sound_peers_step (\<lambda>_. 0)) (snd (add_peer [] sample_peer))" by (rule reach_step)
  obtain p where p: "dget (snd (add_peer [] sample_peer)) [9] = Some p"
    by (simp add: add_peer_def sample_peer_def dput_def Let_def)
  with peer_manager_invariant [OF r p] show ?thesis by blast
qed

text \<open>
  Property C30: peer selection returns only a tracked peer that is connected, below its request limit and, when
  a slot is asked for, claims a head at or above it; it returns none only when there is no such peer,
  so that no peer is excluded by its score.
\<close>

theorem select_peer_sound:
  assumes "peers_inv pm" and "picks pick"
  shows "case select_peer_for_request pick pm min_slot of
      Some p \<Rightarrow> dget pm (pi_peer_id (sp_info p)) = Some p \<and> is_connected p \<and>
        sp_requests_in_flight p < MAX_CONCURRENT_REQUESTS \<and> (\<forall>s. min_slot = Some s \<longrightarrow> has_slot p s)
    | None \<Rightarrow> (\<forall>i p. dget pm i = Some p \<longrightarrow> \<not> (is_available p \<and> (\<forall>s. min_slot = Some s \<longrightarrow> has_slot p s)))"
proof (cases "select_peer_for_request pick pm min_slot")
  case None
  then have "candidates pm min_slot = []" by (auto simp: select_peer_for_request_def Let_def split: if_splits)
  then show ?thesis using None
    by (force simp: candidates_def filter_empty_conv dest!: dget_in_set split: option.splits)
next
  case (Some p)
  then have "p \<in> set (candidates pm min_slot)" by (rule select_member [OF assms(2)])
  then show ?thesis using Some candidate_tracked [OF _ assms(1), of p min_slot]
    by (auto simp: candidates_def is_available_def)
qed

theorem select_peer_sound_witness:
  "\<exists>p. select_peer_for_request (\<lambda>_. 0) (snd (add_peer [] sample_peer)) None = Some p \<and> is_connected p"
proof -
  have i: "peers_inv (snd (add_peer [] sample_peer))" by (rule add_peer_inv) (simp add: peers_inv_def dwf_def)
  have k: "picks (\<lambda>_. 0)" by (simp add: picks_def)
  obtain p where p: "select_peer_for_request (\<lambda>_. 0) (snd (add_peer [] sample_peer)) None = Some p"
    by (simp add: select_peer_for_request_def candidates_def add_peer_def sample_peer_def dput_def is_available_def
        is_connected_def info_is_connected_def peer_constants Let_def)
  with select_peer_sound [OF i k, of None] show ?thesis by simp
qed


definition sample_peers :: peer_manager where
  "sample_peers = update_status (snd (add_peer [] sample_peer)) [9]
     \<lparr>stt_finalized = \<lparr>cp_root = [], cp_slot = 7\<rparr>, stt_head = \<lparr>cp_root = [], cp_slot = 8\<rparr>\<rparr>"


end
