(* ===== verification/Gossip_Cache.thy ===== *)
theory Gossip_Cache
  imports Merkle Gossip_Rpc Complex_Main
begin

text \<open>
  The gossipsub message identifier and the two caches of the router, \<^verbatim>\<open>node/networking/gossipsub/\<close>
  \<^verbatim>\<open>message.py\<close>, \<^verbatim>\<open>mcache.py\<close> and \<^verbatim>\<open>types.py\<close>. The sliding-window message cache is shown to refine a map from
  message identifiers to an entry and its age in heartbeats. SHA-256 is the parameter \<open>H\<close>; timestamps are the real
  numbers the floats denote.
\<close>

section \<open>Messages\<close>

type_synonym message_id = bytes
type_synonym topic_id = pystr
type_synonym timestamp = real

definition MESSAGE_DOMAIN_INVALID_SNAPPY :: bytes where "MESSAGE_DOMAIN_INVALID_SNAPPY = [0, 0, 0, 0]"
definition MESSAGE_DOMAIN_VALID_SNAPPY :: bytes where "MESSAGE_DOMAIN_VALID_SNAPPY = [1, 0, 0, 0]"

text \<open>The constructor of the 20-byte identifier.\<close>

definition make_message_id :: "bytes \<Rightarrow> message_id result" where
  "make_message_id bs = (if length bs = 20 then Inr bs else Inl SSZValueError)"

definition compute_id :: "digest \<Rightarrow> bytes \<Rightarrow> bytes \<Rightarrow> bytes option \<Rightarrow> message_id result" where
  "compute_id H topic data domain =
     (let dom = (case domain of None \<Rightarrow> MESSAGE_DOMAIN_INVALID_SNAPPY | Some d \<Rightarrow> d)
      in rbind (to_bytes_le 8 (length topic)) (\<lambda>topic_length.
           let preimage = dom @ topic_length @ topic @ data
           in make_message_id (take 20 (H preimage))))"

record gossip_message =
  gm_topic :: bytes
  gm_raw_data :: bytes
  gm_cached_id :: "message_id option"

definition gossip_message_id :: "digest \<Rightarrow> gossip_message \<Rightarrow> message_id result" where
  "gossip_message_id H m = (case gm_cached_id m of Some i \<Rightarrow> Inr i | None \<Rightarrow> compute_id H (gm_topic m) (gm_raw_data m) None)"

section \<open>The message cache\<close>

record cache_entry =
  ce_message :: gossip_message
  ce_topic :: topic_id

record message_cache =
  mc_length :: nat
  mc_gossip :: nat
  mc_windows :: "message_id set list"
  mc_by_id :: "(message_id, cache_entry) dict"

text \<open>A deque with \<^verbatim>\<open>maxlen\<close> discards from the other end.\<close>

definition new_message_cache :: "nat \<Rightarrow> nat \<Rightarrow> message_cache" where
  "new_message_cache len gossip = \<lparr>mc_length = len, mc_gossip = gossip, mc_windows = take len [{}], mc_by_id = []\<rparr>"

definition mcache_put :: "digest \<Rightarrow> message_cache \<Rightarrow> topic_id \<Rightarrow> gossip_message \<Rightarrow> (bool \<times> message_cache) result" where
  "mcache_put H c topic m =
     rbind (gossip_message_id H m) (\<lambda>i.
       if dget (mc_by_id c) i \<noteq> None then Inr (False, c)
       else case mc_windows c of
              [] \<Rightarrow> Inl IndexError
            | w # ws \<Rightarrow> Inr (True, c\<lparr>mc_windows := insert i w # ws,
                mc_by_id := dput (mc_by_id c) i \<lparr>ce_message = m, ce_topic = topic\<rparr>\<rparr>))"

definition mcache_get :: "message_cache \<Rightarrow> message_id \<Rightarrow> gossip_message option" where
  "mcache_get c i = (case dget (mc_by_id c) i of None \<Rightarrow> None | Some e \<Rightarrow> Some (ce_message e))"

definition mcache_has :: "message_cache \<Rightarrow> message_id \<Rightarrow> bool" where
  "mcache_has c i \<longleftrightarrow> dget (mc_by_id c) i \<noteq> None"

definition get_gossip_ids :: "(message_id set \<Rightarrow> message_id list) \<Rightarrow> message_cache \<Rightarrow> topic_id \<Rightarrow> message_id list" where
  "get_gossip_ids iter c topic =
     (let windows_to_check = min (mc_gossip c) (length (mc_windows c))
      in concat (map (\<lambda>window. filter (\<lambda>i. case dget (mc_by_id c) i of None \<Rightarrow> False | Some e \<Rightarrow> ce_topic e = topic) (iter window))
           (take windows_to_check (mc_windows c))))"

definition mcache_shift :: "message_cache \<Rightarrow> (nat \<times> message_cache) result" where
  "mcache_shift c =
     (if length (mc_windows c) \<ge> mc_length c then
        if mc_windows c = [] then Inl IndexError
        else let oldest = last (mc_windows c);
                 evicted = card (Set.filter (\<lambda>i. dget (mc_by_id c) i \<noteq> None) oldest)
             in Inr (evicted, c\<lparr>mc_windows := take (mc_length c) ({} # butlast (mc_windows c)),
                  mc_by_id := dfilter (\<lambda>i. i \<notin> oldest) (mc_by_id c)\<rparr>)
      else Inr (0, c\<lparr>mc_windows := take (mc_length c) ({} # mc_windows c)\<rparr>))"

section \<open>The seen cache\<close>

record seen_cache =
  sc_ttl_seconds :: nat
  sc_timestamps :: "(message_id, timestamp) dict"

definition new_seen_cache :: "nat \<Rightarrow> seen_cache" where
  "new_seen_cache ttl = \<lparr>sc_ttl_seconds = ttl, sc_timestamps = []\<rparr>"

definition seen_add :: "seen_cache \<Rightarrow> message_id \<Rightarrow> timestamp \<Rightarrow> bool \<times> seen_cache" where
  "seen_add c i t =
     (if dget (sc_timestamps c) i \<noteq> None then (False, c)
      else (True, c\<lparr>sc_timestamps := dput (sc_timestamps c) i t\<rparr>))"

definition seen_has :: "seen_cache \<Rightarrow> message_id \<Rightarrow> bool" where
  "seen_has c i \<longleftrightarrow> dget (sc_timestamps c) i \<noteq> None"

definition seen_cleanup :: "seen_cache \<Rightarrow> timestamp \<Rightarrow> nat \<times> seen_cache" where
  "seen_cleanup c current_time =
     (let cutoff = current_time - real (sc_ttl_seconds c);
          expired = map fst (filter (\<lambda>(i, ts). ts < cutoff) (sc_timestamps c))
      in (length expired, c\<lparr>sc_timestamps := dfilter (\<lambda>i. i \<notin> set expired) (sc_timestamps c)\<rparr>))"

section \<open>The cache as an ageing map\<close>

text \<open>What the window structure promises: an entry with its age in heartbeats.\<close>

type_synonym ageing_map = "message_id \<Rightarrow> (cache_entry \<times> nat) option"

definition spec_put :: "message_id \<Rightarrow> cache_entry \<Rightarrow> ageing_map \<Rightarrow> ageing_map" where
  "spec_put i e m = (if m i = None then m(i \<mapsto> (e, 0)) else m)"

definition spec_shift :: "nat \<Rightarrow> ageing_map \<Rightarrow> ageing_map" where
  "spec_shift len m = (\<lambda>i. case m i of None \<Rightarrow> None | Some (e, a) \<Rightarrow> if a + 1 < len then Some (e, a + 1) else None)"

definition window_of :: "message_id set list \<Rightarrow> message_id \<Rightarrow> nat" where
  "window_of ws i = length (takeWhile (\<lambda>w. i \<notin> w) ws)"

definition abs_cache :: "message_cache \<Rightarrow> ageing_map" where
  "abs_cache c = (\<lambda>i. case dget (mc_by_id c) i of None \<Rightarrow> None | Some e \<Rightarrow> Some (e, window_of (mc_windows c) i))"

text \<open>Every indexed identifier lies in exactly one window and the windows hold nothing else.\<close>

fun disjoint_windows :: "message_id set list \<Rightarrow> bool" where
  "disjoint_windows [] \<longleftrightarrow> True"
| "disjoint_windows (w # ws) \<longleftrightarrow> w \<inter> \<Union> (set ws) = {} \<and> disjoint_windows ws"

definition mcache_inv :: "message_cache \<Rightarrow> bool" where
  "mcache_inv c \<longleftrightarrow> mc_windows c \<noteq> [] \<and> length (mc_windows c) \<le> mc_length c \<and> list_all finite (mc_windows c) \<and>
     disjoint_windows (mc_windows c) \<and> \<Union> (set (mc_windows c)) = set (dkeys (mc_by_id c)) \<and> dwf (mc_by_id c)"

lemma disjoint_windows_append:
  "disjoint_windows (xs @ ys) \<longleftrightarrow> disjoint_windows xs \<and> disjoint_windows ys \<and> \<Union> (set xs) \<inter> \<Union> (set ys) = {}"
  by (induction xs) auto

lemma window_of_Cons: "window_of (w # ws) i = (if i \<in> w then 0 else Suc (window_of ws i))"
  by (simp add: window_of_def)

lemma window_of_append: "i \<in> \<Union> (set xs) \<Longrightarrow> window_of (xs @ ys) i = window_of xs i"
  by (induction xs) (auto simp: window_of_Cons)

lemma window_of_less: "i \<in> \<Union> (set ws) \<Longrightarrow> window_of ws i < length ws"
  by (induction ws) (auto simp: window_of_Cons)

lemma window_of_nth: "i \<in> \<Union> (set ws) \<Longrightarrow> i \<in> ws ! window_of ws i"
  by (induction ws) (auto simp: window_of_Cons)

lemma window_of_unique: "disjoint_windows ws \<Longrightarrow> k < length ws \<Longrightarrow> i \<in> ws ! k \<Longrightarrow> window_of ws i = k"
proof (induction ws arbitrary: k)
  case (Cons w ws)
  then show ?case by (cases k) (auto simp: window_of_Cons dest!: nth_mem)
qed simp

lemma new_message_cache_inv: "0 < len \<Longrightarrow> mcache_inv (new_message_cache len gossip)"
  by (cases len) (simp_all add: mcache_inv_def new_message_cache_def dkeys_def dwf_def)

lemma mcache_keys: "mcache_inv c \<Longrightarrow> i \<in> \<Union> (set (mc_windows c)) \<longleftrightarrow> dget (mc_by_id c) i \<noteq> None"
  unfolding mcache_inv_def by (simp add: dict.set_keys)

lemma mcache_put_step:
  assumes inv: "mcache_inv c" and i: "gossip_message_id H m = Inr i" and new: "dget (mc_by_id c) i = None"
  obtains w ws where "mc_windows c = w # ws" "mcache_put H c topic m = Inr (True, c\<lparr>mc_windows := insert i w # ws,
    mc_by_id := dput (mc_by_id c) i \<lparr>ce_message = m, ce_topic = topic\<rparr>\<rparr>)"
proof -
  obtain w ws where "mc_windows c = w # ws" using inv by (cases "mc_windows c") (auto simp: mcache_inv_def)
  with i new that show ?thesis by (simp add: mcache_put_def)
qed

lemma mcache_put_ok:
  assumes inv: "mcache_inv c" and i: "gossip_message_id H m = Inr i"
  obtains c' where "mcache_put H c topic m = Inr (dget (mc_by_id c) i = None, c')" "mcache_inv c'"
    "mc_length c' = mc_length c" "mc_gossip c' = mc_gossip c"
    "abs_cache c' = spec_put i \<lparr>ce_message = m, ce_topic = topic\<rparr> (abs_cache c)"
proof (cases "dget (mc_by_id c) i = None")
  case True
  obtain w ws where w: "mc_windows c = w # ws" and put: "mcache_put H c topic m = Inr (True, c\<lparr>mc_windows := insert i w # ws,
      mc_by_id := dput (mc_by_id c) i \<lparr>ce_message = m, ce_topic = topic\<rparr>\<rparr>)"
    by (rule mcache_put_step [OF inv i True])
  let ?c = "c\<lparr>mc_windows := insert i w # ws, mc_by_id := dput (mc_by_id c) i \<lparr>ce_message = m, ce_topic = topic\<rparr>\<rparr>"
  have fresh: "i \<notin> \<Union> (set (w # ws))" using mcache_keys [OF inv, of i] True w by simp
  have "mcache_inv ?c"
    using inv w fresh by (auto simp: mcache_inv_def dict.keys_put dict.wf_put)
  moreover have "abs_cache ?c j = spec_put i \<lparr>ce_message = m, ce_topic = topic\<rparr> (abs_cache c) j" for j
    using True w by (auto simp: abs_cache_def spec_put_def dict.get_put window_of_Cons split: option.split)
  ultimately show ?thesis using put True that by (auto simp: fun_eq_iff)
next
  case False
  then have "mcache_put H c topic m = Inr (False, c)" using i by (simp add: mcache_put_def)
  with False inv show ?thesis by (intro that [of c]) (auto simp: spec_put_def abs_cache_def)
qed

lemma mcache_shift_full:
  assumes inv: "mcache_inv c" and full: "mc_length c \<le> length (mc_windows c)"
  shows "\<exists>n c'. mcache_shift c = Inr (n, c') \<and> mcache_inv c' \<and> mc_length c' = mc_length c \<and> mc_gossip c' = mc_gossip c \<and>
    abs_cache c' = spec_shift (mc_length c) (abs_cache c)"
proof -
  define ws old where "ws = butlast (mc_windows c)" and "old = last (mc_windows c)"
  have w: "mc_windows c = ws @ [old]" using inv by (simp add: ws_def old_def mcache_inv_def)
  have len: "mc_length c = Suc (length ws)" using inv full w by (simp add: mcache_inv_def)
  let ?c = "c\<lparr>mc_windows := {} # ws, mc_by_id := dfilter (\<lambda>i. i \<notin> old) (mc_by_id c)\<rparr>"
  have run: "\<exists>n. mcache_shift c = Inr (n, ?c)"
    using full len by (simp add: mcache_shift_def w Let_def)
  have keys: "set (dkeys (mc_by_id c)) = \<Union> (set ws) \<union> old" using inv w by (auto simp: mcache_inv_def)
  have dis: "\<Union> (set ws) \<inter> old = {}" "disjoint_windows ws" using inv w by (simp_all add: mcache_inv_def disjoint_windows_append)
  have "\<Union> (set ({} # ws)) = set (dkeys (mc_by_id ?c))"
    using keys dis(1) by (auto simp: dict.keys_restrict)
  then have inv': "mcache_inv ?c" using inv w dis(2) by (simp add: mcache_inv_def dict.wf_restrict)
  have "abs_cache ?c i = spec_shift (mc_length c) (abs_cache c) i" for i
  proof (cases "dget (mc_by_id c) i")
    case None
    then show ?thesis by (simp add: abs_cache_def spec_shift_def dict.get_restrict)
  next
    case (Some e)
    then have mem: "i \<in> \<Union> (set ws) \<union> old" using mcache_keys [OF inv, of i] w by auto
    show ?thesis
    proof (cases "i \<in> old")
      case True
      have "window_of (mc_windows c) i = length ws"
        by (rule window_of_unique) (use inv w True in \<open>simp_all add: mcache_inv_def\<close>)
      with True Some len show ?thesis by (simp add: abs_cache_def spec_shift_def dict.get_restrict)
    next
      case False
      with mem have "i \<in> \<Union> (set ws)" by simp
      with window_of_less [OF this] window_of_append [OF this, of "[old]"] False Some len w show ?thesis
        by (simp add: abs_cache_def spec_shift_def dict.get_restrict window_of_Cons)
    qed
  qed
  then have "abs_cache ?c = spec_shift (mc_length c) (abs_cache c)" by (simp add: fun_eq_iff)
  with run inv' show ?thesis by auto
qed

lemma mcache_shift_ok:
  assumes inv: "mcache_inv c"
  shows "\<exists>n c'. mcache_shift c = Inr (n, c') \<and> mcache_inv c' \<and> mc_length c' = mc_length c \<and> mc_gossip c' = mc_gossip c \<and>
    abs_cache c' = spec_shift (mc_length c) (abs_cache c)"
proof (cases "mc_length c \<le> length (mc_windows c)")
  case False
  let ?c = "c\<lparr>mc_windows := {} # mc_windows c\<rparr>"
  have run: "mcache_shift c = Inr (0, ?c)" using False by (simp add: mcache_shift_def)
  have inv': "mcache_inv ?c" using inv False by (simp add: mcache_inv_def)
  have "abs_cache ?c i = spec_shift (mc_length c) (abs_cache c) i" for i
    using window_of_less [of i "mc_windows c"] mcache_keys [OF inv, of i] False
    by (auto simp: abs_cache_def spec_shift_def window_of_Cons split: option.split)
  then have "abs_cache ?c = spec_shift (mc_length c) (abs_cache c)" by (simp add: fun_eq_iff)
  with run inv' show ?thesis by auto
qed (rule mcache_shift_full [OF inv])

lemma gossip_ids_set:
  assumes inv: "mcache_inv c" and iter: "set_order iter"
  shows "set (get_gossip_ids iter c topic) = {i. \<exists>e a. abs_cache c i = Some (e, a) \<and> a < mc_gossip c \<and> ce_topic e = topic}"
proof -
  let ?k = "min (mc_gossip c) (length (mc_windows c))"
  have win: "(\<exists>w \<in> set (take ?k (mc_windows c)). i \<in> w) \<longleftrightarrow> window_of (mc_windows c) i < mc_gossip c"
    if "i \<in> \<Union> (set (mc_windows c))" for i
  proof
    assume "\<exists>w \<in> set (take ?k (mc_windows c)). i \<in> w"
    then obtain k where "k < ?k" "i \<in> mc_windows c ! k" by (auto simp: in_set_conv_nth)
    then show "window_of (mc_windows c) i < mc_gossip c"
      using window_of_unique [of "mc_windows c" k i] inv by (simp add: mcache_inv_def)
  next
    assume "window_of (mc_windows c) i < mc_gossip c"
    then have "window_of (mc_windows c) i < length (take ?k (mc_windows c))" using window_of_less [OF that] by simp
    moreover have "i \<in> take ?k (mc_windows c) ! window_of (mc_windows c) i"
      using window_of_nth [OF that] calculation by simp
    ultimately show "\<exists>w \<in> set (take ?k (mc_windows c)). i \<in> w" using nth_mem by blast
  qed
  have "list_all finite (take ?k (mc_windows c))"
    using inv by (auto simp: mcache_inv_def list_all_iff dest: in_set_takeD)
  then have "set (get_gossip_ids iter c topic) = {i. (\<exists>w \<in> set (take ?k (mc_windows c)). i \<in> w) \<and>
      (\<exists>e. dget (mc_by_id c) i = Some e \<and> ce_topic e = topic)}"
    using iter by (auto simp: get_gossip_ids_def Let_def set_order_def list_all_iff split: option.splits)
  then show ?thesis using win mcache_keys [OF inv] by (auto simp: abs_cache_def split: option.splits)
qed

lemma mcache_get_abs: "mcache_get c i = (case abs_cache c i of None \<Rightarrow> None | Some (e, a) \<Rightarrow> Some (ce_message e))"
  by (simp add: mcache_get_def abs_cache_def split: option.split)

lemma mcache_has_abs: "mcache_has c i \<longleftrightarrow> abs_cache c i \<noteq> None"
  by (simp add: mcache_has_def abs_cache_def split: option.split)

text \<open>Repeated heartbeats.\<close>

fun shift_times :: "nat \<Rightarrow> message_cache \<Rightarrow> message_cache result" where
  "shift_times 0 c = Inr c"
| "shift_times (Suc k) c = rbind (mcache_shift c) (\<lambda>(_, c'). shift_times k c')"

lemma shift_times_abs:
  assumes "mcache_inv c"
  shows "\<exists>c'. shift_times k c = Inr c' \<and> mcache_inv c' \<and> abs_cache c' = (spec_shift (mc_length c) ^^ k) (abs_cache c)"
  using assms
proof (induction k arbitrary: c)
  case (Suc k)
  obtain n c1 where c1: "mcache_shift c = Inr (n, c1)" "mcache_inv c1" "mc_length c1 = mc_length c"
      "abs_cache c1 = spec_shift (mc_length c) (abs_cache c)"
    using mcache_shift_ok [OF Suc.prems] by blast
  with Suc.IH [of c1] show ?case by (auto simp: funpow_swap1)
qed simp

lemma spec_shift_times:
  "(spec_shift len ^^ k) m i = (case m i of None \<Rightarrow> None | Some (e, a) \<Rightarrow> if k = 0 \<or> a + k < len then Some (e, a + k) else None)"
  by (induction k) (auto simp: spec_shift_def split: option.split)

lemma compute_id_total:
  assumes "digest_ok H" and "length topic < 2 ^ 64"
  shows "\<exists>i. compute_id H topic data domain = Inr i \<and> length i = 20"
  using assms by (simp add: compute_id_def Let_def to_bytes_le_def make_message_id_def digest_ok_def)

section \<open>Properties\<close>

text \<open>
  Property C12: the sliding-window cache refines an ageing map. Under the cache invariant, which every operation keeps,
  adding a message stores it with age zero unless it is known, a heartbeat raises every age by one and drops exactly
  the messages whose age reaches the number of windows, lookups return the stored message, and the identifiers
  advertised for a topic are those of its messages younger than the gossip window count.
\<close>

theorem mcache_refinement:
  assumes "mcache_inv c" and "gossip_message_id H m = Inr i" and "set_order iter"
  shows "(\<exists>c'. mcache_put H c topic m = Inr (abs_cache c i = None, c') \<and> mcache_inv c' \<and>
      abs_cache c' = spec_put i \<lparr>ce_message = m, ce_topic = topic\<rparr> (abs_cache c)) \<and>
    (\<exists>n c'. mcache_shift c = Inr (n, c') \<and> mcache_inv c' \<and> abs_cache c' = spec_shift (mc_length c) (abs_cache c)) \<and>
    mcache_get c j = (case abs_cache c j of None \<Rightarrow> None | Some (e, a) \<Rightarrow> Some (ce_message e)) \<and>
    set (get_gossip_ids iter c topic) = {k. \<exists>e a. abs_cache c k = Some (e, a) \<and> a < mc_gossip c \<and> ce_topic e = topic}"
proof (intro conjI)
  obtain c' where c': "mcache_put H c topic m = Inr (dget (mc_by_id c) i = None, c')" "mcache_inv c'"
      "abs_cache c' = spec_put i \<lparr>ce_message = m, ce_topic = topic\<rparr> (abs_cache c)"
    by (rule mcache_put_ok [OF assms(1,2)])
  moreover have "dget (mc_by_id c) i = None \<longleftrightarrow> abs_cache c i = None" by (simp add: abs_cache_def split: option.split)
  ultimately show "\<exists>c'. mcache_put H c topic m = Inr (abs_cache c i = None, c') \<and> mcache_inv c' \<and>
      abs_cache c' = spec_put i \<lparr>ce_message = m, ce_topic = topic\<rparr> (abs_cache c)" by simp
  show "\<exists>n c'. mcache_shift c = Inr (n, c') \<and> mcache_inv c' \<and> abs_cache c' = spec_shift (mc_length c) (abs_cache c)"
    using mcache_shift_ok [OF assms(1)] by blast
qed (rule mcache_get_abs gossip_ids_set [OF assms(1,3)])+

definition sample_message :: gossip_message where
  "sample_message = \<lparr>gm_topic = [116], gm_raw_data = [1, 2], gm_cached_id = Some (replicate 20 7)\<rparr>"

theorem mcache_refinement_witness:
  "\<exists>c'. mcache_put (\<lambda>_. []) (new_message_cache 6 3) [116] sample_message = Inr (True, c') \<and> mcache_inv c' \<and>
     abs_cache c' (replicate 20 7) = Some (\<lparr>ce_message = sample_message, ce_topic = [116]\<rparr>, 0)"
proof -
  have inv: "mcache_inv (new_message_cache 6 3)" by (rule new_message_cache_inv) simp
  have i: "gossip_message_id (\<lambda>_. []) sample_message = Inr (replicate 20 7)"
    by (simp add: gossip_message_id_def sample_message_def)
  have o: "set_order (sorted_list_of_set :: message_id set \<Rightarrow> message_id list)" by (simp add: set_order_def)
  have "abs_cache (new_message_cache 6 3) = (\<lambda>_. None)" by (simp add: abs_cache_def new_message_cache_def)
  with mcache_refinement [OF inv i o, of "[116]" "[]"] show ?thesis by (auto simp: spec_put_def)
qed

text \<open>
  A newly cached message can be fetched for exactly \<^verbatim>\<open>mcache_length\<close> heartbeats: after \<open>k\<close> shifts the cache
  returns it when \<open>k\<close> is smaller than the number of windows and has forgotten it afterwards.
\<close>

theorem mcache_lifetime:
  assumes "mcache_inv c" and "gossip_message_id H m = Inr i" and "mcache_put H c topic m = Inr (True, c1)"
  shows "\<exists>c2. shift_times k c1 = Inr c2 \<and> mcache_get c2 i = (if k < mc_length c then Some m else None)"
proof -
  obtain c' where c': "mcache_put H c topic m = Inr (dget (mc_by_id c) i = None, c')" "mcache_inv c'" "mc_length c' = mc_length c"
      "abs_cache c' = spec_put i \<lparr>ce_message = m, ce_topic = topic\<rparr> (abs_cache c)"
    by (rule mcache_put_ok [OF assms(1,2)])
  then have "abs_cache c i = None" "c1 = c'" using assms(3) by (simp_all add: abs_cache_def)
  then have c1: "mcache_inv c1" "mc_length c1 = mc_length c" "abs_cache c1 i = Some (\<lparr>ce_message = m, ce_topic = topic\<rparr>, 0)"
    using c' by (simp_all add: spec_put_def)
  have pos: "0 < mc_length c" using assms(1) by (cases "mc_windows c") (auto simp: mcache_inv_def)
  obtain c2 where "shift_times k c1 = Inr c2" "abs_cache c2 = (spec_shift (mc_length c) ^^ k) (abs_cache c1)"
    using shift_times_abs [OF c1(1), of k] c1(2) by auto
  then show ?thesis using c1(3) pos by (auto simp: mcache_get_abs spec_shift_times)
qed

theorem mcache_lifetime_witness:
  "\<exists>c1 c2. mcache_put (\<lambda>_. []) (new_message_cache 6 3) [116] sample_message = Inr (True, c1) \<and>
     shift_times 5 c1 = Inr c2 \<and> mcache_get c2 (replicate 20 7) = Some sample_message"
proof -
  have inv: "mcache_inv (new_message_cache 6 3)" by (rule new_message_cache_inv) simp
  have i: "gossip_message_id (\<lambda>_. []) sample_message = Inr (replicate 20 7)"
    by (simp add: gossip_message_id_def sample_message_def)
  have p: "\<exists>c1. mcache_put (\<lambda>_. []) (new_message_cache 6 3) [116] sample_message = Inr (True, c1)"
    by (simp add: mcache_put_def i new_message_cache_def)
  then obtain c1 where c1: "mcache_put (\<lambda>_. []) (new_message_cache 6 3) [116] sample_message = Inr (True, c1)" by blast
  from mcache_lifetime [OF inv i c1, of 5] c1 show ?thesis by (simp add: new_message_cache_def)
qed

end
