(* ===== verification/Gossip_Mesh.thy ===== *)
theory Gossip_Mesh
  imports Gossip_Cache Peer_Id
begin

text \<open>
  The mesh and fanout state of the gossipsub router, \<^verbatim>\<open>node/networking/gossipsub/mesh.py\<close> with the parameters of
  \<^verbatim>\<open>parameters.py\<close>. What the process reads from outside (the clock, the iteration order of sets, the random
  sample) is the record \<open>world\<close>, given to every operation that uses it.
\<close>

section \<open>Parameters and the outside world\<close>

record gossip_params =
  gp_d :: nat
  gp_d_low :: nat
  gp_d_high :: nat
  gp_d_lazy :: nat
  gp_fanout_ttl_secs :: nat
  gp_mcache_length :: nat
  gp_mcache_gossip :: nat
  gp_seen_ttl_secs :: nat

definition default_params :: gossip_params where
  "default_params = \<lparr>gp_d = 8, gp_d_low = 6, gp_d_high = 12, gp_d_lazy = 6, gp_fanout_ttl_secs = 60,
     gp_mcache_length = 6, gp_mcache_gossip = 3, gp_seen_ttl_secs = 24\<rparr>"

text \<open>The constraint the module documents: \<open>D_low \<le> D \<le> D_high\<close>, and a cache with at least one window.\<close>

definition params_ok :: "gossip_params \<Rightarrow> bool" where
  "params_ok p \<longleftrightarrow> gp_d_low p \<le> gp_d p \<and> gp_d p \<le> gp_d_high p \<and> 0 < gp_mcache_length p"

record world =
  w_now :: timestamp
  w_peers :: "peer_id set \<Rightarrow> peer_id list"
  w_topics :: "topic_id set \<Rightarrow> topic_id list"
  w_ids :: "message_id set \<Rightarrow> message_id list"
  w_sample :: "peer_id list \<Rightarrow> nat \<Rightarrow> peer_id list"

text \<open>
  \<^verbatim>\<open>random.sample(population, k)\<close> returns \<open>k\<close> different positions of the population and raises when there are
  fewer or \<open>k\<close> is negative.
\<close>

definition samples :: "('a list \<Rightarrow> nat \<Rightarrow> 'a list) \<Rightarrow> bool" where
  "samples f \<longleftrightarrow> (\<forall>xs k. k \<le> length xs \<longrightarrow> length (f xs k) = k \<and> set (f xs k) \<subseteq> set xs \<and> (distinct xs \<longrightarrow> distinct (f xs k)))"

definition random_sample :: "world \<Rightarrow> peer_id list \<Rightarrow> int \<Rightarrow> peer_id list result" where
  "random_sample w xs k = (if k < 0 \<or> k > int (length xs) then Inl ValueError else Inr (w_sample w xs (nat k)))"

definition world_ok :: "world \<Rightarrow> bool" where
  "world_ok w \<longleftrightarrow> set_order (w_peers w) \<and> set_order (w_topics w) \<and> set_order (w_ids w) \<and> samples (w_sample w)"

section \<open>Mesh state\<close>

record fanout_entry =
  fe_peers :: "peer_id set"
  fe_last_published :: timestamp

definition is_stale :: "fanout_entry \<Rightarrow> timestamp \<Rightarrow> timestamp \<Rightarrow> bool" where
  "is_stale f current_time ttl \<longleftrightarrow> current_time - fe_last_published f > ttl"

text \<open>A \<^verbatim>\<open>TopicMesh\<close> is its peer set.\<close>

definition topic_mesh_add :: "peer_id set \<Rightarrow> peer_id \<Rightarrow> bool \<times> peer_id set" where
  "topic_mesh_add peers p = (if p \<in> peers then (False, peers) else (True, insert p peers))"

definition topic_mesh_remove :: "peer_id set \<Rightarrow> peer_id \<Rightarrow> bool \<times> peer_id set" where
  "topic_mesh_remove peers p = (if p \<notin> peers then (False, peers) else (True, peers - {p}))"

record mesh_state =
  ms_params :: gossip_params
  ms_meshes :: "(topic_id, peer_id set) dict"
  ms_fanouts :: "(topic_id, fanout_entry) dict"
  ms_subscriptions :: "topic_id set"

definition new_mesh_state :: "gossip_params \<Rightarrow> mesh_state" where
  "new_mesh_state p = \<lparr>ms_params = p, ms_meshes = [], ms_fanouts = [], ms_subscriptions = {}\<rparr>"

definition fanout_topics :: "mesh_state \<Rightarrow> topic_id set" where
  "fanout_topics m = set (dkeys (ms_fanouts m))"

definition mesh_subscribe :: "mesh_state \<Rightarrow> topic_id \<Rightarrow> mesh_state" where
  "mesh_subscribe m t =
     (if t \<in> ms_subscriptions m then m
      else let m1 = m\<lparr>ms_subscriptions := insert t (ms_subscriptions m)\<rparr>
           in case dget (ms_fanouts m) t of
                None \<Rightarrow> m1\<lparr>ms_meshes := dput (ms_meshes m) t {}\<rparr>
              | Some f \<Rightarrow> m1\<lparr>ms_fanouts := ddel (ms_fanouts m) t, ms_meshes := dput (ms_meshes m) t (fe_peers f)\<rparr>)"

definition mesh_unsubscribe :: "mesh_state \<Rightarrow> topic_id \<Rightarrow> peer_id set \<times> mesh_state" where
  "mesh_unsubscribe m t =
     (let m1 = m\<lparr>ms_subscriptions := ms_subscriptions m - {t}, ms_meshes := ddel (ms_meshes m) t\<rparr>
      in case dget (ms_meshes m) t of None \<Rightarrow> ({}, m1) | Some peers \<Rightarrow> (peers, m1))"

definition get_mesh_peers :: "mesh_state \<Rightarrow> topic_id \<Rightarrow> peer_id set" where
  "get_mesh_peers m t = (case dget (ms_meshes m) t of None \<Rightarrow> {} | Some peers \<Rightarrow> peers)"

definition add_to_mesh :: "mesh_state \<Rightarrow> topic_id \<Rightarrow> peer_id \<Rightarrow> bool \<times> mesh_state" where
  "add_to_mesh m t p =
     (case dget (ms_meshes m) t of
        None \<Rightarrow> (False, m)
      | Some peers \<Rightarrow> let (added, peers') = topic_mesh_add peers p in (added, m\<lparr>ms_meshes := dput (ms_meshes m) t peers'\<rparr>))"

definition remove_from_mesh :: "mesh_state \<Rightarrow> topic_id \<Rightarrow> peer_id \<Rightarrow> bool \<times> mesh_state" where
  "remove_from_mesh m t p =
     (case dget (ms_meshes m) t of
        None \<Rightarrow> (False, m)
      | Some peers \<Rightarrow> let (removed, peers') = topic_mesh_remove peers p in (removed, m\<lparr>ms_meshes := dput (ms_meshes m) t peers'\<rparr>))"

definition get_fanout_peers :: "mesh_state \<Rightarrow> topic_id \<Rightarrow> peer_id set" where
  "get_fanout_peers m t = (case dget (ms_fanouts m) t of None \<Rightarrow> {} | Some f \<Rightarrow> fe_peers f)"

text \<open>The sample size is the smaller of a positive number and the population, so this sample never raises.\<close>

definition fill_fanout :: "world \<Rightarrow> mesh_state \<Rightarrow> topic_id \<Rightarrow> peer_id set \<Rightarrow> mesh_state" where
  "fill_fanout w m t available_peers =
     (case dget (ms_fanouts m) t of
        None \<Rightarrow> m
      | Some f \<Rightarrow>
          if card (fe_peers f) < gp_d (ms_params m) then
            let candidates = available_peers - fe_peers f;
                needed = gp_d (ms_params m) - card (fe_peers f);
                new_peers = w_sample w (w_peers w candidates) (min needed (card candidates))
            in m\<lparr>ms_fanouts := dput (ms_fanouts m) t (f\<lparr>fe_peers := fe_peers f \<union> set new_peers\<rparr>)\<rparr>
          else m)"

definition update_fanout :: "world \<Rightarrow> mesh_state \<Rightarrow> topic_id \<Rightarrow> peer_id set \<Rightarrow> peer_id set \<times> mesh_state" where
  "update_fanout w m t available_peers =
     (if t \<in> ms_subscriptions m then (get_mesh_peers m t, m)
      else let fanout = (case dget (ms_fanouts m) t of None \<Rightarrow> \<lparr>fe_peers = {}, fe_last_published = 0\<rparr> | Some f \<Rightarrow> f);
               m1 = m\<lparr>ms_fanouts := dput (ms_fanouts m) t (fanout\<lparr>fe_last_published := w_now w\<rparr>)\<rparr>;
               m2 = fill_fanout w m1 t available_peers
           in (get_fanout_peers m2 t, m2))"

definition cleanup_fanouts :: "mesh_state \<Rightarrow> timestamp \<Rightarrow> timestamp \<Rightarrow> nat \<times> mesh_state" where
  "cleanup_fanouts m ttl current_time =
     (let stale = map fst (filter (\<lambda>(t, f). is_stale f current_time ttl) (ms_fanouts m))
      in (length stale, m\<lparr>ms_fanouts := dfilter (\<lambda>t. t \<notin> set stale) (ms_fanouts m)\<rparr>))"

definition select_peers_for_gossip :: "world \<Rightarrow> mesh_state \<Rightarrow> topic_id \<Rightarrow> peer_id set \<Rightarrow> peer_id list" where
  "select_peers_for_gossip w m t all_topic_peers =
     (let candidates = w_peers w (all_topic_peers - get_mesh_peers m t)
      in if length candidates \<le> gp_d_lazy (ms_params m) then candidates
         else w_sample w candidates (gp_d_lazy (ms_params m)))"

section \<open>The mesh invariant\<close>

text \<open>
  A mesh exists exactly for the subscribed topics and stays within \<open>D_high\<close>; fanouts exist only for other topics and
  stay within \<open>D\<close>.
\<close>

definition mesh_inv :: "mesh_state \<Rightarrow> bool" where
  "mesh_inv m \<longleftrightarrow> params_ok (ms_params m) \<and> dwf (ms_meshes m) \<and> dwf (ms_fanouts m) \<and> finite (ms_subscriptions m) \<and>
     (\<forall>t. dget (ms_meshes m) t \<noteq> None \<longleftrightarrow> t \<in> ms_subscriptions m) \<and>
     (\<forall>t peers. dget (ms_meshes m) t = Some peers \<longrightarrow> finite peers \<and> card peers \<le> gp_d_high (ms_params m)) \<and>
     (\<forall>t f. dget (ms_fanouts m) t = Some f \<longrightarrow> t \<notin> ms_subscriptions m \<and> finite (fe_peers f) \<and> card (fe_peers f) \<le> gp_d (ms_params m))"

lemma mesh_invI:
  assumes "params_ok (ms_params m)" "dwf (ms_meshes m)" "dwf (ms_fanouts m)" "finite (ms_subscriptions m)"
    and "\<And>t. dget (ms_meshes m) t \<noteq> None \<longleftrightarrow> t \<in> ms_subscriptions m"
    and "\<And>t peers. dget (ms_meshes m) t = Some peers \<Longrightarrow> finite peers \<and> card peers \<le> gp_d_high (ms_params m)"
    and "\<And>t f. dget (ms_fanouts m) t = Some f \<Longrightarrow> t \<notin> ms_subscriptions m \<and> finite (fe_peers f) \<and> card (fe_peers f) \<le> gp_d (ms_params m)"
  shows "mesh_inv m"
  unfolding mesh_inv_def using assms by blast

lemma mesh_invD:
  assumes "mesh_inv m"
  shows "params_ok (ms_params m)" "dwf (ms_meshes m)" "dwf (ms_fanouts m)" "finite (ms_subscriptions m)"
    and "dget (ms_meshes m) t \<noteq> None \<longleftrightarrow> t \<in> ms_subscriptions m"
    and "dget (ms_meshes m) t = Some peers \<Longrightarrow> finite peers \<and> card peers \<le> gp_d_high (ms_params m)"
    and "dget (ms_fanouts m) t = Some f \<Longrightarrow> t \<notin> ms_subscriptions m \<and> finite (fe_peers f) \<and> card (fe_peers f) \<le> gp_d (ms_params m)"
  using assms unfolding mesh_inv_def by blast+

lemma new_mesh_state_inv: "params_ok p \<Longrightarrow> mesh_inv (new_mesh_state p)"
  by (simp add: mesh_inv_def new_mesh_state_def dwf_def)

lemma mesh_subscribe_inv:
  assumes inv: "mesh_inv m"
  shows "mesh_inv (mesh_subscribe m t)"
proof (cases "t \<in> ms_subscriptions m")
  case False
  note d = mesh_invD [OF inv]
  have le: "gp_d (ms_params m) \<le> gp_d_high (ms_params m)" using d(1) by (simp add: params_ok_def)
  show ?thesis
  proof (rule mesh_invI)
    show "finite peers \<and> card peers \<le> gp_d_high (ms_params (mesh_subscribe m t))"
      if "dget (ms_meshes (mesh_subscribe m t)) t' = Some peers" for t' peers
      using that d(6) [of t' peers] d(7) [of t] le False
      by (cases "t' = t") (auto simp: mesh_subscribe_def Let_def dict.get_put split: option.splits)
    show "dget (ms_meshes (mesh_subscribe m t)) t' \<noteq> None \<longleftrightarrow> t' \<in> ms_subscriptions (mesh_subscribe m t)" for t'
      using d(5) [of t'] False by (auto simp: mesh_subscribe_def Let_def dict.get_put split: option.splits)
    show "t' \<notin> ms_subscriptions (mesh_subscribe m t) \<and> finite (fe_peers f) \<and> card (fe_peers f) \<le> gp_d (ms_params (mesh_subscribe m t))"
      if "dget (ms_fanouts (mesh_subscribe m t)) t' = Some f" for t' f
      using that d(7) [of t' f] False by (cases "t' = t") (auto simp: mesh_subscribe_def Let_def dict.get_del split: option.splits)
  qed (use d in \<open>auto simp: mesh_subscribe_def Let_def dict.wf_put dict.wf_del split: option.split\<close>)
qed (use inv in \<open>simp add: mesh_subscribe_def\<close>)

lemma mesh_unsubscribe_inv:
  assumes inv: "mesh_inv m"
  shows "mesh_inv (snd (mesh_unsubscribe m t))"
proof -
  note d = mesh_invD [OF inv]
  have eq: "snd (mesh_unsubscribe m t) = m\<lparr>ms_subscriptions := ms_subscriptions m - {t}, ms_meshes := ddel (ms_meshes m) t\<rparr>"
    by (simp add: mesh_unsubscribe_def Let_def split: option.split)
  show ?thesis
    unfolding eq
  proof (rule mesh_invI)
    show "finite peers \<and> card peers \<le> gp_d_high (ms_params (m\<lparr>ms_subscriptions := ms_subscriptions m - {t}, ms_meshes := ddel (ms_meshes m) t\<rparr>))"
      if "dget (ms_meshes (m\<lparr>ms_subscriptions := ms_subscriptions m - {t}, ms_meshes := ddel (ms_meshes m) t\<rparr>)) t' = Some peers" for t' peers
      using that d(6) [of t' peers] by (simp add: dict.get_del split: if_splits)
    show "dget (ms_meshes (m\<lparr>ms_subscriptions := ms_subscriptions m - {t}, ms_meshes := ddel (ms_meshes m) t\<rparr>)) t' \<noteq> None \<longleftrightarrow>
      t' \<in> ms_subscriptions (m\<lparr>ms_subscriptions := ms_subscriptions m - {t}, ms_meshes := ddel (ms_meshes m) t\<rparr>)" for t'
      using d(5) [of t'] by (simp add: dict.get_del)
  qed (use d in \<open>auto simp: dict.wf_del dest: d(7)\<close>)
qed

text \<open>Replacing the peers of a subscribed topic, which is what adding and removing members does.\<close>

lemma mesh_replace_inv:
  assumes inv: "mesh_inv m" and t: "dget (ms_meshes m) t = Some old" and new: "finite peers" "card peers \<le> gp_d_high (ms_params m)"
  shows "mesh_inv (m\<lparr>ms_meshes := dput (ms_meshes m) t peers\<rparr>)"
proof (rule mesh_invI)
  note d = mesh_invD [OF inv]
  show "finite ps \<and> card ps \<le> gp_d_high (ms_params (m\<lparr>ms_meshes := dput (ms_meshes m) t peers\<rparr>))"
    if "dget (ms_meshes (m\<lparr>ms_meshes := dput (ms_meshes m) t peers\<rparr>)) t' = Some ps" for t' ps
    using that d(6) [of t' ps] new by (simp add: dict.get_put split: if_splits)
  show "dget (ms_meshes (m\<lparr>ms_meshes := dput (ms_meshes m) t peers\<rparr>)) t' \<noteq> None \<longleftrightarrow>
    t' \<in> ms_subscriptions (m\<lparr>ms_meshes := dput (ms_meshes m) t peers\<rparr>)" for t'
    using d(5) [of t'] d(5) [of t] t by (simp add: dict.get_put)
qed (use mesh_invD [OF inv] in \<open>auto simp: dict.wf_put\<close>)

lemma get_mesh_peers_finite: "mesh_inv m \<Longrightarrow> finite (get_mesh_peers m t)"
  using mesh_invD(6) by (auto simp: get_mesh_peers_def split: option.split)

lemma get_mesh_peers_bound: "mesh_inv m \<Longrightarrow> card (get_mesh_peers m t) \<le> gp_d_high (ms_params m)"
  using mesh_invD(6) by (auto simp: get_mesh_peers_def split: option.split)

lemma add_to_mesh_inv:
  assumes inv: "mesh_inv m" and room: "card (get_mesh_peers m t) < gp_d_high (ms_params m)"
  shows "mesh_inv (snd (add_to_mesh m t p))"
proof (cases "dget (ms_meshes m) t")
  case (Some peers)
  then have "finite peers" "card peers < gp_d_high (ms_params m)"
    using mesh_invD(6) [OF inv Some] room by (simp_all add: get_mesh_peers_def)
  then have "finite (insert p peers)" "card (insert p peers) \<le> gp_d_high (ms_params m)" by (auto simp: card_insert_if)
  with Some mesh_replace_inv [OF inv Some, of "insert p peers"] mesh_replace_inv [OF inv Some, of peers] mesh_invD(6) [OF inv Some]
  show ?thesis by (simp add: add_to_mesh_def topic_mesh_add_def)
qed (use inv in \<open>simp add: add_to_mesh_def\<close>)

lemma remove_from_mesh_inv:
  assumes inv: "mesh_inv m"
  shows "mesh_inv (snd (remove_from_mesh m t p))"
proof (cases "dget (ms_meshes m) t")
  case (Some peers)
  have "finite (peers - {p})" "card (peers - {p}) \<le> gp_d_high (ms_params m)"
    using mesh_invD(6) [OF inv Some] card_Diff1_le [of peers p] by (auto intro: order_trans)
  with Some mesh_replace_inv [OF inv Some, of "peers - {p}"] mesh_replace_inv [OF inv Some, of peers] mesh_invD(6) [OF inv Some]
  show ?thesis by (simp add: remove_from_mesh_def topic_mesh_remove_def)
qed (use inv in \<open>simp add: remove_from_mesh_def\<close>)

lemma mesh_fanout_inv:
  assumes inv: "mesh_inv m" and t: "t \<notin> ms_subscriptions m" and f: "finite (fe_peers f)" "card (fe_peers f) \<le> gp_d (ms_params m)"
  shows "mesh_inv (m\<lparr>ms_fanouts := dput (ms_fanouts m) t f\<rparr>)"
proof (rule mesh_invI)
  note d = mesh_invD [OF inv]
  show "t' \<notin> ms_subscriptions (m\<lparr>ms_fanouts := dput (ms_fanouts m) t f\<rparr>) \<and> finite (fe_peers g) \<and>
      card (fe_peers g) \<le> gp_d (ms_params (m\<lparr>ms_fanouts := dput (ms_fanouts m) t f\<rparr>))"
    if "dget (ms_fanouts (m\<lparr>ms_fanouts := dput (ms_fanouts m) t f\<rparr>)) t' = Some g" for t' g
    using that d(7) [of t' g] t f by (simp add: dict.get_put split: if_splits)
qed (use mesh_invD [OF inv] in \<open>auto simp: dict.wf_put\<close>)

lemma fill_fanout_inv:
  assumes w: "world_ok w" and inv: "mesh_inv m" and av: "finite available"
  shows "mesh_inv (fill_fanout w m t available)"
proof (cases "dget (ms_fanouts m) t")
  case (Some f)
  let ?c = "available - fe_peers f" and ?n = "gp_d (ms_params m) - card (fe_peers f)"
  let ?new = "w_sample w (w_peers w ?c) (min ?n (card ?c))"
  have f: "t \<notin> ms_subscriptions m" "finite (fe_peers f)" using mesh_invD(7) [OF inv Some] by simp_all
  have "length (w_peers w ?c) = card ?c" using w av by (auto simp: world_ok_def set_order_def distinct_card [symmetric])
  then have "length ?new \<le> ?n" using w by (simp add: world_ok_def samples_def)
  then have "card (fe_peers f \<union> set ?new) \<le> card (fe_peers f) + ?n"
    using card_Un_le [of "fe_peers f" "set ?new"] card_length [of ?new] by linarith
  then show ?thesis
    using mesh_fanout_inv [OF inv f(1), of "f\<lparr>fe_peers := fe_peers f \<union> set ?new\<rparr>"] f Some inv
    by (simp add: fill_fanout_def Let_def)
qed (use inv in \<open>simp add: fill_fanout_def\<close>)

lemma fill_fanout_frame [simp]:
  "ms_params (fill_fanout w m t av) = ms_params m" "ms_subscriptions (fill_fanout w m t av) = ms_subscriptions m"
  "ms_meshes (fill_fanout w m t av) = ms_meshes m"
  by (simp_all add: fill_fanout_def Let_def split: option.split)

lemma update_fanout_inv:
  assumes w: "world_ok w" and inv: "mesh_inv m" and av: "finite available"
  shows "mesh_inv (snd (update_fanout w m t available))" and "finite (fst (update_fanout w m t available))"
proof -
  let ?f = "(case dget (ms_fanouts m) t of None \<Rightarrow> \<lparr>fe_peers = {}, fe_last_published = 0\<rparr> | Some f \<Rightarrow> f)\<lparr>fe_last_published := w_now w\<rparr>"
  have "finite (fe_peers ?f)" "card (fe_peers ?f) \<le> gp_d (ms_params m)"
    using mesh_invD(7) [OF inv, of t] by (auto split: option.split)
  then have "mesh_inv (m\<lparr>ms_fanouts := dput (ms_fanouts m) t ?f\<rparr>)" if "t \<notin> ms_subscriptions m"
    using mesh_fanout_inv [OF inv that] by simp
  then have i: "mesh_inv (fill_fanout w (m\<lparr>ms_fanouts := dput (ms_fanouts m) t ?f\<rparr>) t available)" if "t \<notin> ms_subscriptions m"
    using fill_fanout_inv [OF w _ av] that by blast
  then show "mesh_inv (snd (update_fanout w m t available))"
    using inv by (simp add: update_fanout_def Let_def)
  show "finite (fst (update_fanout w m t available))"
    using get_mesh_peers_finite [OF inv] mesh_invD(7) [OF i, of t]
    by (auto simp: update_fanout_def Let_def get_fanout_peers_def split: option.split)
qed

lemma cleanup_fanouts_inv: "mesh_inv m \<Longrightarrow> mesh_inv (snd (cleanup_fanouts m ttl now))"
  unfolding mesh_inv_def by (simp add: cleanup_fanouts_def Let_def dict.wf_restrict dict.get_restrict)

end
