(* ===== verification/Py_Effects.thy ===== *)
theory Py_Effects
  imports Py_Prelude
begin

text \<open>
  Handlers that update an object in place and may raise: an action returns the state it leaves behind together with
  the exception that ended it, if any. A raise keeps the updates made before it, as in Python.
\<close>

named_theorems keeps

type_synonym 's action = "'s \<Rightarrow> 's \<times> py_exn option"

definition modify :: "('s \<Rightarrow> 's) \<Rightarrow> 's action" where
  "modify f s = (f s, None)"

definition skip :: "'s action" where
  "skip s = (s, None)"

definition throw :: "py_exn \<Rightarrow> 's action" where
  "throw e s = (s, Some e)"

definition and_then :: "'s action \<Rightarrow> 's action \<Rightarrow> 's action" where
  "and_then f g s = (case f s of (s', None) \<Rightarrow> g s' | (s', Some e) \<Rightarrow> (s', Some e))"

definition reading :: "('s \<Rightarrow> 's action) \<Rightarrow> 's action" where
  "reading f s = f s s"

definition attempt :: "'a result \<Rightarrow> ('a \<Rightarrow> 's action) \<Rightarrow> 's action" where
  "attempt m f = (case m of Inl e \<Rightarrow> throw e | Inr x \<Rightarrow> f x)"

fun for_each :: "('a \<Rightarrow> 's action) \<Rightarrow> 'a list \<Rightarrow> 's action" where
  "for_each f [] = skip"
| "for_each f (x # xs) = and_then (f x) (for_each f xs)"

text \<open>\<^verbatim>\<open>try: ... except Exception: log\<close>\<close>

definition swallow :: "'s action \<Rightarrow> 's \<Rightarrow> 's" where
  "swallow f s = fst (f s)"

text \<open>An action keeps a predicate when it holds in the state it leaves behind, raised or not.\<close>

definition preserves :: "('s \<Rightarrow> bool) \<Rightarrow> 's action \<Rightarrow> bool" where
  "preserves P f \<longleftrightarrow> (\<forall>s. P s \<longrightarrow> P (fst (f s)))"

lemma preservesD: "preserves P f \<Longrightarrow> P s \<Longrightarrow> P (fst (f s))"
  by (simp add: preserves_def)

lemma preserves_skip [keeps]: "preserves P skip"
  by (simp add: preserves_def skip_def)

lemma preserves_throw [keeps]: "preserves P (throw e)"
  by (simp add: preserves_def throw_def)

lemma preserves_modify: "(\<And>s. P s \<Longrightarrow> P (f s)) \<Longrightarrow> preserves P (modify f)"
  by (simp add: preserves_def modify_def)

lemma preserves_and_then [keeps]: "preserves P f \<Longrightarrow> preserves P g \<Longrightarrow> preserves P (and_then f g)"
  by (auto simp: preserves_def and_then_def split: prod.split option.split)

lemma preserves_reading [keeps]: "(\<And>s. preserves P (f s)) \<Longrightarrow> preserves P (reading f)"
  by (simp add: preserves_def reading_def)

lemma preserves_readingI: "(\<And>s. P s \<Longrightarrow> P (fst (f s s))) \<Longrightarrow> preserves P (reading f)"
  by (simp add: preserves_def reading_def)

lemma fst_attempt: "fst (attempt m f s) = (case m of Inl e \<Rightarrow> s | Inr x \<Rightarrow> fst (f x s))"
  by (simp add: attempt_def throw_def split: sum.split)

lemma fst_simple [simp]: "fst (modify f s) = f s" "fst (skip s) = s" "fst (throw e s) = s"
  by (simp_all add: modify_def skip_def throw_def)

lemma preserves_attempt [keeps]: "(\<And>x. m = Inr x \<Longrightarrow> preserves P (f x)) \<Longrightarrow> preserves P (attempt m f)"
  by (auto simp: attempt_def preserves_throw split: sum.split)

lemma preserves_for_each [keeps]: "(\<And>x. x \<in> set xs \<Longrightarrow> preserves P (f x)) \<Longrightarrow> preserves P (for_each f xs)"
  by (induction xs) (auto intro: preserves_skip preserves_and_then)

lemma preserves_If [keeps]: "(c \<Longrightarrow> preserves P f) \<Longrightarrow> (\<not> c \<Longrightarrow> preserves P g) \<Longrightarrow> preserves P (if c then f else g)"
  by simp

lemma fold_keeps: "(\<And>x s. x \<in> set xs \<Longrightarrow> P s \<Longrightarrow> P (f x s)) \<Longrightarrow> P s \<Longrightarrow> P (fold f xs s)"
  by (induction xs arbitrary: s) auto

end
