(* ===== verification/Gossip_Router.thy ===== *)
theory Gossip_Router
  imports Gossip_Mesh Py_Effects Snappy_Block Reqresp_Codec
begin

text \<open>
  The gossipsub router, \<^verbatim>\<open>node/networking/gossipsub/behavior.py\<close>: peers with their streams, every RPC handler,
  publishing, the heartbeat, the subscription broadcasts and the receive loop with its framing. A handler runs to its
  end before the next one starts and reads the clock once; an outbound stream is the bytes written to it, and writing
  never fails. A put on the full event queue waits in the code: here the handler appends, as after the wait.
\<close>

section \<open>State\<close>

definition PRUNE_BACKOFF :: nat where "PRUNE_BACKOFF = 60"
definition IDONTWANT_SIZE_THRESHOLD :: nat where "IDONTWANT_SIZE_THRESHOLD = 1024"
definition GOSSIP_RETRANSMISSION :: nat where "GOSSIP_RETRANSMISSION = 3"
definition MAX_IWANT_MESSAGE_IDS_PER_REQUEST :: nat where "MAX_IWANT_MESSAGE_IDS_PER_REQUEST = 5000"

datatype gossip_event =
    MessageEvent peer_id topic_id bytes message_id
  | PeerEvent peer_id topic_id bool

record peer_state =
  ps_subscriptions :: "topic_id set"
  ps_outbound :: "bytes option"
  ps_inbound :: bool
  ps_backoff :: "(topic_id, timestamp) dict"
  ps_dont_want_ids :: "message_id set"
  ps_iwant_served_counts :: "(message_id, nat) dict"

definition new_peer_state :: peer_state where
  "new_peer_state = \<lparr>ps_subscriptions = {}, ps_outbound = None, ps_inbound = False, ps_backoff = [],
     ps_dont_want_ids = {}, ps_iwant_served_counts = []\<rparr>"

text \<open>A background task that announces a subscription change: topic, subscribe, former mesh peers.\<close>

type_synonym broadcast_task = "topic_id \<times> bool \<times> peer_id set"

record router =
  ro_params :: gossip_params
  ro_mesh :: mesh_state
  ro_message_cache :: message_cache
  ro_seen_cache :: seen_cache
  ro_peers :: "(peer_id, peer_state) dict"
  ro_event_queue :: "gossip_event list"
  ro_stopped :: bool
  ro_tasks :: "broadcast_task list"

definition new_router :: "gossip_params \<Rightarrow> router" where
  "new_router p = \<lparr>ro_params = p, ro_mesh = new_mesh_state p,
     ro_message_cache = new_message_cache (gp_mcache_length p) (gp_mcache_gossip p),
     ro_seen_cache = new_seen_cache (gp_seen_ttl_secs p), ro_peers = [], ro_event_queue = [], ro_stopped = True, ro_tasks = []\<rparr>"

definition set_peer :: "peer_id \<Rightarrow> peer_state \<Rightarrow> router \<Rightarrow> router" where
  "set_peer p ps r = r\<lparr>ro_peers := dput (ro_peers r) p ps\<rparr>"

section \<open>Sending\<close>

definition frame_rpc :: "rpc \<Rightarrow> bytes result" where
  "frame_rpc rpc = rbind (rpc_encode rpc) (\<lambda>encoded_rpc.
     rbind (write_varint (int (length encoded_rpc))) (\<lambda>prefix. Inr (prefix @ encoded_rpc)))"

definition send_rpc :: "peer_id \<Rightarrow> rpc \<Rightarrow> router \<Rightarrow> router" where
  "send_rpc p rpc r =
     (case dget (ro_peers r) p of
        None \<Rightarrow> r
      | Some ps \<Rightarrow>
          (case ps_outbound ps of
             None \<Rightarrow> r
           | Some written \<Rightarrow>
               (case frame_rpc rpc of
                  Inl e \<Rightarrow> r
                | Inr frame \<Rightarrow> set_peer p (ps\<lparr>ps_outbound := Some (written @ frame)\<rparr>) r)))"

definition rpc_publish :: "message list \<Rightarrow> rpc" where
  "rpc_publish ms = \<lparr>r_subscriptions = [], r_publish = ms, r_control = None\<rparr>"

definition rpc_control :: "control_message \<Rightarrow> rpc" where
  "rpc_control c = \<lparr>r_subscriptions = [], r_publish = [], r_control = Some c\<rparr>"

definition prune_rpc :: "topic_id \<Rightarrow> rpc" where
  "prune_rpc t = rpc_control (empty_control\<lparr>c_prune := [\<lparr>pr_topic_id = t, pr_backoff = int PRUNE_BACKOFF\<rparr>]\<rparr>)"

section \<open>Subscriptions and peers\<close>

definition subscribe :: "topic_id \<Rightarrow> router \<Rightarrow> router" where
  "subscribe t r =
     (if t \<in> ms_subscriptions (ro_mesh r) then r
      else let r1 = r\<lparr>ro_mesh := mesh_subscribe (ro_mesh r) t\<rparr>
           in if \<not> ro_stopped r then r1\<lparr>ro_tasks := ro_tasks r @ [(t, True, {})]\<rparr> else r1)"

definition unsubscribe :: "topic_id \<Rightarrow> router \<Rightarrow> router" where
  "unsubscribe t r =
     (if t \<notin> ms_subscriptions (ro_mesh r) then r
      else let (mesh_peers, m) = mesh_unsubscribe (ro_mesh r) t;
               r1 = r\<lparr>ro_mesh := m\<rparr>
           in if \<not> ro_stopped r then r1\<lparr>ro_tasks := ro_tasks r @ [(t, False, mesh_peers)]\<rparr> else r1)"

definition gossip_start :: "router \<Rightarrow> router" where
  "gossip_start r = (if \<not> ro_stopped r then r else r\<lparr>ro_stopped := False\<rparr>)"

definition gossip_add_peer :: "world \<Rightarrow> peer_id \<Rightarrow> bool \<Rightarrow> router \<Rightarrow> router" where
  "gossip_add_peer w p inbound r =
     (if inbound then
        (case dget (ro_peers r) p of
           None \<Rightarrow> set_peer p (new_peer_state\<lparr>ps_inbound := True\<rparr>) r
         | Some existing \<Rightarrow> if ps_inbound existing then r else set_peer p (existing\<lparr>ps_inbound := True\<rparr>) r)
      else
        let announce = (\<lambda>r. if ms_subscriptions (ro_mesh r) \<noteq> {}
              then send_rpc p (rpc_subscription (w_topics w (ms_subscriptions (ro_mesh r))) True) r else r)
        in case dget (ro_peers r) p of
             None \<Rightarrow> announce (set_peer p (new_peer_state\<lparr>ps_outbound := Some []\<rparr>) r)
           | Some existing \<Rightarrow> if ps_outbound existing \<noteq> None then r
               else announce (set_peer p (existing\<lparr>ps_outbound := Some []\<rparr>) r))"

definition has_outbound_stream :: "peer_id \<Rightarrow> router \<Rightarrow> bool" where
  "has_outbound_stream p r = (case dget (ro_peers r) p of None \<Rightarrow> False | Some ps \<Rightarrow> ps_outbound ps \<noteq> None)"

definition gossip_remove_peer :: "world \<Rightarrow> peer_id \<Rightarrow> router \<Rightarrow> router" where
  "gossip_remove_peer w p r =
     (case dget (ro_peers r) p of
        None \<Rightarrow> r
      | Some ps \<Rightarrow> r\<lparr>ro_peers := ddel (ro_peers r) p,
          ro_mesh := fold (\<lambda>t m. snd (remove_from_mesh m t p)) (w_topics w (ms_subscriptions (ro_mesh r))) (ro_mesh r)\<rparr>)"

text \<open>Stopping cancels the receive loops, and each of them removes its peer on the way out.\<close>

definition gossip_stop :: "world \<Rightarrow> router \<Rightarrow> router" where
  "gossip_stop w r = fold (gossip_remove_peer w) (map fst (filter (\<lambda>(p, ps). ps_inbound ps) (ro_peers r))) (r\<lparr>ro_stopped := True\<rparr>)"

text \<open>The peers that know a topic and have an outbound stream, in insertion order.\<close>

definition topic_peers :: "topic_id \<Rightarrow> router \<Rightarrow> peer_id list" where
  "topic_peers t r = map fst (filter (\<lambda>(p, ps). t \<in> ps_subscriptions ps \<and> ps_outbound ps \<noteq> None) (ro_peers r))"

section \<open>Publishing\<close>

definition try_decompress :: "bytes \<Rightarrow> bytes \<times> bytes" where
  "try_decompress data =
     (case decompress data of
        Inr d \<Rightarrow> (d, MESSAGE_DOMAIN_VALID_SNAPPY)
      | Inl e \<Rightarrow> (data, MESSAGE_DOMAIN_INVALID_SNAPPY))"

text \<open>Recording a message in both caches; the seen cache is updated first.\<close>

definition remember :: "digest \<Rightarrow> world \<Rightarrow> topic_id \<Rightarrow> bytes \<Rightarrow> bytes \<Rightarrow> message_id \<Rightarrow> router action" where
  "remember H w topic topic_bytes data i =
     and_then (modify (\<lambda>r. r\<lparr>ro_seen_cache := snd (seen_add (ro_seen_cache r) i (w_now w))\<rparr>))
       (reading (\<lambda>r. attempt (mcache_put H (ro_message_cache r) topic \<lparr>gm_topic = topic_bytes, gm_raw_data = data, gm_cached_id = Some i\<rparr>)
         (\<lambda>(_, c). modify (\<lambda>r. r\<lparr>ro_message_cache := c\<rparr>))))"

definition publish :: "digest \<Rightarrow> world \<Rightarrow> topic_id \<Rightarrow> bytes \<Rightarrow> router action" where
  "publish H w topic data =
     attempt (utf8_encode topic) (\<lambda>topic_bytes.
       let (decompressed, domain) = try_decompress data
       in attempt (compute_id H topic_bytes decompressed (Some domain)) (\<lambda>i.
          reading (\<lambda>r. if seen_has (ro_seen_cache r) i then skip
            else and_then (remember H w topic topic_bytes data i)
              (modify (\<lambda>r.
                let (peers, m) = (if topic \<in> ms_subscriptions (ro_mesh r) then (get_mesh_peers (ro_mesh r) topic, ro_mesh r)
                      else update_fanout w (ro_mesh r) topic (set (topic_peers topic r)))
                in fold (\<lambda>p. send_rpc p (rpc_publish [empty_message\<lparr>m_topic := topic, m_data := data\<rparr>])) (w_peers w peers)
                     (r\<lparr>ro_mesh := m\<rparr>))))))"

text \<open>\<open>None\<close>: the call waits for an event.\<close>

definition get_next_event :: "router \<Rightarrow> (gossip_event option \<times> router) option" where
  "get_next_event r =
     (if ro_stopped r then Some (None, r)
      else case ro_event_queue r of [] \<Rightarrow> None | e # es \<Rightarrow> Some (Some e, r\<lparr>ro_event_queue := es\<rparr>))"

section \<open>Incoming RPCs\<close>

definition handle_subscription :: "peer_id \<Rightarrow> sub_opts \<Rightarrow> router \<Rightarrow> router" where
  "handle_subscription p sub r =
     (case dget (ro_peers r) p of
        None \<Rightarrow> r
      | Some ps \<Rightarrow>
          let t = so_topic_id sub;
              r1 = (if so_subscribe sub then set_peer p (ps\<lparr>ps_subscriptions := insert t (ps_subscriptions ps)\<rparr>) r
                    else (set_peer p (ps\<lparr>ps_subscriptions := ps_subscriptions ps - {t}\<rparr>) r)
                           \<lparr>ro_mesh := snd (remove_from_mesh (ro_mesh r) t p)\<rparr>)
          in r1\<lparr>ro_event_queue := ro_event_queue r1 @ [PeerEvent p t (so_subscribe sub)]\<rparr>)"

definition declines :: "router \<Rightarrow> message_id \<Rightarrow> peer_id \<Rightarrow> bool" where
  "declines r i p = (case dget (ro_peers r) p of None \<Rightarrow> False | Some ps \<Rightarrow> i \<in> ps_dont_want_ids ps)"

definition idontwant_rpc :: "message_id \<Rightarrow> rpc" where
  "idontwant_rpc i = rpc_control (empty_control\<lparr>c_idontwant := [\<lparr>idw_message_ids = [i]\<rparr>]\<rparr>)"

definition forward_message :: "world \<Rightarrow> peer_id \<Rightarrow> message \<Rightarrow> message_id \<Rightarrow> router \<Rightarrow> router" where
  "forward_message w sender m i r =
     (if m_topic m \<in> ms_subscriptions (ro_mesh r) then
        let mesh_peers = w_peers w (get_mesh_peers (ro_mesh r) (m_topic m));
            r1 = fold (\<lambda>q r. if q = sender then r else if declines r i q then r else send_rpc q (rpc_publish [m]) r) mesh_peers r
        in if length (m_data m) \<ge> IDONTWANT_SIZE_THRESHOLD
           then fold (\<lambda>q r. if q \<noteq> sender then send_rpc q (idontwant_rpc i) r else r) mesh_peers r1
           else r1
      else r)"

definition handle_message :: "digest \<Rightarrow> world \<Rightarrow> peer_id \<Rightarrow> message \<Rightarrow> router action" where
  "handle_message H w p m =
     reading (\<lambda>r.
       if m_topic m = [] then skip
       else if m_topic m \<notin> ms_subscriptions (ro_mesh r) then skip
       else attempt (utf8_encode (m_topic m)) (\<lambda>topic_bytes.
         let (decompressed, domain) = try_decompress (m_data m)
         in if length decompressed > MAX_PAYLOAD_SIZE then skip
            else attempt (compute_id H topic_bytes decompressed (Some domain)) (\<lambda>i.
              if seen_has (ro_seen_cache r) i then skip
              else and_then (remember H w (m_topic m) topic_bytes (m_data m) i)
                     (modify (\<lambda>r. let r1 = forward_message w p m i r
                        in r1\<lparr>ro_event_queue := ro_event_queue r1 @ [MessageEvent p (m_topic m) decompressed i]\<rparr>)))))"

definition handle_graft :: "world \<Rightarrow> peer_id \<Rightarrow> control_graft \<Rightarrow> router \<Rightarrow> router" where
  "handle_graft w p graft r =
     (let topic = gr_topic_id graft in
      if topic \<notin> ms_subscriptions (ro_mesh r) then r
      else if (case dget (ro_peers r) p of
                 None \<Rightarrow> False
               | Some ps \<Rightarrow> w_now w < (case dget (ps_backoff ps) topic of None \<Rightarrow> 0 | Some backoff_until \<Rightarrow> backoff_until))
      then send_rpc p (prune_rpc topic) r
      else if card (get_mesh_peers (ro_mesh r) topic) \<ge> gp_d_high (ro_params r) then send_rpc p (prune_rpc topic) r
      else r\<lparr>ro_mesh := snd (add_to_mesh (ro_mesh r) topic p)\<rparr>)"

definition handle_prune :: "world \<Rightarrow> peer_id \<Rightarrow> control_prune \<Rightarrow> router \<Rightarrow> router" where
  "handle_prune w p prune r =
     (let topic = pr_topic_id prune;
          r1 = r\<lparr>ro_mesh := snd (remove_from_mesh (ro_mesh r) topic p)\<rparr>
      in case dget (ro_peers r) p of
           None \<Rightarrow> r1
         | Some ps \<Rightarrow> if pr_backoff prune > 0
             then set_peer p (ps\<lparr>ps_backoff := dput (ps_backoff ps) topic (w_now w + real_of_int (pr_backoff prune))\<rparr>) r1
             else r1)"

definition handle_ihave :: "peer_id \<Rightarrow> control_ihave \<Rightarrow> router \<Rightarrow> router" where
  "handle_ihave p ihave r =
     (let wanted = filter (\<lambda>i. length i = 20 \<and> \<not> seen_has (ro_seen_cache r) i \<and> \<not> mcache_has (ro_message_cache r) i) (ih_message_ids ihave)
      in if wanted = [] then r
         else send_rpc p (rpc_control (empty_control\<lparr>c_iwant := [\<lparr>iw_message_ids = wanted\<rparr>]\<rparr>)) r)"

definition served_count :: "(message_id, nat) dict \<Rightarrow> message_id \<Rightarrow> nat" where
  "served_count served i = (case dget served i of None \<Rightarrow> 0 | Some n \<Rightarrow> n)"

fun iwant_loop :: "message_cache \<Rightarrow> bytes list \<Rightarrow> (message_id, nat) dict \<Rightarrow> message list \<Rightarrow>
    (message_id, nat) dict \<times> message list \<times> py_exn option" where
  "iwant_loop c [] served messages = (served, messages, None)"
| "iwant_loop c (i # is) served messages =
     (if length i \<noteq> 20 then iwant_loop c is served messages
      else if served_count served i \<ge> GOSSIP_RETRANSMISSION then iwant_loop c is served messages
      else case mcache_get c i of
             None \<Rightarrow> iwant_loop c is served messages
           | Some cached \<Rightarrow>
               (case utf8_decode (gm_topic cached) of
                  Inl e \<Rightarrow> (served, messages, Some e)
                | Inr topic \<Rightarrow> iwant_loop c is (dput served i (served_count served i + 1))
                    (messages @ [empty_message\<lparr>m_topic := topic, m_data := gm_raw_data cached\<rparr>])))"

definition handle_iwant :: "peer_id \<Rightarrow> control_iwant \<Rightarrow> router action" where
  "handle_iwant p iwant r =
     (case dget (ro_peers r) p of
        None \<Rightarrow> (r, None)
      | Some ps \<Rightarrow>
          (case iwant_loop (ro_message_cache r) (take MAX_IWANT_MESSAGE_IDS_PER_REQUEST (iw_message_ids iwant))
                  (ps_iwant_served_counts ps) [] of
             (served, messages, error) \<Rightarrow>
               let r1 = set_peer p (ps\<lparr>ps_iwant_served_counts := served\<rparr>) r
               in case error of
                    Some e \<Rightarrow> (r1, Some e)
                  | None \<Rightarrow> (if messages \<noteq> [] then send_rpc p (rpc_publish messages) r1 else r1, None)))"

definition handle_idontwant :: "peer_id \<Rightarrow> control_idontwant \<Rightarrow> router \<Rightarrow> router" where
  "handle_idontwant p idontwant r =
     (case dget (ro_peers r) p of
        None \<Rightarrow> r
      | Some ps \<Rightarrow> set_peer p (ps\<lparr>ps_dont_want_ids :=
          ps_dont_want_ids ps \<union> set (filter (\<lambda>i. length i = 20) (idw_message_ids idontwant))\<rparr>) r)"

definition handle_control :: "world \<Rightarrow> peer_id \<Rightarrow> control_message \<Rightarrow> router action" where
  "handle_control w p c =
     reading (\<lambda>r. if dget (ro_peers r) p = None then skip
       else and_then (for_each (\<lambda>g. modify (handle_graft w p g)) (c_graft c))
           (and_then (for_each (\<lambda>x. modify (handle_prune w p x)) (c_prune c))
           (and_then (for_each (\<lambda>x. modify (handle_ihave p x)) (c_ihave c))
           (and_then (for_each (handle_iwant p) (c_iwant c))
             (for_each (\<lambda>x. modify (handle_idontwant p x)) (c_idontwant c))))))"

definition handle_rpc :: "digest \<Rightarrow> world \<Rightarrow> peer_id \<Rightarrow> rpc \<Rightarrow> router action" where
  "handle_rpc H w p rpc =
     reading (\<lambda>r. if dget (ro_peers r) p = None then skip
       else and_then (for_each (\<lambda>s. modify (handle_subscription p s)) (r_subscriptions rpc))
           (and_then (for_each (handle_message H w p) (r_publish rpc))
             (case r_control rpc of None \<Rightarrow> skip | Some c \<Rightarrow> handle_control w p c)))"

section \<open>The heartbeat\<close>

definition eligible_peers :: "world \<Rightarrow> topic_id \<Rightarrow> router \<Rightarrow> peer_id list" where
  "eligible_peers w t r =
     map fst (filter (\<lambda>(p, ps). ps_outbound ps \<noteq> None \<and> t \<in> ps_subscriptions ps \<and> p \<notin> get_mesh_peers (ro_mesh r) t \<and>
       w_now w \<ge> (case dget (ps_backoff ps) t of None \<Rightarrow> 0 | Some backoff_until \<Rightarrow> backoff_until)) (ro_peers r))"

definition graft_peers :: "topic_id \<Rightarrow> peer_id list \<Rightarrow> router \<Rightarrow> router" where
  "graft_peers t to_graft r =
     fold (\<lambda>p. send_rpc p (rpc_graft [t])) to_graft
       (r\<lparr>ro_mesh := fold (\<lambda>p m. snd (add_to_mesh m t p)) to_graft (ro_mesh r)\<rparr>)"

definition prune_peer :: "world \<Rightarrow> topic_id \<Rightarrow> peer_id \<Rightarrow> router \<Rightarrow> router" where
  "prune_peer w t p r =
     (let r1 = send_rpc p (prune_rpc t) r
      in case dget (ro_peers r1) p of
           None \<Rightarrow> r1
         | Some ps \<Rightarrow> set_peer p (ps\<lparr>ps_backoff := dput (ps_backoff ps) t (w_now w + real PRUNE_BACKOFF)\<rparr>) r1)"

definition maintain_mesh :: "world \<Rightarrow> topic_id \<Rightarrow> router action" where
  "maintain_mesh w t =
     reading (\<lambda>r.
       let mesh_peers = get_mesh_peers (ro_mesh r) t;
           mesh_size = card mesh_peers;
           eligible = eligible_peers w t r
       in if mesh_size < gp_d_low (ro_params r) \<and> eligible \<noteq> [] then
            attempt (random_sample w eligible (min (int (gp_d (ro_params r)) - int mesh_size) (int (length eligible))))
              (\<lambda>to_graft. modify (graft_peers t to_graft))
          else if mesh_size > gp_d_high (ro_params r) then
            attempt (random_sample w (w_peers w mesh_peers) (int mesh_size - int (gp_d (ro_params r))))
              (\<lambda>to_prune. modify (\<lambda>r. fold (prune_peer w t) to_prune
                 (r\<lparr>ro_mesh := fold (\<lambda>p m. snd (remove_from_mesh m t p)) to_prune (ro_mesh r)\<rparr>)))
          else skip)"

definition emit_gossip :: "world \<Rightarrow> topic_id \<Rightarrow> router \<Rightarrow> router" where
  "emit_gossip w t r =
     (let message_ids = get_gossip_ids (w_ids w) (ro_message_cache r) t
      in if message_ids = [] then r
         else let gossip_peers = select_peers_for_gossip w (ro_mesh r) t (set (topic_peers t r))
              in if gossip_peers = [] then r
                 else fold (\<lambda>p. send_rpc p (rpc_control (empty_control\<lparr>c_ihave := [\<lparr>ih_topic_id = t, ih_message_ids = message_ids\<rparr>]\<rparr>)))
                        gossip_peers r)"

definition fill_fanouts :: "world \<Rightarrow> router \<Rightarrow> router" where
  "fill_fanouts w r =
     fold (\<lambda>t r. if card (get_fanout_peers (ro_mesh r) t) < gp_d (ro_params r)
         then r\<lparr>ro_mesh := fill_fanout w (ro_mesh r) t (set (topic_peers t r))\<rparr> else r)
       (w_topics w (fanout_topics (ro_mesh r))) r"

definition clear_windows :: "router \<Rightarrow> router" where
  "clear_windows r = r\<lparr>ro_peers := map (\<lambda>(p, ps). (p, ps\<lparr>ps_dont_want_ids := {}, ps_iwant_served_counts := []\<rparr>)) (ro_peers r)\<rparr>"

definition heartbeat :: "world \<Rightarrow> router action" where
  "heartbeat w =
     and_then (reading (\<lambda>r. for_each (maintain_mesh w) (w_topics w (ms_subscriptions (ro_mesh r)))))
     (and_then (modify (fill_fanouts w))
     (and_then (modify (\<lambda>r. fold (emit_gossip w) (w_topics w (ms_subscriptions (ro_mesh r) \<union> fanout_topics (ro_mesh r))) r))
     (and_then (modify (\<lambda>r. r\<lparr>ro_mesh := snd (cleanup_fanouts (ro_mesh r) (real (gp_fanout_ttl_secs (ro_params r))) (w_now w))\<rparr>))
     (and_then (reading (\<lambda>r. attempt (mcache_shift (ro_message_cache r)) (\<lambda>(_, c). modify (\<lambda>r. r\<lparr>ro_message_cache := c\<rparr>))))
     (modify (\<lambda>r. clear_windows (r\<lparr>ro_seen_cache := snd (seen_cleanup (ro_seen_cache r) (w_now w))\<rparr>)))))))"

section \<open>Announcing subscriptions\<close>

definition broadcast_subscription :: "world \<Rightarrow> broadcast_task \<Rightarrow> router \<Rightarrow> router" where
  "broadcast_subscription w = (\<lambda>(t, subscribe, prune_peers) r.
     let r1 = fold (\<lambda>p r. if has_outbound_stream p r then send_rpc p (rpc_subscription [t] subscribe) r else r) (dkeys (ro_peers r)) r
     in if subscribe then
          let current_mesh = get_mesh_peers (ro_mesh r1) t
          in if card current_mesh < gp_d (ro_params r1) then
               let needed = gp_d (ro_params r1) - card current_mesh;
                   eligible = take needed (filter (\<lambda>p. p \<notin> current_mesh) (topic_peers t r1))
               in fold (\<lambda>p r. send_rpc p (rpc_graft [t]) (r\<lparr>ro_mesh := snd (add_to_mesh (ro_mesh r) t p)\<rparr>)) eligible r1
             else r1
        else fold (\<lambda>p r. if dget (ro_peers r) p \<noteq> None then send_rpc p (prune_rpc t) r else r) (w_peers w prune_peers) r1)"

text \<open>The event loop runs one of the waiting tasks.\<close>

definition run_task :: "world \<Rightarrow> nat \<Rightarrow> router \<Rightarrow> router" where
  "run_task w k r =
     (if k < length (ro_tasks r)
      then broadcast_subscription w (ro_tasks r ! k) (r\<lparr>ro_tasks := take k (ro_tasks r) @ drop (Suc k) (ro_tasks r)\<rparr>)
      else r)"

section \<open>The receive loop\<close>

text \<open>
  Draining the buffer: \<open>None\<close> is the oversized frame that ends the connection, otherwise the bytes left over. A frame
  that does not decode or whose handler raises is skipped.
\<close>

function drain :: "digest \<Rightarrow> world \<Rightarrow> peer_id \<Rightarrow> bytes \<Rightarrow> router \<Rightarrow> router \<times> bytes option" where
  "drain H w p buffer r =
     (if buffer = [] then (r, Some [])
      else case read_varint buffer 0 of
             Inl e \<Rightarrow> (r, Some buffer)
           | Inr (len, varint_size) \<Rightarrow>
               if len > MAX_PAYLOAD_SIZE then (r, None)
               else if length buffer < varint_size + len then (r, Some buffer)
               else let rpc_data = py_slice buffer varint_size (varint_size + len);
                        rest = drop (varint_size + len) buffer
                    in case rpc_decode rpc_data of
                         Inl e \<Rightarrow> drain H w p rest r
                       | Inr rpc \<Rightarrow> drain H w p rest (swallow (handle_rpc H w p rpc) r))"
  by pat_completeness auto
termination
  by (relation "measure (\<lambda>(H, w, p, buffer, r). length buffer)") (auto dest!: read_varint_consumes)

declare drain.simps [simp del]

text \<open>The reads of one connection in order; the stream ends with an empty read or an error.\<close>

fun receive_loop :: "digest \<Rightarrow> peer_id \<Rightarrow> world \<Rightarrow> bytes list \<Rightarrow> bytes \<Rightarrow> router \<Rightarrow> router" where
  "receive_loop H p w [] buffer r = gossip_remove_peer w p r"
| "receive_loop H p w (chunk # chunks) buffer r =
     (if dget (ro_peers r) p = None then gossip_remove_peer w p r
      else if chunk = [] then gossip_remove_peer w p r
      else case drain H w p (buffer @ chunk) r of
             (r', None) \<Rightarrow> gossip_remove_peer w p r'
           | (r', Some rest) \<Rightarrow> receive_loop H p w chunks rest r')"

section \<open>The router invariant\<close>

definition peer_inv :: "peer_state \<Rightarrow> bool" where
  "peer_inv ps \<longleftrightarrow> (\<forall>i. served_count (ps_iwant_served_counts ps) i \<le> GOSSIP_RETRANSMISSION) \<and>
     (\<forall>i \<in> ps_dont_want_ids ps. length i = 20)"

definition router_inv :: "router \<Rightarrow> bool" where
  "router_inv r \<longleftrightarrow> mesh_inv (ro_mesh r) \<and> ms_params (ro_mesh r) = ro_params r \<and> mcache_inv (ro_message_cache r) \<and>
     dwf (ro_peers r) \<and> (\<forall>p ps. dget (ro_peers r) p = Some ps \<longrightarrow> peer_inv ps)"

lemma mesh_frame [simp]:
  "ms_params (mesh_subscribe m t) = ms_params m" "ms_params (snd (mesh_unsubscribe m t)) = ms_params m"
  "ms_params (snd (add_to_mesh m t p)) = ms_params m" "ms_params (snd (remove_from_mesh m t p)) = ms_params m"
  "ms_params (snd (update_fanout w m t av)) = ms_params m" "ms_params (snd (cleanup_fanouts m ttl now)) = ms_params m"
  by (simp_all add: mesh_subscribe_def mesh_unsubscribe_def add_to_mesh_def remove_from_mesh_def update_fanout_def cleanup_fanouts_def
      Let_def split: option.split prod.split)

lemma router_invD:
  assumes "router_inv r"
  shows "mesh_inv (ro_mesh r)" "ms_params (ro_mesh r) = ro_params r" "mcache_inv (ro_message_cache r)" "dwf (ro_peers r)"
    "dget (ro_peers r) p = Some ps \<Longrightarrow> peer_inv ps"
  using assms unfolding router_inv_def by blast+

lemma set_mesh_inv: "router_inv r \<Longrightarrow> mesh_inv m \<Longrightarrow> ms_params m = ro_params r \<Longrightarrow> router_inv (r\<lparr>ro_mesh := m\<rparr>)"
  by (simp add: router_inv_def)

lemma set_peer_inv: "router_inv r \<Longrightarrow> peer_inv ps \<Longrightarrow> router_inv (set_peer p ps r)"
  by (simp add: router_inv_def set_peer_def dict.wf_put dict.get_put)

lemma other_fields_inv [simp]:
  "router_inv (r\<lparr>ro_event_queue := q\<rparr>) = router_inv r" "router_inv (r\<lparr>ro_stopped := b\<rparr>) = router_inv r"
  "router_inv (r\<lparr>ro_tasks := ts\<rparr>) = router_inv r" "router_inv (r\<lparr>ro_seen_cache := sc\<rparr>) = router_inv r"
  by (simp_all add: router_inv_def)

lemma peer_inv_frame [simp]:
  "peer_inv (ps\<lparr>ps_outbound := x\<rparr>) = peer_inv ps" "peer_inv (ps\<lparr>ps_inbound := y\<rparr>) = peer_inv ps"
  "peer_inv (ps\<lparr>ps_subscriptions := z\<rparr>) = peer_inv ps" "peer_inv (ps\<lparr>ps_backoff := b\<rparr>) = peer_inv ps"
  by (simp_all add: peer_inv_def)

lemma new_peer_inv [simp]: "peer_inv new_peer_state"
  by (simp add: peer_inv_def new_peer_state_def served_count_def)

lemma send_rpc_inv: "router_inv r \<Longrightarrow> router_inv (send_rpc p rpc r)"
  using router_invD(5) [of r] by (auto simp: send_rpc_def intro!: set_peer_inv split: option.split sum.split)

lemma fold_send_inv: "router_inv r \<Longrightarrow> router_inv (fold (\<lambda>p. send_rpc p rpc) ps r)"
  by (rule fold_keeps) (auto intro: send_rpc_inv)

lemma send_rpc_frame [simp]:
  "ro_params (send_rpc p rpc r) = ro_params r" "ro_mesh (send_rpc p rpc r) = ro_mesh r"
  "ro_message_cache (send_rpc p rpc r) = ro_message_cache r" "ro_seen_cache (send_rpc p rpc r) = ro_seen_cache r"
  "ro_event_queue (send_rpc p rpc r) = ro_event_queue r" "ro_tasks (send_rpc p rpc r) = ro_tasks r"
  by (auto simp: send_rpc_def set_peer_def split: option.split sum.split)

lemma set_peer_frame [simp]:
  "ro_params (set_peer p ps r) = ro_params r" "ro_mesh (set_peer p ps r) = ro_mesh r"
  "ro_message_cache (set_peer p ps r) = ro_message_cache r" "ro_seen_cache (set_peer p ps r) = ro_seen_cache r"
  "ro_event_queue (set_peer p ps r) = ro_event_queue r" "ro_tasks (set_peer p ps r) = ro_tasks r"
  by (simp_all add: set_peer_def)

lemma subscribe_inv: "router_inv r \<Longrightarrow> router_inv (subscribe t r)"
  using mesh_subscribe_inv by (auto simp: subscribe_def Let_def router_inv_def)

lemma unsubscribe_inv: "router_inv r \<Longrightarrow> router_inv (unsubscribe t r)"
  using mesh_unsubscribe_inv [of "ro_mesh r" t] by (simp add: unsubscribe_def Let_def router_inv_def case_prod_beta)

lemma gossip_start_inv: "router_inv r \<Longrightarrow> router_inv (gossip_start r)"
  by (simp add: gossip_start_def)

lemma gossip_add_peer_inv: "router_inv r \<Longrightarrow> router_inv (gossip_add_peer w p inbound r)"
  using router_invD(5) [of r p]
  by (auto simp: gossip_add_peer_def Let_def intro!: set_peer_inv send_rpc_inv split: option.split)

lemma fold_remove_params [simp]: "ms_params (fold (\<lambda>x m. snd (remove_from_mesh m (f x) (g x))) xs m) = ms_params m"
  by (induction xs arbitrary: m) simp_all

lemma fold_remove_inv: "mesh_inv m \<Longrightarrow> mesh_inv (fold (\<lambda>x m. snd (remove_from_mesh m (f x) (g x))) xs m)"
  by (rule fold_keeps) (auto intro: remove_from_mesh_inv)

lemma gossip_remove_peer_inv: "router_inv r \<Longrightarrow> router_inv (gossip_remove_peer w p r)"
  using fold_remove_inv [of "ro_mesh r" "\<lambda>t. t" "\<lambda>_. p"]
  by (auto simp: gossip_remove_peer_def router_inv_def dict.wf_del dict.get_del split: option.split)

lemma gossip_stop_inv: "router_inv r \<Longrightarrow> router_inv (gossip_stop w r)"
  unfolding gossip_stop_def by (rule fold_keeps) (auto intro: gossip_remove_peer_inv)

lemma topic_peers_finite [simp]: "finite (set (topic_peers t r))"
  by simp

lemma set_cache_inv: "router_inv r \<Longrightarrow> mcache_inv c \<Longrightarrow> router_inv (r\<lparr>ro_message_cache := c\<rparr>)"
  by (simp add: router_inv_def)

lemma remember_inv [keeps]: "preserves router_inv (remember H w t tb data i)"
  unfolding remember_def
proof (intro preserves_and_then preserves_modify preserves_readingI)
  fix r
  assume inv: "router_inv r"
  have id: "gossip_message_id H \<lparr>gm_topic = tb, gm_raw_data = data, gm_cached_id = Some i\<rparr> = Inr i"
    by (simp add: gossip_message_id_def)
  obtain b c where "mcache_put H (ro_message_cache r) t \<lparr>gm_topic = tb, gm_raw_data = data, gm_cached_id = Some i\<rparr> = Inr (b, c)" "mcache_inv c"
    using mcache_put_ok [OF router_invD(3) [OF inv] id] by metis
  with inv show "router_inv (fst (attempt (mcache_put H (ro_message_cache r) t \<lparr>gm_topic = tb, gm_raw_data = data, gm_cached_id = Some i\<rparr>)
      (\<lambda>(_, c). modify (\<lambda>r. r\<lparr>ro_message_cache := c\<rparr>)) r))"
    by (simp add: fst_attempt set_cache_inv)
qed simp

lemma publish_inv [keeps]:
  assumes w: "world_ok w"
  shows "preserves router_inv (publish H w t data)"
proof -
  have "router_inv (let (peers, m) = (if t \<in> ms_subscriptions (ro_mesh r) then (get_mesh_peers (ro_mesh r) t, ro_mesh r)
        else update_fanout w (ro_mesh r) t (set (topic_peers t r)))
      in fold (\<lambda>p. send_rpc p (rpc_publish [empty_message\<lparr>m_topic := t, m_data := data\<rparr>])) (w_peers w peers) (r\<lparr>ro_mesh := m\<rparr>))"
    if "router_inv r" for r
    using that update_fanout_inv [OF w router_invD(1) [OF that], of "set (topic_peers t r)" t] router_invD(2) [OF that]
    by (auto simp: Let_def case_prod_beta intro!: fold_send_inv set_mesh_inv)
  then show ?thesis
    unfolding publish_def Let_def case_prod_beta by (intro keeps preserves_modify) (simp_all add: Let_def case_prod_beta)
qed

lemma handle_subscription_inv: "router_inv r \<Longrightarrow> router_inv (handle_subscription p sub r)"
  using router_invD(5) [of r p] remove_from_mesh_inv [OF router_invD(1), of r] router_invD(2) [of r]
  by (auto simp: handle_subscription_def Let_def intro!: set_peer_inv set_mesh_inv split: option.split)

lemma forward_message_inv: "router_inv r \<Longrightarrow> router_inv (forward_message w p m i r)"
  unfolding forward_message_def Let_def by (auto intro!: fold_keeps [where P = router_inv] send_rpc_inv)

lemma handle_message_inv [keeps]: "preserves router_inv (handle_message H w p m)"
  unfolding handle_message_def Let_def case_prod_beta
  by (intro keeps preserves_modify) (simp_all add: forward_message_inv)

lemma handle_graft_inv: "router_inv r \<Longrightarrow> router_inv (handle_graft w p g r)"
  using router_invD(1,2) [of r] by (auto simp: handle_graft_def Let_def intro!: send_rpc_inv set_mesh_inv add_to_mesh_inv)

lemma handle_prune_inv: "router_inv r \<Longrightarrow> router_inv (handle_prune w p x r)"
  using router_invD(1,2) [of r] router_invD(5) [of r p]
  by (auto simp: handle_prune_def Let_def intro!: set_mesh_inv set_peer_inv remove_from_mesh_inv split: option.split)

lemma handle_ihave_inv: "router_inv r \<Longrightarrow> router_inv (handle_ihave p x r)"
  by (simp add: handle_ihave_def Let_def send_rpc_inv)

lemma served_put: "served_count (dput served i n) j = (if j = i then n else served_count served j)"
  by (simp add: served_count_def dict.get_put)

lemma iwant_loop_bound:
  "iwant_loop c is served messages = (served', messages', e) \<Longrightarrow> (\<forall>i. served_count served i \<le> GOSSIP_RETRANSMISSION) \<Longrightarrow>
     (\<forall>i. served_count served' i \<le> GOSSIP_RETRANSMISSION) \<and> length messages' \<le> length messages + length is"
proof (induction c "is" served messages arbitrary: served' messages' e rule: iwant_loop.induct)
  case (2 c i "is" served messages)
  show ?case
  proof (cases "length i = 20 \<and> served_count served i < GOSSIP_RETRANSMISSION \<and> mcache_get c i \<noteq> None")
    case False
    then have "iwant_loop c is served messages = (served', messages', e)" using "2.prems"(1) by (auto split: if_splits)
    with 2 False show ?thesis by (cases "length i = 20"; cases "served_count served i < GOSSIP_RETRANSMISSION") auto
  next
    case True
    then obtain m where m: "mcache_get c i = Some m" by blast
    show ?thesis
    proof (cases "utf8_decode (gm_topic m)")
      case (Inl x)
      with "2.prems" True m show ?thesis by auto
    next
      case (Inr topic)
      have "\<forall>j. served_count (dput served i (served_count served i + 1)) j \<le> GOSSIP_RETRANSMISSION"
        using "2.prems"(2) True by (simp add: served_put)
      with 2 True m Inr show ?thesis by fastforce
    qed
  qed
qed simp

lemma handle_iwant_inv [keeps]: "preserves router_inv (handle_iwant p x)"
  unfolding preserves_def
proof (intro allI impI)
  fix r
  assume inv: "router_inv r"
  show "router_inv (fst (handle_iwant p x r))"
  proof (cases "dget (ro_peers r) p")
    case (Some ps)
    obtain served messages e where loop: "iwant_loop (ro_message_cache r) (take MAX_IWANT_MESSAGE_IDS_PER_REQUEST (iw_message_ids x))
        (ps_iwant_served_counts ps) [] = (served, messages, e)" by (metis prod_cases3)
    have "peer_inv ps" by (rule router_invD(5) [OF inv Some])
    with iwant_loop_bound [OF loop] have "peer_inv (ps\<lparr>ps_iwant_served_counts := served\<rparr>)" by (simp add: peer_inv_def)
    from set_peer_inv [OF inv this] show ?thesis
      using Some loop by (auto simp: handle_iwant_def Let_def intro: send_rpc_inv split: option.split)
  qed (use inv in \<open>simp add: handle_iwant_def\<close>)
qed

lemma handle_idontwant_inv: "router_inv r \<Longrightarrow> router_inv (handle_idontwant p x r)"
  using router_invD(5) [of r p] by (auto simp: handle_idontwant_def peer_inv_def intro!: set_peer_inv split: option.split)

lemma handle_control_inv [keeps]: "preserves router_inv (handle_control w p c)"
  unfolding handle_control_def
  by (intro keeps preserves_modify handle_graft_inv handle_prune_inv handle_ihave_inv handle_idontwant_inv)

lemma handle_rpc_inv [keeps]: "preserves router_inv (handle_rpc H w p rpc)"
  unfolding handle_rpc_def
  by (intro keeps preserves_modify handle_subscription_inv) (auto intro: keeps split: option.split)

lemma add_to_mesh_card:
  assumes "mesh_inv m"
  shows "card (get_mesh_peers (snd (add_to_mesh m t p)) t) \<le> Suc (card (get_mesh_peers m t))"
proof (cases "dget (ms_meshes m) t")
  case (Some peers)
  then show ?thesis
    using mesh_invD(6) [OF assms Some] by (simp add: add_to_mesh_def topic_mesh_add_def get_mesh_peers_def dict.get_put card_insert_if)
qed (simp add: add_to_mesh_def)

lemma fold_add_params [simp]: "ms_params (fold (\<lambda>p m. snd (add_to_mesh m t p)) ps m) = ms_params m"
  by (induction ps arbitrary: m) simp_all

lemma fold_add_inv:
  "mesh_inv m \<Longrightarrow> card (get_mesh_peers m t) + length ps \<le> gp_d_high (ms_params m) \<Longrightarrow>
     mesh_inv (fold (\<lambda>p m. snd (add_to_mesh m t p)) ps m)"
proof (induction ps arbitrary: m)
  case (Cons p ps)
  have "mesh_inv (snd (add_to_mesh m t p))" using Cons.prems by (intro add_to_mesh_inv) simp_all
  with Cons add_to_mesh_card [OF Cons.prems(1), of t p] show ?case by simp
qed simp

lemma graft_peers_inv:
  assumes "router_inv r" and "card (get_mesh_peers (ro_mesh r) t) + length ps \<le> gp_d_high (ro_params r)"
  shows "router_inv (graft_peers t ps r)"
  unfolding graft_peers_def
  by (rule fold_send_inv) (use assms router_invD(1,2) [OF assms(1)] in \<open>auto intro!: set_mesh_inv fold_add_inv\<close>)

lemma prune_peer_inv: "router_inv r \<Longrightarrow> router_inv (prune_peer w t p r)"
  using send_rpc_inv [of r p "prune_rpc t"] router_invD(5) [OF send_rpc_inv, of r p "prune_rpc t" p]
  by (auto simp: prune_peer_def Let_def intro!: set_peer_inv split: option.split)

lemma random_sample_length:
  assumes "world_ok w" and "random_sample w xs k = Inr ys"
  shows "0 \<le> k" and "length ys = nat k"
  using assms by (auto simp: random_sample_def world_ok_def samples_def split: if_splits)

lemma maintain_mesh_inv [keeps]:
  assumes w: "world_ok w"
  shows "preserves router_inv (maintain_mesh w t)"
  unfolding maintain_mesh_def
proof (rule preserves_readingI)
  fix r
  assume inv: "router_inv r"
  let ?n = "card (get_mesh_peers (ro_mesh r) t)" and ?el = "eligible_peers w t r"
  have d: "gp_d (ro_params r) \<le> gp_d_high (ro_params r)"
    using mesh_invD(1) [OF router_invD(1) [OF inv]] router_invD(2) [OF inv] by (simp add: params_ok_def)
  have graft: "router_inv (graft_peers t ps r)"
    if "random_sample w ?el (min (int (gp_d (ro_params r)) - int ?n) (int (length ?el))) = Inr ps" for ps
  proof (rule graft_peers_inv [OF inv])
    show "?n + length ps \<le> gp_d_high (ro_params r)" using random_sample_length [OF w that] d by linarith
  qed
  have prune: "router_inv (fold (prune_peer w t) ps (r\<lparr>ro_mesh := fold (\<lambda>p m. snd (remove_from_mesh m t p)) ps (ro_mesh r)\<rparr>))" for ps
    by (rule fold_keeps)
       (use inv router_invD(1,2) [OF inv] fold_remove_inv [of "ro_mesh r" "\<lambda>_. t" "\<lambda>p. p"] in \<open>auto intro!: prune_peer_inv set_mesh_inv\<close>)
  show "router_inv (fst ((let mesh_peers = get_mesh_peers (ro_mesh r) t; mesh_size = card mesh_peers; eligible = eligible_peers w t r
       in if mesh_size < gp_d_low (ro_params r) \<and> eligible \<noteq> [] then
            attempt (random_sample w eligible (min (int (gp_d (ro_params r)) - int mesh_size) (int (length eligible))))
              (\<lambda>to_graft. modify (graft_peers t to_graft))
          else if mesh_size > gp_d_high (ro_params r) then
            attempt (random_sample w (w_peers w mesh_peers) (int mesh_size - int (gp_d (ro_params r))))
              (\<lambda>to_prune. modify (\<lambda>r. fold (prune_peer w t) to_prune
                 (r\<lparr>ro_mesh := fold (\<lambda>p m. snd (remove_from_mesh m t p)) to_prune (ro_mesh r)\<rparr>)))
          else skip) r))"
    unfolding Let_def using inv graft prune by (auto simp: fst_attempt split: sum.split)
qed

lemma emit_gossip_inv: "router_inv r \<Longrightarrow> router_inv (emit_gossip w t r)"
  unfolding emit_gossip_def Let_def by (auto intro: fold_send_inv)

lemma fill_fanouts_inv: "world_ok w \<Longrightarrow> router_inv r \<Longrightarrow> router_inv (fill_fanouts w r)"
  unfolding fill_fanouts_def
  by (rule fold_keeps) (auto intro!: set_mesh_inv fill_fanout_inv dest: router_invD(1,2))

lemma dget_map_values: "dget (map (\<lambda>(k, v). (k, f v)) d) k = map_option f (dget d k)"
  by (induction d) auto

lemma clear_windows_inv: "router_inv r \<Longrightarrow> router_inv (clear_windows r)"
proof -
  assume inv: "router_inv r"
  have keys: "map fst (ro_peers (clear_windows r)) = map fst (ro_peers r)"
    by (simp add: clear_windows_def case_prod_beta comp_def)
  have "dwf (ro_peers (clear_windows r))" using router_invD(4) [OF inv] unfolding dwf_def keys .
  moreover have "peer_inv ps" if "dget (ro_peers (clear_windows r)) p = Some ps" for p ps
    using that by (auto simp: clear_windows_def dget_map_values [of "\<lambda>ps. ps\<lparr>ps_dont_want_ids := {}, ps_iwant_served_counts := []\<rparr>"] peer_inv_def served_count_def)
  ultimately show ?thesis using inv by (simp add: router_inv_def) (simp add: clear_windows_def)
qed

lemma shift_cache_inv [keeps]:
  "preserves router_inv (reading (\<lambda>r. attempt (mcache_shift (ro_message_cache r)) (\<lambda>(_, c). modify (\<lambda>r. r\<lparr>ro_message_cache := c\<rparr>))))"
proof (rule preserves_readingI)
  fix r
  assume inv: "router_inv r"
  obtain n c where "mcache_shift (ro_message_cache r) = Inr (n, c)" "mcache_inv c"
    using mcache_shift_ok [OF router_invD(3) [OF inv]] by blast
  with inv show "router_inv (fst (attempt (mcache_shift (ro_message_cache r)) (\<lambda>(_, c). modify (\<lambda>r. r\<lparr>ro_message_cache := c\<rparr>)) r))"
    by (simp add: fst_attempt set_cache_inv)
qed

lemma heartbeat_inv [keeps]: "world_ok w \<Longrightarrow> preserves router_inv (heartbeat w)"
  unfolding heartbeat_def
  by (intro keeps preserves_modify fill_fanouts_inv clear_windows_inv set_mesh_inv cleanup_fanouts_inv fold_keeps [where P = router_inv] emit_gossip_inv)
     (auto dest: router_invD(1,2))

lemma fold_send_frame:
  "ro_mesh (fold (\<lambda>p r. if c p r then send_rpc p rpc r else r) ps r) = ro_mesh r"
  "ro_params (fold (\<lambda>p r. if c p r then send_rpc p rpc r else r) ps r) = ro_params r"
  by (induction ps arbitrary: r) auto

lemma fold_graft_inv:
  "router_inv r \<Longrightarrow> card (get_mesh_peers (ro_mesh r) t) + length ps \<le> gp_d_high (ro_params r) \<Longrightarrow>
     router_inv (fold (\<lambda>p r. send_rpc p rpc (r\<lparr>ro_mesh := snd (add_to_mesh (ro_mesh r) t p)\<rparr>)) ps r)"
proof (induction ps arbitrary: r)
  case (Cons p ps)
  have m: "mesh_inv (ro_mesh r)" "ms_params (ro_mesh r) = ro_params r" using router_invD(1,2) [OF Cons.prems(1)] .
  have "router_inv (send_rpc p rpc (r\<lparr>ro_mesh := snd (add_to_mesh (ro_mesh r) t p)\<rparr>))"
    using Cons.prems m by (intro send_rpc_inv set_mesh_inv add_to_mesh_inv) simp_all
  with Cons add_to_mesh_card [OF m(1), of t p] show ?case by simp
qed simp

lemma broadcast_inv:
  assumes inv: "router_inv r"
  shows "router_inv (broadcast_subscription w task r)"
proof -
  obtain t b ps where task: "task = (t, b, ps)" by (metis prod_cases3)
  let ?r = "fold (\<lambda>p r. if has_outbound_stream p r then send_rpc p (rpc_subscription [t] b) r else r) (dkeys (ro_peers r)) r"
  have r: "router_inv ?r" by (rule fold_keeps) (use inv in \<open>auto intro: send_rpc_inv\<close>)
  have d: "gp_d (ro_params ?r) \<le> gp_d_high (ro_params ?r)"
    using mesh_invD(1) [OF router_invD(1) [OF r]] router_invD(2) [OF r] by (simp add: params_ok_def)
  let ?mesh = "get_mesh_peers (ro_mesh ?r) t"
  let ?el = "take (gp_d (ro_params ?r) - card ?mesh) (filter (\<lambda>p. p \<notin> ?mesh) (topic_peers t ?r))"
  have "router_inv (fold (\<lambda>p r. send_rpc p (rpc_graft [t]) (r\<lparr>ro_mesh := snd (add_to_mesh (ro_mesh r) t p)\<rparr>)) ?el ?r)"
    if "card ?mesh < gp_d (ro_params ?r)"
  proof (rule fold_graft_inv [OF r])
    have "length ?el \<le> gp_d (ro_params ?r) - card ?mesh" by simp
    then show "card ?mesh + length ?el \<le> gp_d_high (ro_params ?r)" using that d by linarith
  qed
  moreover have "router_inv (fold (\<lambda>p r. if dget (ro_peers r) p \<noteq> None then send_rpc p (prune_rpc t) r else r) (w_peers w ps) ?r)"
    by (rule fold_keeps) (use r in \<open>auto intro: send_rpc_inv\<close>)
  ultimately show ?thesis using r by (simp add: broadcast_subscription_def task Let_def)
qed

lemma run_task_inv: "router_inv r \<Longrightarrow> router_inv (run_task w k r)"
  by (simp add: run_task_def broadcast_inv)

lemma drain_inv: "router_inv r \<Longrightarrow> router_inv (fst (drain H w p buffer r))"
proof (induction H w p buffer r rule: drain.induct)
  case (1 H w p buffer r)
  have handled: "router_inv (swallow (handle_rpc H w p rpc) r)" for rpc
    unfolding swallow_def by (rule preservesD [OF handle_rpc_inv "1.prems"])
  show ?case
    by (subst drain.simps) (auto simp: Let_def "1.prems" handled intro!: "1.IH" split: sum.split)
qed

lemma receive_loop_inv: "router_inv r \<Longrightarrow> router_inv (receive_loop H p w chunks buffer r)"
proof (induction chunks arbitrary: buffer r)
  case (Cons chunk chunks)
  have d: "router_inv (fst (drain H w p (buffer @ chunk) r))" by (rule drain_inv [OF Cons.prems])
  show ?case
  proof (cases "drain H w p (buffer @ chunk) r")
    case (Pair r' rest)
    with d Cons show ?thesis by (cases rest) (auto intro: gossip_remove_peer_inv)
  qed
qed (simp add: gossip_remove_peer_inv)

section \<open>The router as a state machine\<close>

inductive router_step :: "digest \<Rightarrow> router \<Rightarrow> router \<Rightarrow> bool" for H :: digest where
  step_subscribe: "router_step H r (subscribe t r)"
| step_unsubscribe: "router_step H r (unsubscribe t r)"
| step_start: "router_step H r (gossip_start r)"
| step_stop: "router_step H r (gossip_stop w r)"
| step_add_peer: "router_step H r (gossip_add_peer w p inbound r)"
| step_remove_peer: "router_step H r (gossip_remove_peer w p r)"
| step_publish: "world_ok w \<Longrightarrow> router_step H r (swallow (publish H w t data) r)"
| step_rpc: "world_ok w \<Longrightarrow> router_step H r (swallow (handle_rpc H w p rpc) r)"
| step_heartbeat: "world_ok w \<Longrightarrow> router_step H r (swallow (heartbeat w) r)"
| step_task: "world_ok w \<Longrightarrow> router_step H r (run_task w k r)"
| step_event: "get_next_event r = Some (e, r') \<Longrightarrow> router_step H r r'"

lemma router_step_inv: "router_step H r r' \<Longrightarrow> router_inv r \<Longrightarrow> router_inv r'"
proof (induction rule: router_step.induct)
  case (step_event r e r')
  then show ?case by (auto simp: get_next_event_def split: if_splits list.splits)
qed (auto simp: swallow_def intro: subscribe_inv unsubscribe_inv gossip_start_inv gossip_stop_inv gossip_add_peer_inv gossip_remove_peer_inv run_task_inv
    preservesD [OF publish_inv] preservesD [OF handle_rpc_inv] preservesD [OF heartbeat_inv])

definition router_init :: "router \<Rightarrow> bool" where
  "router_init r \<longleftrightarrow> (\<exists>p. params_ok p \<and> r = new_router p)"

lemma new_router_inv: "params_ok p \<Longrightarrow> router_inv (new_router p)"
  by (auto simp: router_inv_def new_router_def new_mesh_state_inv new_message_cache_inv params_ok_def dwf_def new_mesh_state_def
      intro!: new_mesh_state_inv [unfolded new_mesh_state_def])

interpretation router_machine: machine router_init "router_step H" router_inv for H
  by unfold_locales (auto simp: router_init_def new_router_inv intro: router_step_inv)

section \<open>Framing\<close>

lemma drain_Nil [simp]: "drain H w p [] r = (r, Some [])"
  by (simp add: drain.simps)

lemma drain_append:
  "drain H w p (buffer @ ext) r =
     (case drain H w p buffer r of (r', None) \<Rightarrow> (r', None) | (r', Some rest) \<Rightarrow> drain H w p (rest @ ext) r')"
proof (induction H w p buffer r rule: drain.induct)
  case (1 H w p buffer r)
  show ?case
  proof (cases "buffer = []")
    case False
    show ?thesis
    proof (cases "read_varint buffer 0")
      case (Inl e)
      then show ?thesis using False by (simp add: drain.simps [of H w p buffer])
    next
      case (Inr lv)
      obtain len k where lv: "lv = (len, k)" by (cases lv)
      have v: "read_varint (buffer @ ext) 0 = Inr (len, k)"
        using Inr lv varint_loop_append unfolding decode_varint_def by simp
      consider (big) "len > MAX_PAYLOAD_SIZE" | (short) "len \<le> MAX_PAYLOAD_SIZE" "length buffer < k + len"
        | (frame) "len \<le> MAX_PAYLOAD_SIZE" "k + len \<le> length buffer" by linarith
      then show ?thesis
      proof cases
        case big
        then show ?thesis using False Inr lv v by (simp add: drain.simps [of H w p buffer] drain.simps [of H w p "buffer @ ext"])
      next
        case short
        then show ?thesis using False Inr lv by (simp add: drain.simps [of H w p buffer])
      next
        case frame
        let ?data = "py_slice buffer k (k + len)" and ?rest = "drop (k + len) buffer"
        have sl: "py_slice (buffer @ ext) k (k + len) = ?data" "drop (k + len) (buffer @ ext) = ?rest @ ext"
          using frame by (simp_all add: py_slice_def)
        have step: "drain H w p (buffer @ ext) r = (case rpc_decode ?data of Inl e \<Rightarrow> drain H w p (?rest @ ext) r
            | Inr rpc \<Rightarrow> drain H w p (?rest @ ext) (swallow (handle_rpc H w p rpc) r))"
          using False frame v sl by (subst drain.simps) (simp add: Let_def)
        have step': "drain H w p buffer r = (case rpc_decode ?data of Inl e \<Rightarrow> drain H w p ?rest r
            | Inr rpc \<Rightarrow> drain H w p ?rest (swallow (handle_rpc H w p rpc) r))"
          using False frame Inr lv by (subst drain.simps) (simp add: Let_def)
        show ?thesis
        proof (cases "rpc_decode ?data")
          case (Inl e)
          then show ?thesis unfolding step step' using "1.IH"(1) [OF False Inr lv [symmetric]] frame by simp
        next
          case R: (Inr rpc)
          then show ?thesis unfolding step step' using "1.IH"(2) [OF False Inr lv [symmetric]] frame by simp
        qed
      qed
    qed
  qed simp
qed

lemma drain_frame:
  assumes f: "frame_rpc rpc = Inr frame" and small: "length frame \<le> MAX_PAYLOAD_SIZE"
  shows "drain H w p (frame @ ext) r = drain H w p ext (swallow (handle_rpc H w p (rpc_norm rpc)) r)"
proof -
  obtain body where body: "rpc_encode rpc = Inr body" "varint_ok 10 (length body)" "frame = varint_groups (length body) @ body"
    using f by (auto simp: frame_rpc_def encode_varint_Inr)
  have v: "read_varint (frame @ ext) 0 = Inr (length body, length (varint_groups (length body)))"
    using varint.dec_enc_start [OF body(2), of "body @ ext"] by (simp add: body(3))
  have "frame @ ext \<noteq> []" using body(3) by simp
  then show ?thesis
    using v small rpc_decode_encode [OF body(1)] body(3)
    by (subst drain.simps) (simp add: Let_def py_slice_def)
qed

lemma drain_frames:
  "rmap frame_rpc rpcs = Inr frames \<Longrightarrow> list_all (\<lambda>f. length f \<le> MAX_PAYLOAD_SIZE) frames \<Longrightarrow>
     drain H w p (concat frames) r = (fold (\<lambda>rpc. swallow (handle_rpc H w p (rpc_norm rpc))) rpcs r, Some [])"
  by (induction rpcs arbitrary: frames r) (auto simp: drain_frame)

lemma drain_rest: "drain H w p buffer r = (r1, Some rest) \<Longrightarrow> drain H w p rest r2 = (r2, Some rest)"
proof (induction H w p buffer r rule: drain.induct)
  case (1 H w p buffer r)
  note prem = "1.prems" [unfolded drain.simps [of H w p buffer r]]
  show ?case
  proof (cases "buffer = []")
    case False
    show ?thesis
    proof (cases "read_varint buffer 0")
      case (Inl e)
      with prem False show ?thesis by (subst drain.simps) simp
    next
      case (Inr lv)
      obtain len k where lv: "lv = (len, k)" by (cases lv)
      have small: "\<not> len > MAX_PAYLOAD_SIZE" using prem False Inr lv by (auto split: if_splits)
      show ?thesis
      proof (cases "length buffer < k + len")
        case True
        with prem False Inr lv small show ?thesis by (subst drain.simps) simp
      next
        case whole: False
        show ?thesis
        proof (cases "rpc_decode (py_slice buffer k (k + len))")
          case E: (Inl e)
          then show ?thesis
            using "1.IH"(1) [OF False Inr lv [symmetric] small whole refl refl E] prem False Inr lv small whole by (simp add: Let_def)
        next
          case R: (Inr rpc)
          then show ?thesis
            using "1.IH"(2) [OF False Inr lv [symmetric] small whole refl refl R] prem False Inr lv small whole by (simp add: Let_def)
        qed
      qed
    qed
  qed (use prem in simp)
qed

section \<open>Handlers keep the set of peers\<close>

definition peer_known :: "peer_id \<Rightarrow> bool \<Rightarrow> router \<Rightarrow> bool" where
  "peer_known q b r \<longleftrightarrow> (dget (ro_peers r) q \<noteq> None) = b"

lemma set_peer_known: "dget (ro_peers r) p \<noteq> None \<Longrightarrow> peer_known q b (set_peer p ps r) = peer_known q b r"
  by (auto simp: peer_known_def set_peer_def dict.get_put)

lemma other_fields_known [simp]:
  "peer_known q b (r\<lparr>ro_event_queue := x\<rparr>) = peer_known q b r" "peer_known q b (r\<lparr>ro_mesh := m\<rparr>) = peer_known q b r"
  "peer_known q b (r\<lparr>ro_message_cache := c\<rparr>) = peer_known q b r" "peer_known q b (r\<lparr>ro_seen_cache := sc\<rparr>) = peer_known q b r"
  by (simp_all add: peer_known_def)

lemma send_rpc_known [simp]: "peer_known q b (send_rpc p rpc r) = peer_known q b r"
  by (auto simp: send_rpc_def set_peer_known split: option.split sum.split)

lemma handle_subscription_known: "peer_known q b (handle_subscription p x r) = peer_known q b r"
  by (auto simp: handle_subscription_def Let_def set_peer_known split: option.split)

lemma handle_graft_known: "peer_known q b (handle_graft w p x r) = peer_known q b r"
  by (simp add: handle_graft_def Let_def)

lemma handle_prune_known: "peer_known q b (handle_prune w p x r) = peer_known q b r"
  by (auto simp: handle_prune_def Let_def set_peer_known split: option.split)

lemma handle_ihave_known: "peer_known q b (handle_ihave p x r) = peer_known q b r"
  by (simp add: handle_ihave_def Let_def)

lemma handle_idontwant_known: "peer_known q b (handle_idontwant p x r) = peer_known q b r"
  by (auto simp: handle_idontwant_def set_peer_known split: option.split)

lemma handle_iwant_known [keeps]: "preserves (peer_known q b) (handle_iwant p x)"
  by (auto simp: preserves_def handle_iwant_def Let_def set_peer_known split: option.split prod.split)

lemma forward_message_known: "peer_known q b r \<Longrightarrow> peer_known q b (forward_message w p m i r)"
  unfolding forward_message_def Let_def by (auto intro!: fold_keeps [where P = "peer_known q b"])

lemma remember_known [keeps]: "preserves (peer_known q b) (remember H w t tb data i)"
  unfolding remember_def by (intro keeps preserves_modify) (auto intro: keeps preserves_modify)

lemma handle_message_known [keeps]: "preserves (peer_known q b) (handle_message H w p m)"
  unfolding handle_message_def Let_def case_prod_beta
  by (intro keeps preserves_modify) (simp_all add: forward_message_known)

lemma handle_control_known [keeps]: "preserves (peer_known q b) (handle_control w p c)"
  unfolding handle_control_def
  by (intro keeps preserves_modify)
     (simp_all add: handle_graft_known handle_prune_known handle_ihave_known handle_idontwant_known)

lemma handle_rpc_known [keeps]: "preserves (peer_known q b) (handle_rpc H w p rpc)"
  unfolding handle_rpc_def
  by (intro keeps preserves_modify) (auto simp: handle_subscription_known intro: keeps split: option.split)

lemma drain_known: "peer_known q b r \<Longrightarrow> peer_known q b (fst (drain H w p buffer r))"
proof (induction H w p buffer r rule: drain.induct)
  case (1 H w p buffer r)
  have handled: "peer_known q b (swallow (handle_rpc H w p rpc) r)" for rpc
    unfolding swallow_def by (rule preservesD [OF handle_rpc_known "1.prems"])
  show ?case
    by (subst drain.simps) (auto simp: Let_def "1.prems" handled intro!: "1.IH" split: sum.split)
qed

lemma receive_loop_drain:
  assumes "drain H w p (buffer @ concat chunks) r = (r', Some rest)" and "[] \<notin> set chunks" and "peer_known p True r"
    and "\<And>r. drain H w p buffer r = (r, Some buffer)"
  shows "receive_loop H p w chunks buffer r = gossip_remove_peer w p r'"
  using assms
proof (induction chunks arbitrary: buffer r)
  case (Cons c cs)
  obtain r1 opt where d: "drain H w p (buffer @ c) r = (r1, opt)" by fastforce
  have all: "drain H w p ((buffer @ c) @ concat cs) r = (r', Some rest)" using Cons.prems(1) by simp
  then obtain rest1 where opt: "opt = Some rest1" unfolding drain_append [of H w p "buffer @ c"] d by (cases opt) auto
  have "receive_loop H p w cs rest1 r1 = gossip_remove_peer w p r'"
  proof (rule Cons.IH)
    show "drain H w p (rest1 @ concat cs) r1 = (r', Some rest)" using all unfolding drain_append [of H w p "buffer @ c"] d opt by simp
    show "peer_known p True r1" using drain_known [OF Cons.prems(3), of H w p "buffer @ c"] d by simp
    show "drain H w p rest1 r2 = (r2, Some rest1)" for r2 by (rule drain_rest) (use d opt in simp)
  qed (use Cons.prems(2) in simp)
  then show ?case using d opt Cons.prems(2,3) by (auto simp: peer_known_def)
qed simp

section \<open>Who receives what\<close>

definition outbound :: "router \<Rightarrow> peer_id \<Rightarrow> bytes option" where
  "outbound r q = (case dget (ro_peers r) q of None \<Rightarrow> None | Some ps \<Rightarrow> ps_outbound ps)"

lemma send_rpc_outbound: "q \<noteq> p \<Longrightarrow> outbound (send_rpc p rpc r) q = outbound r q"
  by (auto simp: outbound_def send_rpc_def set_peer_def dict.get_put split: option.split sum.split)

lemma forward_outbound:
  assumes w: "world_ok w" and inv: "mesh_inv (ro_mesh r)" and q: "q = p \<or> q \<notin> get_mesh_peers (ro_mesh r) (m_topic m)"
  shows "outbound (forward_message w p m i r) q = outbound r q"
proof -
  let ?ps = "w_peers w (get_mesh_peers (ro_mesh r) (m_topic m))"
  have ps: "set ?ps = get_mesh_peers (ro_mesh r) (m_topic m)"
    using w get_mesh_peers_finite [OF inv] by (simp add: world_ok_def set_order_def)
  have ne: "q \<noteq> x" if "x \<in> set ?ps" "x \<noteq> p" for x using that q ps by auto
  have "outbound (fold (\<lambda>x r. if x = p then r else if declines r i x then r else send_rpc x (rpc_publish [m]) r) ?ps r) q = outbound r q"
    by (rule fold_keeps [where P = "\<lambda>r'. outbound r' q = outbound r q"]) (auto simp: send_rpc_outbound ne)
  moreover have "outbound (fold (\<lambda>x r. if x \<noteq> p then send_rpc x (idontwant_rpc i) r else r) ?ps r') q = outbound r' q" for r'
    by (rule fold_keeps [where P = "\<lambda>r''. outbound r'' q = outbound r' q"]) (auto simp: send_rpc_outbound ne)
  ultimately show ?thesis by (simp add: forward_message_def Let_def)
qed

lemma remember_frame:
  "ro_mesh (fst (remember H w t tb data i r)) = ro_mesh r" "ro_peers (fst (remember H w t tb data i r)) = ro_peers r"
  "seen_has (ro_seen_cache (fst (remember H w t tb data i r))) i"
  by (auto simp: remember_def and_then_def modify_def reading_def attempt_def throw_def seen_has_def seen_add_def dict.get_put
      split: sum.split prod.split)

lemma forward_message_frame:
  "ro_seen_cache (forward_message w p m i r) = ro_seen_cache r" "ro_mesh (forward_message w p m i r) = ro_mesh r"
proof -
  have a: "ro_seen_cache (fold (\<lambda>q r. if c q r then r else if d q r then r else send_rpc q x r) ps r) = ro_seen_cache r \<and>
      ro_mesh (fold (\<lambda>q r. if c q r then r else if d q r then r else send_rpc q x r) ps r) = ro_mesh r" for c d x ps and r :: router
    by (induction ps arbitrary: r) auto
  have b: "ro_seen_cache (fold (\<lambda>q r. if c q r then send_rpc q x r else r) ps r) = ro_seen_cache r \<and>
      ro_mesh (fold (\<lambda>q r. if c q r then send_rpc q x r else r) ps r) = ro_mesh r" for c x ps and r :: router
    by (induction ps arbitrary: r) auto
  show "ro_seen_cache (forward_message w p m i r) = ro_seen_cache r" "ro_mesh (forward_message w p m i r) = ro_mesh r"
    using a b by (simp_all add: forward_message_def Let_def)
qed

text \<open>What a message that is not skipped does.\<close>

definition accept_message :: "digest \<Rightarrow> world \<Rightarrow> peer_id \<Rightarrow> message \<Rightarrow> bytes \<Rightarrow> bytes \<Rightarrow> message_id \<Rightarrow> router action" where
  "accept_message H w p m topic_bytes decompressed i =
     and_then (remember H w (m_topic m) topic_bytes (m_data m) i)
       (modify (\<lambda>r. let r1 = forward_message w p m i r
          in r1\<lparr>ro_event_queue := ro_event_queue r1 @ [MessageEvent p (m_topic m) decompressed i]\<rparr>))"

lemma accept_message_seen: "seen_has (ro_seen_cache (fst (accept_message H w p m tb d i r))) i"
  using remember_frame(3) [of H w "m_topic m" tb "m_data m" i r]
  by (auto simp: accept_message_def and_then_def modify_def Let_def forward_message_frame split: prod.split option.split)

lemma handle_message_accepted:
  assumes "m_topic m \<noteq> []" "m_topic m \<in> ms_subscriptions (ro_mesh r)" "utf8_encode (m_topic m) = Inr tb"
    "compute_id H tb (fst (try_decompress (m_data m))) (Some (snd (try_decompress (m_data m)))) = Inr i"
    "\<not> seen_has (ro_seen_cache r) i" "length (fst (try_decompress (m_data m))) \<le> MAX_PAYLOAD_SIZE"
  shows "handle_message H w p m r = accept_message H w p m tb (fst (try_decompress (m_data m))) i r"
  using assms by (simp add: handle_message_def accept_message_def reading_def attempt_def case_prod_beta)

lemma handle_message_cases:
  obtains (ignored) e where "handle_message H w p m r = (r, e)"
  | (accepted) tb dom i where "m_topic m \<noteq> []" "m_topic m \<in> ms_subscriptions (ro_mesh r)" "utf8_encode (m_topic m) = Inr tb"
      "snd (try_decompress (m_data m)) = dom" "compute_id H tb (fst (try_decompress (m_data m))) (Some dom) = Inr i"
      "\<not> seen_has (ro_seen_cache r) i" "length (fst (try_decompress (m_data m))) \<le> MAX_PAYLOAD_SIZE"
      "handle_message H w p m r = accept_message H w p m tb (fst (try_decompress (m_data m))) i r"
proof (cases "m_topic m = [] \<or> m_topic m \<notin> ms_subscriptions (ro_mesh r)")
  case True
  then show ?thesis by (intro ignored [of None]) (auto simp: handle_message_def reading_def skip_def)
next
  case F: False
  show ?thesis
  proof (cases "utf8_encode (m_topic m)")
    case (Inl e)
    with F show ?thesis by (intro ignored [of "Some e"]) (simp add: handle_message_def reading_def attempt_def throw_def)
  next
    case tb: (Inr tb)
    let ?d = "fst (try_decompress (m_data m))" and ?dom = "snd (try_decompress (m_data m))"
    show ?thesis
    proof (cases "length ?d > MAX_PAYLOAD_SIZE")
      case True
      with F tb show ?thesis
        by (intro ignored [of None]) (simp add: handle_message_def reading_def attempt_def skip_def case_prod_beta)
    next
      case small: False
      show ?thesis
      proof (cases "compute_id H tb ?d (Some ?dom)")
        case (Inl e)
        with F tb small show ?thesis
          by (intro ignored [of "Some e"]) (simp add: handle_message_def reading_def attempt_def throw_def case_prod_beta)
      next
        case (Inr i)
        show ?thesis
        proof (cases "seen_has (ro_seen_cache r) i")
          case True
          with F tb small Inr show ?thesis
            by (intro ignored [of None]) (simp add: handle_message_def reading_def attempt_def skip_def case_prod_beta)
        next
          case False
          with F tb small Inr show ?thesis
            by (intro accepted [of tb ?dom i]) (simp_all add: handle_message_def accept_message_def reading_def attempt_def case_prod_beta)
        qed
      qed
    qed
  qed
qed

section \<open>Properties\<close>

text \<open>
  Property C10: in every state the router can reach, whatever peers connect, whatever RPCs arrive and in whatever order
  handlers, heartbeats and background announcements run, a mesh exists exactly for the subscribed topics and never
  exceeds \<open>D_high\<close> peers, fanouts exist only for other topics and never exceed \<open>D\<close> peers, every cached
  message lies in exactly one history window, and no message was served to one peer more than three times since the
  last heartbeat. In particular the pruning branch of the heartbeat is never taken.
\<close>

theorem router_invariant:
  assumes "reach router_init (router_step H) r"
  shows "(dget (ms_meshes (ro_mesh r)) t \<noteq> None \<longleftrightarrow> t \<in> ms_subscriptions (ro_mesh r)) \<and>
    card (get_mesh_peers (ro_mesh r) t) \<le> gp_d_high (ro_params r) \<and>
    (t \<in> fanout_topics (ro_mesh r) \<longrightarrow> t \<notin> ms_subscriptions (ro_mesh r)) \<and>
    card (get_fanout_peers (ro_mesh r) t) \<le> gp_d (ro_params r) \<and>
    mcache_inv (ro_message_cache r) \<and>
    (dget (ro_peers r) p = Some ps \<longrightarrow> served_count (ps_iwant_served_counts ps) i \<le> GOSSIP_RETRANSMISSION)"
proof -
  have inv: "router_inv r" by (rule router_machine.reach_inv [OF assms])
  note m = router_invD(1) [OF inv] and p = router_invD(2) [OF inv]
  have "t \<in> fanout_topics (ro_mesh r) \<longrightarrow> t \<notin> ms_subscriptions (ro_mesh r)"
    using mesh_invD(7) [OF m, of t] by (auto simp: fanout_topics_def dict.set_keys)
  moreover have "card (get_fanout_peers (ro_mesh r) t) \<le> gp_d (ro_params r)"
    using mesh_invD(7) [OF m, of t] p by (auto simp: get_fanout_peers_def split: option.split)
  ultimately show ?thesis
    using mesh_invD(5) [OF m, of t] get_mesh_peers_bound [OF m, of t] p router_invD(3) [OF inv] router_invD(5) [OF inv, of p ps]
    by (simp add: peer_inv_def)
qed

theorem router_invariant_witness:
  "reach router_init (router_step (\<lambda>_. [])) (subscribe [116] (new_router default_params)) \<and>
   card (get_mesh_peers (ro_mesh (subscribe [116] (new_router default_params))) [116]) \<le> 12"
proof -
  have r: "reach router_init (router_step (\<lambda>_. [])) (subscribe [116] (new_router default_params))"
    by (rule reach_step [where s = "new_router default_params"])
       (auto simp: router_init_def params_ok_def default_params_def intro!: reach_init step_subscribe exI [of _ default_params])
  have "ro_params (subscribe [116] (new_router default_params)) = default_params"
    by (simp add: subscribe_def new_router_def Let_def)
  with router_invariant [OF r, of "[116]"] r show ?thesis by (simp add: default_params_def)
qed

text \<open>
  Property C11: whatever way the network splits a stream of framed RPCs into reads, the receive loop handles exactly the
  RPCs that were sent, each once and in order, and then removes the peer.
\<close>

theorem receive_stream_exact:
  assumes "rmap frame_rpc rpcs = Inr frames" and "list_all (\<lambda>f. length f \<le> MAX_PAYLOAD_SIZE) frames"
    and "concat chunks = concat frames" and "[] \<notin> set chunks" and "dget (ro_peers r) p \<noteq> None"
  shows "receive_loop H p w chunks [] r =
    gossip_remove_peer w p (fold (\<lambda>rpc. swallow (handle_rpc H w p (rpc_norm rpc))) rpcs r)"
  by (rule receive_loop_drain [where rest = "[]"])
     (use assms drain_frames [OF assms(1,2)] in \<open>simp_all add: peer_known_def\<close>)

lemma sample_graft_frame: "frame_rpc (rpc_graft [lit ''a'']) = Inr [7, 26, 5, 26, 3, 10, 1, 97]"
proof -
  have "rpc_encode (rpc_graft [lit ''a'']) = Inr [26, 5, 26, 3, 10, 1, 97]"
    by (simp add: rpc_encode_def rpc_graft_def is_empty_control_def empty_control_def emit_if_def embed_def control_encode_def
        graft_encode_def pb_encode_string_def utf8_ascii lit_def encode_length_delimited_def pb_encode_tag_def tag_value wire_types
        encode_varint_def varint_groups_last)
  then show ?thesis by (simp add: frame_rpc_def encode_varint_def varint_groups_last)
qed

definition sample_world :: world where
  "sample_world = \<lparr>w_now = 0, w_peers = sorted_list_of_set, w_topics = sorted_list_of_set, w_ids = sorted_list_of_set,
     w_sample = \<lambda>xs k. take k xs\<rparr>"

theorem receive_stream_exact_witness:
  "receive_loop (\<lambda>_. []) [1] sample_world [[7, 26, 5], [26, 3, 10, 1, 97]] []
       (set_peer [1] new_peer_state (new_router default_params)) =
     gossip_remove_peer sample_world [1] (swallow (handle_rpc (\<lambda>_. []) sample_world [1] (rpc_norm (rpc_graft [lit ''a''])))
       (set_peer [1] new_peer_state (new_router default_params)))"
  using receive_stream_exact [of "[rpc_graft [lit ''a'']]" "[[7, 26, 5, 26, 3, 10, 1, 97]]" "[[7, 26, 5], [26, 3, 10, 1, 97]]"
      "set_peer [1] new_peer_state (new_router default_params)" "[1]" "\<lambda>_. []" sample_world]
  by (simp add: sample_graft_frame MAX_PAYLOAD_SIZE_def set_peer_def dict.get_put)

text \<open>
  Property C23: a message is processed at most once while it is remembered: handling it again, from any peer and at any
  later reading of the clock, changes nothing.
\<close>

theorem handle_message_once:
  "fst (handle_message H w' q m (fst (handle_message H w p m r))) = fst (handle_message H w p m r)"
proof (cases rule: handle_message_cases [of H w p m r])
  case (ignored e)
  note first = ignored
  show ?thesis
  proof (cases rule: handle_message_cases [of H w' q m r])
    case (accepted tb dom i)
    then have "handle_message H w p m r = accept_message H w p m tb (fst (try_decompress (m_data m))) i r"
      by (simp add: handle_message_accepted)
    with first accept_message_seen [of H w p m tb "fst (try_decompress (m_data m))" i r]
    have "seen_has (ro_seen_cache r) i" by simp
    with accepted show ?thesis by simp
  qed (use first in simp)
next
  case (accepted tb dom i)
  note first = accepted
  have seen: "seen_has (ro_seen_cache (fst (handle_message H w p m r))) i"
    unfolding first(8) by (rule accept_message_seen)
  show ?thesis
  proof (cases rule: handle_message_cases [of H w' q m "fst (handle_message H w p m r)"])
    case (accepted tb' dom' i')
    then have "i' = i" using first by simp
    with accepted(6) seen show ?thesis by simp
  qed simp
qed

text \<open>
  Property C22: handling a published message writes only to members of the topic's mesh, and never back to the peer the
  message came from.
\<close>

theorem message_no_echo:
  assumes "reach router_init (router_step H) r" and "world_ok w"
    and "q = p \<or> q \<notin> get_mesh_peers (ro_mesh r) (m_topic m)"
  shows "outbound (fst (handle_message H w p m r)) q = outbound r q"
proof (cases rule: handle_message_cases [of H w p m r])
  case (accepted tb dom i)
  let ?r = "fst (remember H w (m_topic m) tb (m_data m) i r)"
  have inv: "mesh_inv (ro_mesh r)" by (rule router_invD(1) [OF router_machine.reach_inv [OF assms(1)]])
  have "outbound (forward_message w p m i ?r) q = outbound ?r q"
    by (rule forward_outbound) (use assms inv in \<open>simp_all add: remember_frame\<close>)
  moreover have "outbound ?r q = outbound r q" by (simp add: outbound_def remember_frame)
  ultimately show ?thesis unfolding accepted(8)
    by (auto simp: accept_message_def and_then_def modify_def Let_def outbound_def split: prod.splits option.splits)
qed simp

lemma sample_world_ok: "world_ok sample_world"
  by (auto simp: world_ok_def sample_world_def set_order_def samples_def set_take_subset)

theorem message_no_echo_witness:
  "outbound (fst (handle_message (\<lambda>_. []) sample_world [1] (empty_message\<lparr>m_topic := [116]\<rparr>)
     (subscribe [116] (new_router default_params)))) [1] = outbound (subscribe [116] (new_router default_params)) [1]"
proof -
  have "reach router_init (router_step (\<lambda>_. [])) (subscribe [116] (new_router default_params))"
    by (rule reach_step [where s = "new_router default_params"])
       (auto simp: router_init_def params_ok_def default_params_def intro!: reach_init step_subscribe exI [of _ default_params])
  then show ?thesis by (rule message_no_echo) (simp_all add: sample_world_ok)
qed

text \<open>
  Property C39: ten continuation bytes at the head of the buffer can never become a length prefix, but the loop takes
  them for an incomplete one: whatever follows is kept and nothing is ever handled again.
\<close>

theorem drain_overlong_stalls:
  assumes "10 \<le> length buffer" and "list_all (\<lambda>b. 128 \<le> unat b) (take 10 buffer)"
  shows "drain H w p (buffer @ rest) r = (r, Some (buffer @ rest))"
proof -
  have "read_varint (buffer @ rest) 0 = Inl VarintError"
    using assms by (auto simp: decode_varint_def list_all_length nth_append intro!: varint_loop_overlong)
  with assms show ?thesis by (subst drain.simps) auto
qed

theorem drain_overlong_stalls_witness:
  "drain (\<lambda>_. []) sample_world [1] (replicate 10 255 @ [7, 26, 5, 26, 3, 10, 1, 97]) (new_router default_params) =
     (new_router default_params, Some (replicate 10 255 @ [7, 26, 5, 26, 3, 10, 1, 97]))"
  by (rule drain_overlong_stalls) (simp_all add: list_all_iff)

text \<open>
  Removing a peer does not remove it from the fanouts, and subscribing turns a fanout into the mesh: a peer that has
  disconnected becomes a mesh member.
\<close>

theorem stale_fanout_promoted:
  assumes "t \<notin> ms_subscriptions (ro_mesh r)" and "p \<in> get_fanout_peers (ro_mesh r) t" and "world_ok w"
    and "mesh_inv (ro_mesh r)" "dget (ro_peers r) p \<noteq> None"
  shows "p \<in> get_mesh_peers (ro_mesh (subscribe t (gossip_remove_peer w p r))) t \<and>
    dget (ro_peers (subscribe t (gossip_remove_peer w p r))) p = None"
proof -
  have "ms_fanouts (fold (\<lambda>t m. snd (remove_from_mesh m t p)) ts m) = ms_fanouts m \<and>
      ms_subscriptions (fold (\<lambda>t m. snd (remove_from_mesh m t p)) ts m) = ms_subscriptions m" for ts m
    by (induction ts arbitrary: m) (auto simp: remove_from_mesh_def topic_mesh_remove_def split: option.split)
  with assms show ?thesis
    by (auto simp: subscribe_def gossip_remove_peer_def Let_def mesh_subscribe_def get_mesh_peers_def get_fanout_peers_def dict.get_put dict.get_del
        split: option.splits)
qed

end
