(* ===== verification/State_Transition.thy ===== *)
theory State_Transition
  imports Containers "HOL-Library.Sublist"
begin

text \<open>
  The state transition of \<^verbatim>\<open>spec/forks/lstar/state_transition.py\<close>: genesis, empty slots, the block header
  and the attestations with their justification and finalization rule. The digest function is the
  parameter \<open>H\<close>. The invariant relates the history, the justified-slot flags and the vote tallies; the
  chain is a state machine whose reachable states keep it.
\<close>

section \<open>Genesis and empty slots\<close>

definition ZERO_CHECKPOINT :: checkpoint where
  "ZERO_CHECKPOINT = \<lparr>cp_root = ZERO_HASH, cp_slot = 0\<rparr>"

definition generate_genesis :: "digest \<Rightarrow> nat \<Rightarrow> validator list \<Rightarrow> state result" where
  "generate_genesis H genesis_time validators =
     rbind (body_root H \<lparr>bb_attestations = []\<rparr>) (\<lambda>empty_body_root.
       let genesis_header = \<lparr>bh_slot = 0, bh_proposer_index = 0, bh_parent_root = ZERO_HASH,
                             bh_state_root = ZERO_HASH, bh_body_root = empty_body_root\<rparr>
       in Inr \<lparr>st_config = \<lparr>gc_genesis_time = genesis_time\<rparr>, st_slot = 0, st_latest_block_header = genesis_header,
               st_latest_justified = ZERO_CHECKPOINT, st_latest_finalized = ZERO_CHECKPOINT,
               st_historical_block_hashes = [], st_justified_slots = [], st_validators = validators,
               st_justifications_roots = [], st_justifications_validators = []\<rparr>)"

text \<open>One turn of the loop of \<^verbatim>\<open>process_slots\<close>: the state root is cached into the header when it is empty.\<close>

definition advance_slot :: "digest \<Rightarrow> state \<Rightarrow> state result" where
  "advance_slot H s =
     (let header = st_latest_block_header s
      in rbind (if bh_state_root header = ZERO_HASH then state_root H s else Inr (bh_state_root header))
           (\<lambda>cached_state_root.
             Inr (s\<lparr>st_latest_block_header := header\<lparr>bh_state_root := cached_state_root\<rparr>, st_slot := st_slot s + 1\<rparr>)))"

lemma advance_slot_slot: "advance_slot H s = Inr s' \<Longrightarrow> st_slot s' = st_slot s + 1"
  by (auto simp: advance_slot_def Let_def)

function slots_loop :: "digest \<Rightarrow> state \<Rightarrow> slot \<Rightarrow> state result" where
  "slots_loop H s target_slot =
     (if st_slot s < target_slot then rbind (advance_slot H s) (\<lambda>s'. slots_loop H s' target_slot) else Inr s)"
  by pat_completeness auto
termination
  by (relation "measure (\<lambda>(H, s, target_slot). target_slot - st_slot s)") (auto dest: advance_slot_slot)

declare slots_loop.simps [simp del]

definition process_slots :: "digest \<Rightarrow> state \<Rightarrow> slot \<Rightarrow> state result" where
  "process_slots H s target_slot =
     (if st_slot s \<ge> target_slot then Inl (SpecRejectionError BLOCK_SLOT_NOT_IN_FUTURE)
      else slots_loop H s target_slot)"

section \<open>The block header\<close>

definition process_block_header :: "digest \<Rightarrow> state \<Rightarrow> block \<Rightarrow> state result" where
  "process_block_header H s b =
     (let parent_header = st_latest_block_header s in
      rbind (header_root H parent_header) (\<lambda>parent_root.
      if b_slot b \<noteq> st_slot s then Inl (SpecRejectionError BLOCK_SLOT_MISMATCH)
      else if b_slot b \<le> bh_slot parent_header then Inl (SpecRejectionError BLOCK_OLDER_THAN_LATEST_HEADER)
      else rbind (proposer_for_slot (st_slot s) (length (st_validators s))) (\<lambda>proposer.
      if b_proposer_index b \<noteq> proposer then Inl (SpecRejectionError WRONG_PROPOSER)
      else if b_parent_root b \<noteq> parent_root then Inl (SpecRejectionError PARENT_ROOT_MISMATCH)
      else
        let genesis_parent = (bh_slot parent_header = 0);
            anchor = \<lparr>cp_root = parent_root, cp_slot = 0\<rparr>;
            new_latest_justified = (if genesis_parent then anchor else st_latest_justified s);
            new_latest_finalized = (if genesis_parent then anchor else st_latest_finalized s);
            num_empty_slots = b_slot b - bh_slot parent_header - 1
        in rbind (limited HISTORICAL_ROOTS_LIMIT
                   (st_historical_block_hashes s @ [parent_root] @ replicate num_empty_slots ZERO_HASH)) (\<lambda>hashes.
           rbind (extend_to_slot (st_justified_slots s) (cp_slot new_latest_finalized) (b_slot b - 1)) (\<lambda>justified_slots.
           rbind (body_root H (b_body b)) (\<lambda>body.
             Inr (s\<lparr>st_latest_justified := new_latest_justified, st_latest_finalized := new_latest_finalized,
                    st_historical_block_hashes := hashes, st_justified_slots := justified_slots,
                    st_latest_block_header := \<lparr>bh_slot = b_slot b, bh_proposer_index = b_proposer_index b,
                      bh_parent_root = b_parent_root b, bh_state_root = ZERO_HASH, bh_body_root = body\<rparr>\<rparr>)))))))"

section \<open>Attestations\<close>

text \<open>The local variables of \<^verbatim>\<open>process_attestations\<close> that its loop updates.\<close>

record tally =
  ta_latest_justified :: checkpoint
  ta_latest_finalized :: checkpoint
  ta_finalized_slot :: slot
  ta_justified_slots :: "bool list"
  ta_justifications :: "(root, bool list) dict"

definition unpack_justifications :: "state \<Rightarrow> (root, bool list) dict result" where
  "unpack_justifications s =
     rbind (require (ZERO_HASH \<notin> set (st_justifications_roots s)) AssertionError) (\<lambda>_.
       let validator_count = length (st_validators s)
       in if validator_count = 0 then Inl ValueError
          else let segments = batched validator_count (st_justifications_validators s)
               in if length (st_justifications_roots s) \<noteq> length segments then Inl ValueError
                  else Inr (dict_of (zip (st_justifications_roots s) segments)))"

definition root_to_slot :: "root list \<Rightarrow> slot \<Rightarrow> (root, slot) dict" where
  "root_to_slot hashes finalized_slot =
     (let start_slot = finalized_slot + 1
      in dict_of (map (\<lambda>(i, r). (r, i)) (enumerate start_slot (drop start_slot hashes))))"

fun mark_votes :: "bool list \<Rightarrow> nat list \<Rightarrow> bool list result" where
  "mark_votes votes [] = Inr votes"
| "mark_votes votes (i # is) = (if i < length votes then mark_votes (votes[i := True]) is else Inl IndexError)"

text \<open>\<^verbatim>\<open>any(Slot(slot).is_justifiable_after(finalized_slot) for slot in ...)\<close>\<close>

fun any_justifiable :: "slot \<Rightarrow> slot list \<Rightarrow> bool result" where
  "any_justifiable finalized_slot [] = Inr False"
| "any_justifiable finalized_slot (s # ss) =
     rbind (is_justifiable_after s finalized_slot) (\<lambda>j. if j then Inr True else any_justifiable finalized_slot ss)"

text \<open>Moving the finalized boundary to the source and rebasing the tracking onto it.\<close>

definition finalize_source :: "(root, slot) dict \<Rightarrow> checkpoint \<Rightarrow> tally \<Rightarrow> tally result" where
  "finalize_source slots source t =
     (let finalized_slot = cp_slot source;
          delta = finalized_slot - ta_finalized_slot t;
          t1 = t\<lparr>ta_latest_finalized := source, ta_finalized_slot := finalized_slot\<rparr>
      in if delta > 0 then
           rbind (limited HISTORICAL_ROOTS_LIMIT (drop delta (ta_justified_slots t))) (\<lambda>bits.
           rbind (require (list_all (\<lambda>r. dget slots r \<noteq> None) (dkeys (ta_justifications t))) AssertionError) (\<lambda>_.
             Inr (t1\<lparr>ta_justified_slots := bits,
                     ta_justifications := dfilter (\<lambda>r. case dget slots r of Some i \<Rightarrow> i > finalized_slot | None \<Rightarrow> False)
                       (ta_justifications t)\<rparr>)))
         else Inr t1)"

text \<open>The branch taken once two thirds of the validators voted for the target.\<close>

definition justify_target :: "(root, slot) dict \<Rightarrow> checkpoint \<Rightarrow> checkpoint \<Rightarrow> tally \<Rightarrow> tally result" where
  "justify_target slots source target t =
     (let latest_justified = (if cp_slot target > cp_slot (ta_latest_justified t) then target else ta_latest_justified t)
      in case justified_index_after (cp_slot target) (ta_finalized_slot t) of
           None \<Rightarrow> Inl AssertionError
         | Some justified_index \<Rightarrow>
             if \<not> justified_index < length (ta_justified_slots t) then Inl IndexError
             else rbind (limited HISTORICAL_ROOTS_LIMIT ((ta_justified_slots t)[justified_index := True])) (\<lambda>bits.
               let t1 = t\<lparr>ta_latest_justified := latest_justified, ta_justified_slots := bits,
                          ta_justifications := ddel (ta_justifications t) (cp_root target)\<rparr>
               in if cp_slot source > ta_finalized_slot t then
                    rbind (any_justifiable (ta_finalized_slot t) [cp_slot source + 1..<cp_slot target]) (\<lambda>blocked.
                      if blocked then Inr t1 else finalize_source slots source t1)
                  else Inr t1))"

definition count_votes :: "bool list \<Rightarrow> nat" where
  "count_votes votes = length (filter (\<lambda>v. v) votes)"

text \<open>The filters of the loop body: \<open>False\<close> is \<^verbatim>\<open>continue\<close>.\<close>

definition vote_counts :: "root list \<Rightarrow> tally \<Rightarrow> attestation_data \<Rightarrow> bool result" where
  "vote_counts hashes t d =
     rbind (is_slot_justified (ta_justified_slots t) (ta_finalized_slot t) (cp_slot (ad_source d))) (\<lambda>source_justified.
     if \<not> source_justified then Inr False
     else rbind (is_slot_justified (ta_justified_slots t) (ta_finalized_slot t) (cp_slot (ad_target d))) (\<lambda>target_justified.
     if target_justified then Inr False
     else if \<not> lies_on_chain d hashes then Inr False
     else if cp_slot (ad_target d) \<le> cp_slot (ad_source d) then Inr False
     else is_justifiable_after (cp_slot (ad_target d)) (ta_finalized_slot t)))"

definition apply_votes :: "nat \<Rightarrow> (root, slot) dict \<Rightarrow> aggregated_attestation \<Rightarrow> tally \<Rightarrow> tally result" where
  "apply_votes validator_count slots a t =
     (let source = ad_source (aa_data a); target = ad_target (aa_data a) in
      rbind (to_validator_indices (aa_aggregation_bits a)) (\<lambda>voters.
      if \<not> list_all (\<lambda>i. is_within_registry i validator_count) voters
      then Inl (SpecRejectionError VALIDATOR_INDEX_OUT_OF_RANGE)
      else
        let justifications = (if dget (ta_justifications t) (cp_root target) = None
              then dput (ta_justifications t) (cp_root target) (replicate validator_count False)
              else ta_justifications t)
        in rbind (dlookup justifications (cp_root target)) (\<lambda>votes.
           rbind (mark_votes votes voters) (\<lambda>votes'.
             let t1 = t\<lparr>ta_justifications := dput justifications (cp_root target) votes'\<rparr>;
                 count = count_votes votes'
             in if 3 * count \<ge> 2 * validator_count then justify_target slots source target t1 else Inr t1))))"

definition process_attestation ::
    "root list \<Rightarrow> nat \<Rightarrow> (root, slot) dict \<Rightarrow> aggregated_attestation \<Rightarrow> tally \<Rightarrow> tally result" where
  "process_attestation hashes validator_count slots a t =
     rbind (vote_counts hashes t (aa_data a)) (\<lambda>counts.
       if counts then apply_votes validator_count slots a t else Inr t)"

fun attestation_loop ::
    "root list \<Rightarrow> nat \<Rightarrow> (root, slot) dict \<Rightarrow> aggregated_attestation list \<Rightarrow> tally \<Rightarrow> tally result" where
  "attestation_loop hashes validator_count slots [] t = Inr t"
| "attestation_loop hashes validator_count slots (a # as) t =
     rbind (process_attestation hashes validator_count slots a t) (attestation_loop hashes validator_count slots as)"

definition process_attestations :: "state \<Rightarrow> aggregated_attestation list \<Rightarrow> state result" where
  "process_attestations s attestations =
     (if length (remdups (map aa_data attestations)) > MAX_ATTESTATIONS_DATA
      then Inl (SpecRejectionError TOO_MANY_ATTESTATION_DATA)
      else rbind (unpack_justifications s) (\<lambda>justifications.
        let t0 = \<lparr>ta_latest_justified = st_latest_justified s, ta_latest_finalized = st_latest_finalized s,
                  ta_finalized_slot = cp_slot (st_latest_finalized s), ta_justified_slots = st_justified_slots s,
                  ta_justifications = justifications\<rparr>;
            slots = root_to_slot (st_historical_block_hashes s) (cp_slot (st_latest_finalized s))
        in rbind (attestation_loop (st_historical_block_hashes s) (length (st_validators s)) slots attestations t0) (\<lambda>t.
           let sorted_roots = sort (dkeys (ta_justifications t)) in
           rbind (limited HISTORICAL_ROOTS_LIMIT sorted_roots) (\<lambda>roots.
           rbind (rmap (dlookup (ta_justifications t)) roots) (\<lambda>votes.
           rbind (limited (HISTORICAL_ROOTS_LIMIT * VALIDATOR_REGISTRY_LIMIT) (concat votes)) (\<lambda>flat_votes.
             Inr (s\<lparr>st_justifications_roots := roots, st_justifications_validators := flat_votes,
                    st_justified_slots := ta_justified_slots t, st_latest_justified := ta_latest_justified t,
                    st_latest_finalized := ta_latest_finalized t\<rparr>)))))))"

section \<open>Blocks\<close>

definition process_block :: "digest \<Rightarrow> state \<Rightarrow> block \<Rightarrow> state result" where
  "process_block H s b =
     rbind (process_block_header H s b) (\<lambda>s'. process_attestations s' (bb_attestations (b_body b)))"

definition state_transition :: "digest \<Rightarrow> state \<Rightarrow> block \<Rightarrow> state result" where
  "state_transition H s b =
     rbind (process_slots H s (b_slot b)) (\<lambda>advanced.
     rbind (process_block H advanced b) (\<lambda>new_state.
     rbind (state_root H new_state) (\<lambda>computed_state_root.
       if b_state_root b \<noteq> computed_state_root then Inl (SpecRejectionError STATE_ROOT_MISMATCH) else Inr new_state)))"

section \<open>Justifiable slots\<close>

lemma odd_square_iff: "(\<exists>m. 4 * d + 1 = m ^ 2 \<and> m mod 2 = 1) \<longleftrightarrow> (\<exists>k. d = k * (k + 1))" for d :: nat
proof
  assume "\<exists>m. 4 * d + 1 = m ^ 2 \<and> m mod 2 = 1"
  then obtain m where m: "4 * d + 1 = m ^ 2" "m mod 2 = 1" by blast
  obtain k where k: "m = 2 * k + 1" using m(2) by (metis div_mult_mod_eq mult.commute)
  with m(1) show "\<exists>k. d = k * (k + 1)" by (intro exI [of _ k]) (simp add: power2_eq_square algebra_simps)
next
  assume "\<exists>k. d = k * (k + 1)"
  then obtain k where "d = k * (k + 1)" by blast
  then show "\<exists>m. 4 * d + 1 = m ^ 2 \<and> m mod 2 = 1"
    by (intro exI [of _ "2 * k + 1"] conjI) (simp add: power2_eq_square algebra_simps, presburger)
qed

lemma isqrt_pronic:
  "isqrt (4 * d + 1) ^ 2 = 4 * d + 1 \<and> isqrt (4 * d + 1) mod 2 = 1 \<longleftrightarrow> (\<exists>k. d = k * (k + 1))"
  unfolding odd_square_iff [symmetric] by (metis isqrt_of_square power2_eq_square)

lemma justifiable_iff:
  "is_justifiable_after s f =
     (if s < f then Inl AssertionError
      else Inr (s - f \<le> 5 \<or> (\<exists>k. s - f = k ^ 2) \<or> (\<exists>k. s - f = k * (k + 1))))"
  using isqrt_pronic [of "s - f"] isqrt_square_iff [of "s - f"]
  by (auto simp: is_justifiable_after_def Let_def IMMEDIATE_JUSTIFICATION_WINDOW_def)

section \<open>The tally\<close>

definition tracked :: "root list \<Rightarrow> slot \<Rightarrow> root \<Rightarrow> bool" where
  "tracked hashes f r \<longleftrightarrow> r \<noteq> ZERO_HASH \<and> (\<exists>i. f < i \<and> i < length hashes \<and> hashes ! i = r)"

definition slot_justified :: "tally \<Rightarrow> slot \<Rightarrow> bool" where
  "slot_justified t s \<longleftrightarrow> is_slot_justified (ta_justified_slots t) (ta_finalized_slot t) s = Inr True"

definition tally_inv :: "root list \<Rightarrow> nat \<Rightarrow> tally \<Rightarrow> bool" where
  "tally_inv hashes n t \<longleftrightarrow>
     ta_finalized_slot t = cp_slot (ta_latest_finalized t) \<and>
     ta_finalized_slot t \<le> cp_slot (ta_latest_justified t) \<and>
     cp_slot (ta_latest_justified t) < length hashes \<and>
     cp_root (ta_latest_justified t) = hashes ! cp_slot (ta_latest_justified t) \<and>
     cp_root (ta_latest_finalized t) = hashes ! cp_slot (ta_latest_finalized t) \<and>
     length (ta_justified_slots t) = length hashes - 1 - ta_finalized_slot t \<and>
     slot_justified t (cp_slot (ta_latest_justified t)) \<and>
     dwf (ta_justifications t) \<and>
     (\<forall>r v. dget (ta_justifications t) r = Some v \<longrightarrow> tracked hashes (ta_finalized_slot t) r \<and> length v = n)"

text \<open>Progress: neither checkpoint moves back and no slot loses its justification.\<close>

definition tally_le :: "tally \<Rightarrow> tally \<Rightarrow> bool" where
  "tally_le t t' \<longleftrightarrow> ta_finalized_slot t \<le> ta_finalized_slot t' \<and>
     cp_slot (ta_latest_justified t) \<le> cp_slot (ta_latest_justified t') \<and>
     (\<forall>s. slot_justified t s \<longrightarrow> slot_justified t' s)"

definition slots_inv :: "root list \<Rightarrow> slot \<Rightarrow> (root, slot) dict \<Rightarrow> bool" where
  "slots_inv hashes f slots \<longleftrightarrow>
     (\<forall>r. tracked hashes f r \<longrightarrow> dget slots r \<noteq> None) \<and>
     (\<forall>r i. dget slots r = Some i \<longrightarrow> i < length hashes \<and> hashes ! i = r)"

lemma tally_le_refl [simp]: "tally_le t t"
  by (simp add: tally_le_def)

lemma tally_le_trans: "tally_le a b \<Longrightarrow> tally_le b c \<Longrightarrow> tally_le a c"
  by (auto simp: tally_le_def)

lemma slot_justified_iff:
  "slot_justified t s \<longleftrightarrow> s \<le> ta_finalized_slot t \<or>
     (s - ta_finalized_slot t - 1 < length (ta_justified_slots t) \<and> ta_justified_slots t ! (s - ta_finalized_slot t - 1))"
  by (auto simp: slot_justified_def is_slot_justified_def justified_index_after_def)

lemma tracked_mono: "tracked hashes f r \<Longrightarrow> f' \<le> f \<Longrightarrow> tracked hashes f' r"
  unfolding tracked_def using le_less_trans by blast

lemma root_to_slot_mem:
  "(r, i) \<in> set (map (\<lambda>(i, r). (r, i)) (enumerate (f + 1) (drop (f + 1) hashes))) \<longleftrightarrow>
     f < i \<and> i < length hashes \<and> hashes ! i = r"
proof -
  have "(r, i) \<in> set (map (\<lambda>(i, r). (r, i)) xs) \<longleftrightarrow> (i, r) \<in> set xs" for xs
    by (induction xs) auto
  then show ?thesis by (auto simp: in_set_enumerate_eq)
qed

lemma dict_of_sound: "dget (dict_of kvs) k = Some v \<Longrightarrow> (k, v) \<in> set kvs"
  using dget_in_set [of "rev kvs" k v] by (simp add: dget_dict_of)

lemma dict_of_complete: "(k, v) \<in> set kvs \<Longrightarrow> dget (dict_of kvs) k \<noteq> None"
  unfolding dget_dict_of by (auto simp: dget_def map_of_eq_None_iff rev_image_eqI)

lemma root_to_slot_inv: "slots_inv hashes f (root_to_slot hashes f)"
  unfolding slots_inv_def
proof (intro conjI allI impI)
  fix r
  assume "tracked hashes f r"
  then obtain i where "f < i" "i < length hashes" "hashes ! i = r" by (auto simp: tracked_def)
  then have "(r, i) \<in> set (map (\<lambda>(i, r). (r, i)) (enumerate (f + 1) (drop (f + 1) hashes)))"
    by (simp only: root_to_slot_mem)
  then show "dget (root_to_slot hashes f) r \<noteq> None"
    unfolding root_to_slot_def Let_def by (rule dict_of_complete)
next
  fix r i
  assume "dget (root_to_slot hashes f) r = Some i"
  then have "(r, i) \<in> set (map (\<lambda>(i, r). (r, i)) (enumerate (f + 1) (drop (f + 1) hashes)))"
    unfolding root_to_slot_def Let_def by (rule dict_of_sound)
  then show "i < length hashes" and "hashes ! i = r" by (simp_all only: root_to_slot_mem)
qed

lemma limited_ok [simp]: "length xs \<le> lim \<Longrightarrow> limited lim xs = Inr xs"
  by (simp add: limited_def)

lemma slot_justified_le: "s \<le> ta_finalized_slot t \<Longrightarrow> slot_justified t s"
  by (simp add: slot_justified_iff)

lemma slot_not_justified: "\<not> slot_justified t s \<Longrightarrow> ta_finalized_slot t < s"
  using slot_justified_le [of s t] by (cases "s \<le> ta_finalized_slot t") simp_all

lemma slot_justified_drop:
  assumes "slot_justified t s" and "ta_finalized_slot t \<le> f"
  shows "slot_justified (t\<lparr>ta_latest_finalized := c, ta_finalized_slot := f,
    ta_justified_slots := drop (f - ta_finalized_slot t) (ta_justified_slots t), ta_justifications := js\<rparr>) s"
proof (cases "s \<le> f")
  case False
  then have "f - ta_finalized_slot t + (s - f - 1) = s - ta_finalized_slot t - 1" using assms(2) by linarith
  with assms False show ?thesis by (auto simp: slot_justified_iff)
qed (simp add: slot_justified_le)

lemma finalize_source_ok:
  assumes inv: "tally_inv hashes n t" and slots: "slots_inv hashes f slots" "f \<le> ta_finalized_slot t"
    and src: "ta_finalized_slot t < cp_slot source" "cp_slot source \<le> cp_slot (ta_latest_justified t)"
      "cp_root source = hashes ! cp_slot source"
    and lim: "length hashes \<le> HISTORICAL_ROOTS_LIMIT"
  shows "outcome is_rejection (\<lambda>t'. tally_inv hashes n t' \<and> tally_le t t') (finalize_source slots source t)"
proof -
  let ?t = "t\<lparr>ta_latest_finalized := source, ta_finalized_slot := cp_slot source,
    ta_justified_slots := drop (cp_slot source - ta_finalized_slot t) (ta_justified_slots t),
    ta_justifications := dfilter (\<lambda>r. case dget slots r of Some i \<Rightarrow> i > cp_slot source | None \<Rightarrow> False) (ta_justifications t)\<rparr>"
  have tr: "dget slots r \<noteq> None" if "dget (ta_justifications t) r \<noteq> None" for r
    using that inv slots tracked_mono [of hashes "ta_finalized_slot t" r f] by (auto simp: tally_inv_def slots_inv_def)
  have "list_all (\<lambda>r. dget slots r \<noteq> None) (dkeys (ta_justifications t))"
    using tr by (simp add: list_all_iff dict.set_keys)
  moreover have "length (drop (cp_slot source - ta_finalized_slot t) (ta_justified_slots t)) \<le> HISTORICAL_ROOTS_LIMIT"
    using inv lim by (simp add: tally_inv_def)
  ultimately have run: "finalize_source slots source t = Inr ?t"
    using src(1) by (simp add: finalize_source_def Let_def)
  have just: "slot_justified ?t s" if "slot_justified t s" for s
    using slot_justified_drop [OF that] src(1) by simp
  have "tracked hashes (cp_slot source) r \<and> length v = n" if "dget (ta_justifications ?t) r = Some v" for r v
  proof -
    from that obtain i where "dget slots r = Some i" "cp_slot source < i" and v: "dget (ta_justifications t) r = Some v"
      by (auto simp: dict.get_restrict split: option.splits if_splits)
    then show ?thesis using inv slots(1) by (auto simp: tally_inv_def slots_inv_def tracked_def)
  qed
  then have "tally_inv hashes n ?t"
    using inv src just [of "cp_slot (ta_latest_justified t)"] by (auto simp: tally_inv_def dict.wf_restrict)
  then show ?thesis using src just by (simp add: run tally_le_def)
qed

lemma any_justifiable_total:
  "list_all (\<lambda>s. f \<le> s) ss \<Longrightarrow> \<exists>b. any_justifiable f ss = Inr b"
  by (induction ss) (auto simp: justifiable_iff)

text \<open>What a vote that passes the filters satisfies.\<close>

definition valid_vote :: "root list \<Rightarrow> tally \<Rightarrow> checkpoint \<Rightarrow> checkpoint \<Rightarrow> bool" where
  "valid_vote hashes t source target \<longleftrightarrow>
     slot_justified t (cp_slot source) \<and> \<not> slot_justified t (cp_slot target) \<and>
     ta_finalized_slot t < cp_slot target \<and> cp_slot source < cp_slot target \<and> cp_slot target < length hashes \<and>
     cp_root source = hashes ! cp_slot source \<and> cp_root target = hashes ! cp_slot target \<and>
     cp_root source \<noteq> ZERO_HASH \<and> cp_root target \<noteq> ZERO_HASH \<and>
     is_justifiable_after (cp_slot target) (ta_finalized_slot t) = Inr True"

definition mark_justified :: "checkpoint \<Rightarrow> tally \<Rightarrow> tally" where
  "mark_justified target t = t\<lparr>
     ta_latest_justified := (if cp_slot target > cp_slot (ta_latest_justified t) then target else ta_latest_justified t),
     ta_justified_slots := (ta_justified_slots t)[cp_slot target - ta_finalized_slot t - 1 := True],
     ta_justifications := ddel (ta_justifications t) (cp_root target)\<rparr>"

lemma mark_justified_slots:
  assumes "ta_finalized_slot t < cp_slot target" and "cp_slot target - ta_finalized_slot t - 1 < length (ta_justified_slots t)"
  shows "slot_justified (mark_justified target t) s \<longleftrightarrow> s = cp_slot target \<or> slot_justified t s"
  using assms by (auto simp: slot_justified_iff mark_justified_def nth_list_update)

lemma mark_justified_ok:
  assumes "tally_inv hashes n t" and "ta_finalized_slot t < cp_slot target" and "cp_slot target < length hashes"
    and "cp_root target = hashes ! cp_slot target"
  shows "tally_inv hashes n (mark_justified target t)" and "tally_le t (mark_justified target t)"
    and "cp_slot target \<le> cp_slot (ta_latest_justified (mark_justified target t))"
    and "slot_justified (mark_justified target t) (cp_slot target)"
proof -
  have idx: "cp_slot target - ta_finalized_slot t - 1 < length (ta_justified_slots t)"
    using assms by (auto simp: tally_inv_def)
  note just = mark_justified_slots [OF assms(2) idx]
  have "dwf (ta_justifications (mark_justified target t))"
    using assms(1) by (simp add: mark_justified_def tally_inv_def dict.wf_del)
  moreover have "slot_justified (mark_justified target t) (cp_slot (ta_latest_justified (mark_justified target t)))"
    using assms(1) unfolding just by (simp add: mark_justified_def tally_inv_def)
  ultimately show "tally_inv hashes n (mark_justified target t)"
    using assms by (auto simp: tally_inv_def mark_justified_def dict.get_del split: if_splits)
  show "tally_le t (mark_justified target t)"
    unfolding tally_le_def just by (simp add: mark_justified_def)
  show "slot_justified (mark_justified target t) (cp_slot target)" unfolding just by simp
qed (simp add: mark_justified_def)

lemma justify_target_eq:
  assumes "ta_finalized_slot t < cp_slot target" and "cp_slot target - ta_finalized_slot t - 1 < length (ta_justified_slots t)"
    and "length (ta_justified_slots t) \<le> HISTORICAL_ROOTS_LIMIT"
  shows "justify_target slots source target t =
    (if cp_slot source > ta_finalized_slot t then
       rbind (any_justifiable (ta_finalized_slot t) [cp_slot source + 1..<cp_slot target]) (\<lambda>blocked.
         if blocked then Inr (mark_justified target t) else finalize_source slots source (mark_justified target t))
     else Inr (mark_justified target t))"
  unfolding justify_target_def justified_index_after_def mark_justified_def Let_def using assms by (simp cong: if_cong)

lemma justify_target_ok:
  assumes inv: "tally_inv hashes n t" and slots: "slots_inv hashes f slots" "f \<le> ta_finalized_slot t"
    and lim: "length hashes \<le> HISTORICAL_ROOTS_LIMIT" and vote: "valid_vote hashes t source target"
  shows "outcome is_rejection (\<lambda>t'. tally_inv hashes n t' \<and> tally_le t t' \<and> slot_justified t' (cp_slot target))
    (justify_target slots source target t)"
proof -
  let ?t = "mark_justified target t"
  have tgt: "ta_finalized_slot t < cp_slot target" "cp_slot target < length hashes" "cp_root target = hashes ! cp_slot target"
    and src: "cp_slot source < cp_slot target" "cp_root source = hashes ! cp_slot source"
    using vote by (simp_all add: valid_vote_def)
  note m = mark_justified_ok [OF inv tgt]
  have len: "cp_slot target - ta_finalized_slot t - 1 < length (ta_justified_slots t)"
    "length (ta_justified_slots t) \<le> HISTORICAL_ROOTS_LIMIT"
    using inv tgt lim by (auto simp: tally_inv_def)
  have fin: "ta_finalized_slot ?t = ta_finalized_slot t" by (simp add: mark_justified_def)
  have step: "outcome is_rejection (\<lambda>t'. tally_inv hashes n t' \<and> tally_le t t' \<and> slot_justified t' (cp_slot target))
      (finalize_source slots source ?t)" if "ta_finalized_slot t < cp_slot source"
  proof (rule outcome_mono [OF finalize_source_ok [OF m(1) slots(1)]])
    show "f \<le> ta_finalized_slot ?t" "ta_finalized_slot ?t < cp_slot source" using slots that fin by simp_all
    show "cp_slot source \<le> cp_slot (ta_latest_justified ?t)" using m(3) src by simp
    show "tally_inv hashes n x \<and> tally_le t x \<and> slot_justified x (cp_slot target)"
      if "tally_inv hashes n x \<and> tally_le ?t x" for x
      using that m(2,4) tally_le_trans [of t ?t x] by (auto simp: tally_le_def)
  qed (use src lim in simp_all)
  obtain b where "any_justifiable (ta_finalized_slot t) [cp_slot source + 1..<cp_slot target] = Inr b"
    if "ta_finalized_slot t < cp_slot source"
    using any_justifiable_total [of "ta_finalized_slot t" "[cp_slot source + 1..<cp_slot target]"]
    by (cases "ta_finalized_slot t < cp_slot source") (auto simp: list_all_iff)
  then show ?thesis
    unfolding justify_target_eq [OF tgt(1) len] using step m by auto
qed

lemma mark_votes_total:
  "list_all (\<lambda>i. i < length votes) is \<Longrightarrow> \<exists>votes'. mark_votes votes is = Inr votes' \<and> length votes' = length votes"
proof (induction "is" arbitrary: votes)
  case (Cons i "is")
  then show ?case using Cons.IH [of "votes[i := True]"] by auto
qed simp

lemma vote_counts_ok:
  assumes "tally_inv hashes n t"
  shows "outcome is_rejection (\<lambda>c. c \<longrightarrow> valid_vote hashes t (ad_source d) (ad_target d)) (vote_counts hashes t d)"
proof -
  have j: "outcome is_rejection (\<lambda>b. b = slot_justified t s) (is_slot_justified (ta_justified_slots t) (ta_finalized_slot t) s)" for s
    by (auto simp: slot_justified_def is_slot_justified_def split: option.split)
  have chain: "outcome is_rejection (\<lambda>c. c \<longrightarrow> valid_vote hashes t (ad_source d) (ad_target d))
      (if tj then Inr False else if \<not> lies_on_chain d hashes then Inr False
       else if cp_slot (ad_target d) \<le> cp_slot (ad_source d) then Inr False
       else is_justifiable_after (cp_slot (ad_target d)) (ta_finalized_slot t))"
    if "slot_justified t (cp_slot (ad_source d))" "tj = slot_justified t (cp_slot (ad_target d))" for tj
    using that slot_not_justified [of t "cp_slot (ad_target d)"]
    by (auto simp: valid_vote_def lies_on_chain_def Let_def justifiable_iff split: if_splits)
  show ?thesis
    unfolding vote_counts_def
  proof (rule outcome_bind [OF j])
    fix sj
    assume sj: "sj = slot_justified t (cp_slot (ad_source d))"
    show "outcome is_rejection (\<lambda>c. c \<longrightarrow> valid_vote hashes t (ad_source d) (ad_target d))
      (if \<not> sj then Inr False else rbind (is_slot_justified (ta_justified_slots t) (ta_finalized_slot t) (cp_slot (ad_target d)))
        (\<lambda>tj. if tj then Inr False else if \<not> lies_on_chain d hashes then Inr False
          else if cp_slot (ad_target d) \<le> cp_slot (ad_source d) then Inr False
          else is_justifiable_after (cp_slot (ad_target d)) (ta_finalized_slot t)))"
      using sj by (cases sj) (simp_all only: if_True if_False not_True_eq_False not_False_eq_True outcome_simps simp_thms
          outcome_bind [OF j chain])
  qed
qed

lemma to_validator_indices_ok:
  "length bits \<le> VALIDATOR_REGISTRY_LIMIT \<Longrightarrow> outcome is_rejection (\<lambda>_. True) (to_validator_indices bits)"
proof -
  have "length (set_indices bits) \<le> length bits"
    unfolding set_indices_def length_map using length_filter_le [of snd "enumerate 0 bits"] by simp
  then show "length bits \<le> VALIDATOR_REGISTRY_LIMIT \<Longrightarrow> outcome is_rejection (\<lambda>_. True) (to_validator_indices bits)"
    by (simp add: to_validator_indices_def Let_def)
qed

text \<open>The tally with the target's votes stored.\<close>

lemma tally_tracked:
  "tally_inv hashes n t \<Longrightarrow> dget (ta_justifications t) r = Some v \<Longrightarrow> tracked hashes (ta_finalized_slot t) r \<and> length v = n"
  unfolding tally_inv_def by blast

lemma store_votes_ok:
  assumes "tally_inv hashes n t" and "tracked hashes (ta_finalized_slot t) r" and "length v = n"
  shows "tally_inv hashes n (t\<lparr>ta_justifications := dput (ta_justifications t) r v\<rparr>)"
proof -
  let ?t = "t\<lparr>ta_justifications := dput (ta_justifications t) r v\<rparr>"
  have "tracked hashes (ta_finalized_slot t) r' \<and> length v' = n" if "dget (ta_justifications ?t) r' = Some v'" for r' v'
    using that assms(2,3) tally_tracked [OF assms(1), of r' v'] by (cases "r' = r") (simp_all add: dict.get_put)
  moreover have "slot_justified ?t s = slot_justified t s" for s by (simp add: slot_justified_iff)
  ultimately show ?thesis using assms(1) by (simp add: tally_inv_def dict.wf_put)
qed

lemma store_votes_le: "tally_le t (t\<lparr>ta_justifications := d\<rparr>)"
  by (simp add: tally_le_def slot_justified_iff)

lemma store_votes_valid: "valid_vote hashes (t\<lparr>ta_justifications := d\<rparr>) s r = valid_vote hashes t s r"
  by (simp add: valid_vote_def slot_justified_iff)

lemma dput_overwrite: "dput (dput d k v) k w = dput d k w"
  by (induction d) (auto simp: dput_def)

definition target_votes :: "nat \<Rightarrow> tally \<Rightarrow> root \<Rightarrow> bool list" where
  "target_votes n t r = (case dget (ta_justifications t) r of None \<Rightarrow> replicate n False | Some v \<Rightarrow> v)"

lemma apply_votes_eq:
  "apply_votes n slots a t =
     rbind (to_validator_indices (aa_aggregation_bits a)) (\<lambda>voters.
       if \<not> list_all (\<lambda>i. is_within_registry i n) voters then Inl (SpecRejectionError VALIDATOR_INDEX_OUT_OF_RANGE)
       else rbind (mark_votes (target_votes n t (cp_root (ad_target (aa_data a)))) voters) (\<lambda>w.
         let t1 = t\<lparr>ta_justifications := dput (ta_justifications t) (cp_root (ad_target (aa_data a))) w\<rparr>
         in if 3 * count_votes w \<ge> 2 * n then justify_target slots (ad_source (aa_data a)) (ad_target (aa_data a)) t1 else Inr t1))"
proof (cases "dget (ta_justifications t) (cp_root (ad_target (aa_data a)))")
  case None
  then show ?thesis unfolding apply_votes_def Let_def target_votes_def dlookup_def
    by (simp add: dict.get_put dput_overwrite cong: if_cong)
next
  case (Some v)
  then show ?thesis unfolding apply_votes_def Let_def target_votes_def dlookup_def by (simp cong: if_cong)
qed

lemma target_votes_length: "tally_inv hashes n t \<Longrightarrow> length (target_votes n t r) = n"
  by (auto simp: target_votes_def tally_inv_def split: option.split)

lemma apply_votes_ok:
  assumes inv: "tally_inv hashes n t" and slots: "slots_inv hashes f slots" "f \<le> ta_finalized_slot t"
    and lim: "length hashes \<le> HISTORICAL_ROOTS_LIMIT" and bits: "length (aa_aggregation_bits a) \<le> VALIDATOR_REGISTRY_LIMIT"
    and vote: "valid_vote hashes t (ad_source (aa_data a)) (ad_target (aa_data a))"
  shows "outcome is_rejection (\<lambda>t'. tally_inv hashes n t' \<and> tally_le t t') (apply_votes n slots a t)"
proof -
  let ?r = "cp_root (ad_target (aa_data a))"
  have tr: "tracked hashes (ta_finalized_slot t) ?r"
    using vote unfolding valid_vote_def tracked_def by metis
  have step: "outcome is_rejection (\<lambda>t'. tally_inv hashes n t' \<and> tally_le t t')
      (let t1 = t\<lparr>ta_justifications := dput (ta_justifications t) ?r w\<rparr>
       in if 3 * count_votes w \<ge> 2 * n then justify_target slots (ad_source (aa_data a)) (ad_target (aa_data a)) t1 else Inr t1)"
    if "length w = n" for w
  proof -
    let ?t = "t\<lparr>ta_justifications := dput (ta_justifications t) ?r w\<rparr>"
    have t1: "tally_inv hashes n ?t" by (rule store_votes_ok [OF inv tr that])
    have "outcome is_rejection (\<lambda>t'. tally_inv hashes n t' \<and> tally_le t t')
        (justify_target slots (ad_source (aa_data a)) (ad_target (aa_data a)) ?t)"
    proof (rule outcome_mono [OF justify_target_ok [OF t1 slots(1) _ lim]])
      show "tally_inv hashes n x \<and> tally_le t x"
        if "tally_inv hashes n x \<and> tally_le ?t x \<and> slot_justified x (cp_slot (ad_target (aa_data a)))" for x
        using that tally_le_trans [OF store_votes_le] by blast
    qed (use slots vote in \<open>simp_all add: store_votes_valid\<close>)
    then show ?thesis unfolding Let_def using t1 store_votes_le by simp
  qed
  show ?thesis
    unfolding apply_votes_eq
  proof (rule outcome_bind [OF to_validator_indices_ok [OF bits]])
    fix voters
    obtain w where "mark_votes (target_votes n t ?r) voters = Inr w" "length w = n" if "list_all (\<lambda>i. i < n) voters"
      using mark_votes_total [of "target_votes n t ?r" voters] target_votes_length [OF inv]
      by (cases "list_all (\<lambda>i. i < n) voters") auto
    then show "outcome is_rejection (\<lambda>t'. tally_inv hashes n t' \<and> tally_le t t')
        (if \<not> list_all (\<lambda>i. is_within_registry i n) voters then Inl (SpecRejectionError VALIDATOR_INDEX_OUT_OF_RANGE)
         else rbind (mark_votes (target_votes n t ?r) voters) (\<lambda>w.
           let t1 = t\<lparr>ta_justifications := dput (ta_justifications t) ?r w\<rparr>
           in if 3 * count_votes w \<ge> 2 * n then justify_target slots (ad_source (aa_data a)) (ad_target (aa_data a)) t1 else Inr t1))"
      using step [of w] by (simp add: is_within_registry_def)
  qed
qed

lemma process_attestation_ok:
  assumes "tally_inv hashes n t" and "slots_inv hashes f slots" and "f \<le> ta_finalized_slot t"
    and "length hashes \<le> HISTORICAL_ROOTS_LIMIT" and "attestation_ok a"
  shows "outcome is_rejection (\<lambda>t'. tally_inv hashes n t' \<and> tally_le t t') (process_attestation hashes n slots a t)"
  unfolding process_attestation_def
proof (rule outcome_bind [OF vote_counts_ok [OF assms(1)]])
  fix c
  assume c: "c \<longrightarrow> valid_vote hashes t (ad_source (aa_data a)) (ad_target (aa_data a))"
  have bits: "length (aa_aggregation_bits a) \<le> VALIDATOR_REGISTRY_LIMIT" using assms(5) by (simp add: attestation_ok_def)
  show "outcome is_rejection (\<lambda>t'. tally_inv hashes n t' \<and> tally_le t t') (if c then apply_votes n slots a t else Inr t)"
    using apply_votes_ok [OF assms(1-4) bits] c assms(1) by (cases c) simp_all
qed

lemma attestation_loop_ok:
  assumes "slots_inv hashes f slots" and "length hashes \<le> HISTORICAL_ROOTS_LIMIT"
  shows "tally_inv hashes n t \<Longrightarrow> f \<le> ta_finalized_slot t \<Longrightarrow> list_all attestation_ok as \<Longrightarrow>
    outcome is_rejection (\<lambda>t'. tally_inv hashes n t' \<and> tally_le t t') (attestation_loop hashes n slots as t)"
proof (induction "as" arbitrary: t)
  case (Cons a "as")
  have a: "attestation_ok a" "list_all attestation_ok as" using Cons.prems(3) by simp_all
  show ?case
    unfolding attestation_loop.simps
  proof (rule outcome_bind [OF process_attestation_ok [OF Cons.prems(1) assms(1) Cons.prems(2) assms(2) a(1)]])
    fix x
    assume x: "tally_inv hashes n x \<and> tally_le t x"
    then have "f \<le> ta_finalized_slot x" using Cons.prems(2) by (simp add: tally_le_def)
    with Cons.IH [of x] x a(2)
    have "outcome is_rejection (\<lambda>t'. tally_inv hashes n t' \<and> tally_le x t') (attestation_loop hashes n slots as x)"
      by simp
    then show "outcome is_rejection (\<lambda>t'. tally_inv hashes n t' \<and> tally_le t t') (attestation_loop hashes n slots as x)"
      by (rule outcome_mono) (use x tally_le_trans in blast)+
  qed
qed simp

section \<open>The state invariant\<close>

definition tally_of :: "state \<Rightarrow> (root, bool list) dict \<Rightarrow> tally" where
  "tally_of s d = \<lparr>ta_latest_justified = st_latest_justified s, ta_latest_finalized = st_latest_finalized s,
     ta_finalized_slot = cp_slot (st_latest_finalized s), ta_justified_slots = st_justified_slots s, ta_justifications = d\<rparr>"

definition stored_votes :: "state \<Rightarrow> (root, bool list) dict" where
  "stored_votes s = zip (st_justifications_roots s) (batched (length (st_validators s)) (st_justifications_validators s))"

definition votes_inv :: "state \<Rightarrow> bool" where
  "votes_inv s \<longleftrightarrow> st_validators s \<noteq> [] \<and> distinct (st_justifications_roots s) \<and>
     length (st_justifications_validators s) = length (st_justifications_roots s) * length (st_validators s) \<and>
     tally_inv (st_historical_block_hashes s) (length (st_validators s)) (tally_of s (stored_votes s))"

definition chain_inv :: "state \<Rightarrow> bool" where
  "chain_inv s \<longleftrightarrow> state_ok s \<and> bh_slot (st_latest_block_header s) \<le> st_slot s \<and>
     length (st_historical_block_hashes s) = bh_slot (st_latest_block_header s) \<and>
     (if st_historical_block_hashes s = []
      then st_latest_justified s = ZERO_CHECKPOINT \<and> st_latest_finalized s = ZERO_CHECKPOINT \<and>
           st_justified_slots s = [] \<and> st_justifications_roots s = [] \<and> st_justifications_validators s = []
      else votes_inv s)"

definition state_justified :: "state \<Rightarrow> slot \<Rightarrow> bool" where
  "state_justified s i \<longleftrightarrow> is_slot_justified (st_justified_slots s) (cp_slot (st_latest_finalized s)) i = Inr True"

text \<open>Progress of the chain: no checkpoint moves back, no slot loses its justification and the history only grows.\<close>

definition chain_le :: "state \<Rightarrow> state \<Rightarrow> bool" where
  "chain_le s s' \<longleftrightarrow> cp_slot (st_latest_finalized s) \<le> cp_slot (st_latest_finalized s') \<and>
     cp_slot (st_latest_justified s) \<le> cp_slot (st_latest_justified s') \<and>
     (\<forall>i. state_justified s i \<longrightarrow> state_justified s' i) \<and>
     (\<exists>ext. st_historical_block_hashes s' = st_historical_block_hashes s @ ext) \<and>
     st_validators s' = st_validators s \<and> st_config s' = st_config s"

lemma slot_justified_tally_of [simp]: "slot_justified (tally_of s d) i = state_justified s i"
  by (simp add: slot_justified_def state_justified_def tally_of_def)

lemma stored_votes_unpacked:
  assumes "votes_inv s"
  shows "unpack_justifications s = Inr (stored_votes s)"
proof -
  let ?n = "length (st_validators s)"
  have n: "0 < ?n" and dist: "distinct (st_justifications_roots s)"
    and len: "length (st_justifications_validators s) = length (st_justifications_roots s) * ?n"
    and inv: "tally_inv (st_historical_block_hashes s) ?n (tally_of s (stored_votes s))"
    using assms by (auto simp: votes_inv_def)
  have b: "length (batched ?n (st_justifications_validators s)) = length (st_justifications_roots s)"
    by (rule batched_uniform(1) [OF n len])
  then have keys: "map fst (stored_votes s) = st_justifications_roots s" by (simp add: stored_votes_def)
  have "r \<noteq> ZERO_HASH" if "r \<in> set (st_justifications_roots s)" for r
  proof -
    from that keys have "dget (stored_votes s) r \<noteq> None" by (simp add: dget_def map_of_eq_None_iff flip: set_map)
    then show ?thesis using tally_tracked [OF inv, of r] by (auto simp: tally_of_def tracked_def)
  qed
  then have "ZERO_HASH \<notin> set (st_justifications_roots s)" by blast
  moreover have "dict_of (stored_votes s) = stored_votes s" by (rule dict_of_distinct) (simp add: keys dist)
  ultimately show ?thesis using n b by (simp add: unpack_justifications_def Let_def stored_votes_def)
qed

text \<open>Writing a tally back into the state.\<close>

definition repack :: "tally \<Rightarrow> state \<Rightarrow> state" where
  "repack t s = (let roots = sort (dkeys (ta_justifications t)) in
     s\<lparr>st_justifications_roots := roots,
       st_justifications_validators := concat (map (\<lambda>r. the (dget (ta_justifications t) r)) roots),
       st_justified_slots := ta_justified_slots t, st_latest_justified := ta_latest_justified t,
       st_latest_finalized := ta_latest_finalized t\<rparr>)"

lemma repack_sizes:
  assumes "tally_inv hashes n t"
  shows "length (sort (dkeys (ta_justifications t))) \<le> length hashes"
    and "distinct (sort (dkeys (ta_justifications t)))"
    and "\<forall>v \<in> set (map (\<lambda>r. the (dget (ta_justifications t) r)) (sort (dkeys (ta_justifications t)))). length v = n"
    and "\<forall>r \<in> set (sort (dkeys (ta_justifications t))). tracked hashes (ta_finalized_slot t) r"
proof -
  have d: "distinct (dkeys (ta_justifications t))" using assms by (simp add: tally_inv_def dict.distinct_keys)
  show tr: "\<forall>r \<in> set (sort (dkeys (ta_justifications t))). tracked hashes (ta_finalized_slot t) r"
    using tally_tracked [OF assms] by (auto simp: dict.set_keys)
  have "set (dkeys (ta_justifications t)) \<subseteq> set hashes"
    using tr by (auto simp: tracked_def)
  from card_mono [OF _ this] show "length (sort (dkeys (ta_justifications t))) \<le> length hashes"
    using d card_length [of hashes] by (simp add: distinct_card)
  show "distinct (sort (dkeys (ta_justifications t)))" using d by simp
  show "\<forall>v \<in> set (map (\<lambda>r. the (dget (ta_justifications t) r)) (sort (dkeys (ta_justifications t)))). length v = n"
    using tally_tracked [OF assms] by (auto simp: dict.set_keys)
qed

lemma repack_votes:
  assumes inv: "tally_inv (st_historical_block_hashes s) (length (st_validators s)) t" and n: "st_validators s \<noteq> []"
  shows "dget (stored_votes (repack t s)) = dget (ta_justifications t)" and "votes_inv (repack t s)"
proof -
  let ?n = "length (st_validators s)" and ?roots = "sort (dkeys (ta_justifications t))"
  let ?votes = "map (\<lambda>r. the (dget (ta_justifications t) r)) ?roots"
  note sz = repack_sizes [OF inv]
  have stored: "stored_votes (repack t s) = zip ?roots ?votes"
    using batched_concat [OF _ sz(3)] n by (simp add: stored_votes_def repack_def Let_def)
  show get: "dget (stored_votes (repack t s)) = dget (ta_justifications t)"
    using dict.set_keys [of "ta_justifications t"] by (intro ext) (auto simp: stored dget_def map_of_zip_map)
  have "dwf (stored_votes (repack t s))" using sz(2) by (simp add: stored dwf_def)
  then have "tally_inv (st_historical_block_hashes s) ?n (t\<lparr>ta_justifications := stored_votes (repack t s)\<rparr>)"
    using inv by (auto simp: tally_inv_def get slot_justified_iff)
  moreover have "tally_of (repack t s) (stored_votes (repack t s)) = t\<lparr>ta_justifications := stored_votes (repack t s)\<rparr>"
    using inv by (simp add: tally_of_def repack_def Let_def tally_inv_def)
  ultimately show "votes_inv (repack t s)"
    using length_concat_uniform [OF sz(3)] sz(2) n by (simp add: votes_inv_def repack_def Let_def)
qed

lemma repack_ok:
  assumes inv: "tally_inv (st_historical_block_hashes s) (length (st_validators s)) t" and ok: "state_ok s"
  shows "state_ok (repack t s)"
proof -
  let ?h = "st_historical_block_hashes s" and ?roots = "sort (dkeys (ta_justifications t))"
  note sz = repack_sizes [OF inv]
  have h: "length ?h \<le> HISTORICAL_ROOTS_LIMIT" "list_all (\<lambda>r. length r = 32) ?h"
    and n: "length (st_validators s) \<le> VALIDATOR_REGISTRY_LIMIT"
    using ok by (auto simp: state_ok_iff)
  have at: "length (?h ! i) = 32" if "i < length ?h" for i using h(2) that by (simp add: list_all_length)
  have "list_all (\<lambda>r. length r = 32) ?roots"
    using sz(4) at unfolding tracked_def list_all_iff by metis
  moreover have "checkpoint_ok (ta_latest_justified t)" "checkpoint_ok (ta_latest_finalized t)"
    using inv at h(1) by (auto simp: tally_inv_def checkpoint_ok_def HISTORICAL_ROOTS_LIMIT_def)
  moreover have "length (ta_justified_slots t) \<le> HISTORICAL_ROOTS_LIMIT" using inv h(1) by (simp add: tally_inv_def)
  moreover have "length (st_justifications_validators (repack t s)) \<le> HISTORICAL_ROOTS_LIMIT * VALIDATOR_REGISTRY_LIMIT"
  proof -
    have "length (st_justifications_validators (repack t s)) = length ?roots * length (st_validators s)"
      unfolding repack_def Let_def using length_concat_uniform [OF sz(3)] by simp
    then show ?thesis using mult_le_mono [of "length ?roots" HISTORICAL_ROOTS_LIMIT "length (st_validators s)"] sz(1) h(1) n
      by simp
  qed
  ultimately show ?thesis using ok sz(1) h(1) by (simp add: state_ok_iff repack_def Let_def)
qed

lemma rmap_dlookup: "set ks \<subseteq> set (dkeys d) \<Longrightarrow> rmap (dlookup d) ks = Inr (map (\<lambda>k. the (dget d k)) ks)"
  by (induction ks) (auto simp: dict.set_keys dlookup_def)

lemma process_attestations_eq:
  assumes "votes_inv s" and "state_ok s" and "length (remdups (map aa_data as)) \<le> MAX_ATTESTATIONS_DATA"
    and "attestation_loop (st_historical_block_hashes s) (length (st_validators s))
      (root_to_slot (st_historical_block_hashes s) (cp_slot (st_latest_finalized s))) as (tally_of s (stored_votes s)) = Inr t"
    and "tally_inv (st_historical_block_hashes s) (length (st_validators s)) t"
  shows "process_attestations s as = Inr (repack t s)"
proof -
  let ?roots = "sort (dkeys (ta_justifications t))"
  have ok: "state_ok (repack t s)" by (rule repack_ok [OF assms(5,2)])
  have "limited HISTORICAL_ROOTS_LIMIT ?roots = Inr ?roots"
    using ok by (intro limited_ok) (simp add: state_ok_iff repack_def Let_def)
  moreover have "rmap (dlookup (ta_justifications t)) ?roots = Inr (map (\<lambda>r. the (dget (ta_justifications t) r)) ?roots)"
    by (rule rmap_dlookup) simp
  moreover have "limited (HISTORICAL_ROOTS_LIMIT * VALIDATOR_REGISTRY_LIMIT) (concat (map (\<lambda>r. the (dget (ta_justifications t) r)) ?roots)) =
      Inr (concat (map (\<lambda>r. the (dget (ta_justifications t) r)) ?roots))"
    using ok by (intro limited_ok) (simp add: state_ok_iff repack_def Let_def)
  ultimately show ?thesis
    using assms(3,4) stored_votes_unpacked [OF assms(1)]
    by (simp add: process_attestations_def tally_of_def repack_def Let_def)
qed

lemma process_attestations_ok:
  assumes inv: "votes_inv s" and ok: "state_ok s" and atts: "list_all attestation_ok as"
  shows "outcome is_rejection (\<lambda>s'. votes_inv s' \<and> state_ok s' \<and> chain_le s s' \<and> st_slot s' = st_slot s \<and>
    st_latest_block_header s' = st_latest_block_header s \<and> st_historical_block_hashes s' = st_historical_block_hashes s)
    (process_attestations s as)"
proof (cases "length (remdups (map aa_data as)) > MAX_ATTESTATIONS_DATA")
  case False
  let ?h = "st_historical_block_hashes s" and ?n = "length (st_validators s)" and ?f = "cp_slot (st_latest_finalized s)"
  let ?t0 = "tally_of s (stored_votes s)"
  let ?run = "attestation_loop ?h ?n (root_to_slot ?h ?f) as ?t0"
  have t0: "tally_inv ?h ?n ?t0" and n: "st_validators s \<noteq> []" using inv by (simp_all add: votes_inv_def)
  have lim: "length ?h \<le> HISTORICAL_ROOTS_LIMIT" using ok by (simp add: state_ok_iff)
  have loop: "outcome is_rejection (\<lambda>t'. tally_inv ?h ?n t' \<and> tally_le ?t0 t') ?run"
    by (rule attestation_loop_ok [OF root_to_slot_inv lim t0 _ atts]) (simp add: tally_of_def)
  show ?thesis
  proof (cases ?run)
    case (Inl e)
    then show ?thesis
      using loop False stored_votes_unpacked [OF inv] by (simp add: process_attestations_def tally_of_def Let_def)
  next
    case (Inr t)
    with loop have t: "tally_inv ?h ?n t" "tally_le ?t0 t" by simp_all
    have run: "process_attestations s as = Inr (repack t s)"
      using process_attestations_eq [OF inv ok _ Inr t(1)] False by simp
    have "state_justified (repack t s) i = slot_justified t i" for i
      using t(1) by (simp add: slot_justified_def state_justified_def repack_def Let_def tally_inv_def)
    then have "chain_le s (repack t s)"
      using t(2) t(1) unfolding tally_le_def chain_le_def slot_justified_tally_of
      by (simp add: tally_of_def repack_def Let_def tally_inv_def)
    moreover have "st_slot (repack t s) = st_slot s" "st_latest_block_header (repack t s) = st_latest_block_header s"
      "st_historical_block_hashes (repack t s) = ?h" by (simp_all add: repack_def Let_def)
    ultimately show ?thesis using repack_votes(2) [OF t(1) n] repack_ok [OF t(1) ok] by (simp add: run)
  qed
qed (simp add: process_attestations_def)

section \<open>The header keeps the invariant\<close>

lemma extend_to_slot_eq:
  assumes "length js \<le> target - f" and "target - f \<le> HISTORICAL_ROOTS_LIMIT"
  shows "extend_to_slot js f target = Inr (js @ replicate (target - f - length js) False)"
  using assms by (auto simp: extend_to_slot_def justified_index_after_def Let_def Suc_diff_Suc)

lemma tracked_append: "tracked hashes f r \<Longrightarrow> tracked (hashes @ ext) f r"
  unfolding tracked_def by (metis length_append nth_append trans_less_add1)

lemma slot_justified_append:
  "slot_justified t s \<Longrightarrow> slot_justified (t\<lparr>ta_justified_slots := ta_justified_slots t @ ext\<rparr>) s"
  by (auto simp: slot_justified_iff nth_append)

lemma tally_inv_extend:
  assumes inv: "tally_inv hashes n t"
  shows "tally_inv (hashes @ ext) n (t\<lparr>ta_justified_slots := ta_justified_slots t @ replicate (length ext) False\<rparr>)"
    (is "tally_inv _ _ ?t")
proof -
  have "slot_justified ?t (cp_slot (ta_latest_justified t))"
    using inv slot_justified_append by (simp add: tally_inv_def)
  moreover have "tracked (hashes @ ext) (ta_finalized_slot t) r \<and> length v = n" if "dget (ta_justifications t) r = Some v" for r v
    using tally_tracked [OF inv that] tracked_append by blast
  ultimately show ?thesis using inv by (auto simp: tally_inv_def nth_append)
qed

lemma tally_inv_anchor:
  "tally_inv (r # rest) n \<lparr>ta_latest_justified = \<lparr>cp_root = r, cp_slot = 0\<rparr>, ta_latest_finalized = \<lparr>cp_root = r, cp_slot = 0\<rparr>,
     ta_finalized_slot = 0, ta_justified_slots = replicate (length rest) False, ta_justifications = []\<rparr>"
  by (simp add: tally_inv_def slot_justified_iff dwf_def)

text \<open>The state that an accepted header produces.\<close>

definition after_header :: "state \<Rightarrow> block \<Rightarrow> root \<Rightarrow> root \<Rightarrow> state" where
  "after_header s b parent_root body =
     (let genesis_parent = (bh_slot (st_latest_block_header s) = 0);
          anchor = \<lparr>cp_root = parent_root, cp_slot = 0\<rparr>;
          ext = [parent_root] @ replicate (b_slot b - bh_slot (st_latest_block_header s) - 1) ZERO_HASH
      in s\<lparr>st_latest_justified := (if genesis_parent then anchor else st_latest_justified s),
           st_latest_finalized := (if genesis_parent then anchor else st_latest_finalized s),
           st_historical_block_hashes := st_historical_block_hashes s @ ext,
           st_justified_slots := st_justified_slots s @
             replicate (if genesis_parent then b_slot b - 1 else length ext) False,
           st_latest_block_header := \<lparr>bh_slot = b_slot b, bh_proposer_index = b_proposer_index b,
             bh_parent_root = b_parent_root b, bh_state_root = ZERO_HASH, bh_body_root = body\<rparr>\<rparr>)"

lemma after_header_frame:
  "st_slot (after_header s b pr br) = st_slot s" "bh_slot (st_latest_block_header (after_header s b pr br)) = b_slot b"
  by (simp_all add: after_header_def Let_def)

lemma votes_inv_after_header:
  assumes inv: "chain_inv s" and slot: "bh_slot (st_latest_block_header s) < b_slot b" and n: "st_validators s \<noteq> []"
  shows "votes_inv (after_header s b pr br)"
proof (cases "st_historical_block_hashes s = []")
  case True
  then show ?thesis
    using inv n slot tally_inv_anchor [of pr "replicate (b_slot b - 1) ZERO_HASH"]
    by (simp add: chain_inv_def votes_inv_def after_header_def Let_def tally_of_def stored_votes_def)
next
  case False
  then have v: "votes_inv s" using inv by (simp add: chain_inv_def)
  have hdr: "bh_slot (st_latest_block_header s) \<noteq> 0" using inv False unfolding chain_inv_def by (metis length_0_conv)
  let ?ext = "[pr] @ replicate (b_slot b - bh_slot (st_latest_block_header s) - 1) ZERO_HASH"
  have "tally_of (after_header s b pr br) d = (tally_of s d)\<lparr>ta_justified_slots :=
      ta_justified_slots (tally_of s d) @ replicate (length ?ext) False\<rparr>" for d
    using hdr by (simp add: after_header_def tally_of_def Let_def)
  moreover have "st_historical_block_hashes (after_header s b pr br) = st_historical_block_hashes s @ ?ext"
    by (simp add: after_header_def Let_def)
  moreover have "stored_votes (after_header s b pr br) = stored_votes s"
    by (simp add: after_header_def Let_def stored_votes_def)
  ultimately show ?thesis
    using v tally_inv_extend [of "st_historical_block_hashes s" "length (st_validators s)" "tally_of s (stored_votes s)" ?ext]
    unfolding votes_inv_def by (simp add: after_header_def Let_def)
qed

lemma chain_le_after_header:
  assumes "chain_inv s"
  shows "chain_le s (after_header s b pr br)"
proof -
  have "state_justified (after_header s b pr br) i" if "state_justified s i" for i
    using that assms
    by (auto simp: state_justified_def is_slot_justified_def justified_index_after_def after_header_def Let_def nth_append
        chain_inv_def ZERO_CHECKPOINT_def split: if_splits)
  then show ?thesis using assms
    by (auto simp: chain_le_def after_header_def Let_def chain_inv_def ZERO_CHECKPOINT_def)
qed

lemma state_ok_after_header:
  assumes inv: "chain_inv s" and b: "block_ok b" and slot: "bh_slot (st_latest_block_header s) < b_slot b"
    and lim: "b_slot b \<le> HISTORICAL_ROOTS_LIMIT" and r: "length pr = 32" "length br = 32"
  shows "state_ok (after_header s b pr br)"
    and "length (st_historical_block_hashes (after_header s b pr br)) = b_slot b"
proof -
  have ok: "state_ok s" and h: "length (st_historical_block_hashes s) = bh_slot (st_latest_block_header s)"
    and g: "st_historical_block_hashes s = [] \<Longrightarrow> st_justified_slots s = []"
    and v: "st_historical_block_hashes s \<noteq> [] \<Longrightarrow> votes_inv s"
    using inv by (auto simp: chain_inv_def)
  have js: "length (st_justified_slots s) \<le> bh_slot (st_latest_block_header s)"
    using g v h by (cases "st_historical_block_hashes s = []") (auto simp: votes_inv_def tally_inv_def tally_of_def)
  have "list_all (\<lambda>r. length r = 32) (replicate k ZERO_HASH)" for k
    by (simp add: list_all_iff ZERO_HASH_def)
  moreover have "length (st_justified_slots (after_header s b pr br)) \<le> HISTORICAL_ROOTS_LIMIT"
    using g h js slot lim by (auto simp: after_header_def Let_def)
  ultimately show "state_ok (after_header s b pr br)"
    using ok h b slot lim r
    by (auto simp: after_header_def Let_def state_ok_iff block_ok_iff header_ok_def checkpoint_ok_def ZERO_HASH_def)
  show "length (st_historical_block_hashes (after_header s b pr br)) = b_slot b"
    using h slot by (simp add: after_header_def Let_def)
qed

lemma process_block_header_eq:
  assumes inv: "chain_inv s" and slot: "bh_slot (st_latest_block_header s) < b_slot b" "b_slot b = st_slot s"
    and lim: "b_slot b \<le> HISTORICAL_ROOTS_LIMIT"
    and r: "header_root H (st_latest_block_header s) = Inr (b_parent_root b)" "body_root H (b_body b) = Inr br"
    and p: "proposer_for_slot (st_slot s) (length (st_validators s)) = Inr (b_proposer_index b)"
  shows "process_block_header H s b = Inr (after_header s b (b_parent_root b) br)"
proof -
  let ?h = "st_historical_block_hashes s" and ?k = "bh_slot (st_latest_block_header s)"
  have h: "length ?h = ?k" using inv by (simp add: chain_inv_def)
  have hist: "limited HISTORICAL_ROOTS_LIMIT (?h @ [b_parent_root b] @ replicate (b_slot b - ?k - 1) ZERO_HASH) =
      Inr (?h @ [b_parent_root b] @ replicate (b_slot b - ?k - 1) ZERO_HASH)"
    using h slot lim by (intro limited_ok) simp
  let ?f = "if ?k = 0 then 0 else cp_slot (st_latest_finalized s)"
  have js: "length (st_justified_slots s) = ?k - 1 - ?f" and f: "?k \<noteq> 0 \<Longrightarrow> ?f < ?k"
    using inv by (auto simp: chain_inv_def votes_inv_def tally_inv_def tally_of_def split: if_splits)
  have ext: "extend_to_slot (st_justified_slots s) ?f (b_slot b - 1) =
      Inr (st_justified_slots s @ replicate (if ?k = 0 then b_slot b - 1 else Suc (b_slot b - ?k - 1)) False)"
  proof -
    have "length (st_justified_slots s) \<le> b_slot b - 1 - ?f" "b_slot b - 1 - ?f \<le> HISTORICAL_ROOTS_LIMIT"
      using js slot lim by (simp_all add: diff_le_mono)
    moreover have "b_slot b - 1 - ?f - length (st_justified_slots s) = (if ?k = 0 then b_slot b - 1 else Suc (b_slot b - ?k - 1))"
      using js f slot by (cases "?k = 0") simp_all
    ultimately show ?thesis by (simp only: extend_to_slot_eq)
  qed
  show ?thesis
    using slot r p hist ext by (cases "?k = 0") (simp_all add: process_block_header_def after_header_def Let_def)
qed

lemma process_block_header_Inr:
  assumes "process_block_header H s b = Inr s'"
  shows "b_slot b = st_slot s" "bh_slot (st_latest_block_header s) < b_slot b" "st_validators s \<noteq> []"
    "proposer_for_slot (st_slot s) (length (st_validators s)) = Inr (b_proposer_index b)"
    "header_root H (st_latest_block_header s) = Inr (b_parent_root b)"
    "length (st_historical_block_hashes s) + (b_slot b - bh_slot (st_latest_block_header s)) \<le> HISTORICAL_ROOTS_LIMIT"
  using assms by (auto simp: process_block_header_def Let_def limited_def proposer_for_slot_def split: if_splits)

text \<open>The exceptions of a transition: rejections, and the history list's own limit.\<close>

definition transition_error :: "block \<Rightarrow> py_exn \<Rightarrow> bool" where
  "transition_error b e \<longleftrightarrow> is_rejection e \<or> (e = SSZValueError \<and> b_slot b > HISTORICAL_ROOTS_LIMIT)"

lemma process_block_header_ok:
  assumes H: "digest_ok H" and inv: "chain_inv s" and b: "block_ok b"
  shows "outcome (transition_error b) (\<lambda>s'. votes_inv s' \<and> state_ok s' \<and> chain_le s s' \<and> st_slot s' = b_slot b \<and>
    bh_slot (st_latest_block_header s') = b_slot b \<and> length (st_historical_block_hashes s') = b_slot b)
    (process_block_header H s b)"
proof -
  let ?k = "bh_slot (st_latest_block_header s)"
  have ok: "state_ok s" and h: "length (st_historical_block_hashes s) = ?k" using inv by (simp_all add: chain_inv_def)
  obtain pr where pr: "header_root H (st_latest_block_header s) = Inr pr" "length pr = 32"
    using header_root_total [OF H] ok by (auto simp: state_ok_iff)
  obtain br where br: "body_root H (b_body b) = Inr br" "length br = 32"
    using body_root_total [OF H] b by (auto simp: block_ok_iff)
  consider (reject) r where "process_block_header H s b = Inl (SpecRejectionError r)"
    | (full) "process_block_header H s b = Inl SSZValueError" "b_slot b > HISTORICAL_ROOTS_LIMIT"
    | (accept) "b_slot b = st_slot s" "?k < b_slot b" "b_slot b \<le> HISTORICAL_ROOTS_LIMIT" "b_parent_root b = pr"
        "proposer_for_slot (st_slot s) (length (st_validators s)) = Inr (b_proposer_index b)"
  proof (cases "b_slot b = st_slot s \<and> ?k < b_slot b \<and> b_parent_root b = pr \<and>
      proposer_for_slot (st_slot s) (length (st_validators s)) = Inr (b_proposer_index b)")
    case True
    then have "process_block_header H s b = Inl SSZValueError" if "b_slot b > HISTORICAL_ROOTS_LIMIT"
      using that pr h by (auto simp: process_block_header_def Let_def limited_def)
    with True accept full show ?thesis by (meson not_le)
  next
    case False
    then have "\<exists>r. process_block_header H s b = Inl (SpecRejectionError r)"
      using pr by (auto simp: process_block_header_def Let_def proposer_for_slot_def)
    then show ?thesis using reject by blast
  qed
  then show ?thesis
  proof cases
    case accept
    have run: "process_block_header H s b = Inr (after_header s b (b_parent_root b) br)"
      by (rule process_block_header_eq [OF inv accept(2,1,3) _ br(1) accept(5)]) (simp add: pr accept)
    have "st_validators s \<noteq> []" using accept(5) by (auto simp: proposer_for_slot_def)
    from votes_inv_after_header [OF inv accept(2) this] state_ok_after_header [OF inv b accept(2,3) pr(2) br(2)]
      chain_le_after_header [OF inv]
    show ?thesis unfolding run using accept by (simp add: after_header_frame)
  qed (simp_all add: transition_error_def)
qed

section \<open>Slots and the whole transition\<close>

lemma chain_le_refl: "chain_le s s"
  by (simp add: chain_le_def)

lemma chain_le_trans: "chain_le a b \<Longrightarrow> chain_le b c \<Longrightarrow> chain_le a c"
  unfolding chain_le_def by (metis append.assoc order_trans)

lemma advance_slot_frame:
  assumes "chain_inv s" and "length r = 32" and "st_slot s < k" and "k < 2 ^ 64"
  shows "chain_inv (s\<lparr>st_latest_block_header := (st_latest_block_header s)\<lparr>bh_state_root := r\<rparr>, st_slot := k\<rparr>)"
    and "chain_le s (s\<lparr>st_latest_block_header := (st_latest_block_header s)\<lparr>bh_state_root := r\<rparr>, st_slot := k\<rparr>)"
proof -
  let ?s = "s\<lparr>st_latest_block_header := (st_latest_block_header s)\<lparr>bh_state_root := r\<rparr>, st_slot := k\<rparr>"
  have "state_ok ?s" using assms by (simp add: chain_inv_def state_ok_iff header_ok_def)
  moreover have "votes_inv ?s = votes_inv s" by (simp add: votes_inv_def tally_of_def stored_votes_def)
  ultimately show "chain_inv ?s" using assms by (auto simp: chain_inv_def)
  show "chain_le s ?s" by (simp add: chain_le_def state_justified_def)
qed

lemma cached_root_total:
  assumes "digest_ok H" and "state_ok s"
  shows "\<exists>r. (if bh_state_root (st_latest_block_header s) = ZERO_HASH then state_root H s
    else Inr (bh_state_root (st_latest_block_header s))) = Inr r \<and> length r = 32"
  using state_root_total [OF assms] assms(2) by (auto simp: state_ok_iff header_ok_def)

lemma slots_loop_ok:
  assumes "digest_ok H" and "target < 2 ^ 64"
  shows "chain_inv s \<Longrightarrow> st_slot s \<le> target \<Longrightarrow>
    \<exists>s'. slots_loop H s target = Inr s' \<and> chain_inv s' \<and> chain_le s s' \<and> st_slot s' = target \<and>
      bh_slot (st_latest_block_header s') = bh_slot (st_latest_block_header s)"
proof (induction "target - st_slot s" arbitrary: s)
  case 0
  then show ?case by (subst slots_loop.simps) (simp add: chain_le_refl)
next
  case (Suc d)
  then have lt: "st_slot s < target" and ok: "state_ok s" by (simp_all add: chain_inv_def)
  obtain r where r: "(if bh_state_root (st_latest_block_header s) = ZERO_HASH then state_root H s
      else Inr (bh_state_root (st_latest_block_header s))) = Inr r" "length r = 32"
    using cached_root_total [OF assms(1) ok] by blast
  let ?s = "s\<lparr>st_latest_block_header := (st_latest_block_header s)\<lparr>bh_state_root := r\<rparr>, st_slot := st_slot s + 1\<rparr>"
  have step: "advance_slot H s = Inr ?s" unfolding advance_slot_def Let_def r(1) by simp
  have k: "st_slot s < st_slot s + 1" "st_slot s + 1 < 2 ^ 64" using lt assms(2) by simp_all
  note f = advance_slot_frame [OF Suc.prems(1) r(2) k]
  have "slots_loop H s target = slots_loop H ?s target"
    by (subst slots_loop.simps) (simp add: lt step)
  moreover have "\<exists>s'. slots_loop H ?s target = Inr s' \<and> chain_inv s' \<and> chain_le ?s s' \<and> st_slot s' = target \<and>
      bh_slot (st_latest_block_header s') = bh_slot (st_latest_block_header ?s)"
    by (rule Suc.hyps(1)) (use Suc.hyps(2) f(1) lt in simp_all)
  ultimately show ?case using chain_le_trans [OF f(2)] by auto
qed

lemma process_slots_ok:
  assumes "digest_ok H" and "chain_inv s" and "target < 2 ^ 64"
  shows "outcome is_rejection (\<lambda>s'. chain_inv s' \<and> chain_le s s' \<and> st_slot s' = target \<and> st_slot s < target \<and>
    bh_slot (st_latest_block_header s') = bh_slot (st_latest_block_header s)) (process_slots H s target)"
  using slots_loop_ok [OF assms(1,3,2)] by (cases "st_slot s < target") (auto simp: process_slots_def)

lemma process_block_ok:
  assumes H: "digest_ok H" and inv: "chain_inv s" and b: "block_ok b"
  shows "outcome (transition_error b) (\<lambda>s'. chain_inv s' \<and> chain_le s s' \<and> st_slot s' = b_slot b \<and>
    bh_slot (st_latest_block_header s') = b_slot b) (process_block H s b)"
  unfolding process_block_def
proof (rule outcome_bind [OF process_block_header_ok [OF assms]])
  fix s1
  assume run: "process_block_header H s b = Inr s1"
  assume s1: "votes_inv s1 \<and> state_ok s1 \<and> chain_le s s1 \<and> st_slot s1 = b_slot b \<and>
    bh_slot (st_latest_block_header s1) = b_slot b \<and> length (st_historical_block_hashes s1) = b_slot b"
  have atts: "list_all attestation_ok (bb_attestations (b_body b))" using b by (simp add: block_ok_iff body_ok_def)
  have pos: "0 < b_slot b" using process_block_header_Inr(2) [OF run] by simp
  show "outcome (transition_error b) (\<lambda>s'. chain_inv s' \<and> chain_le s s' \<and> st_slot s' = b_slot b \<and>
      bh_slot (st_latest_block_header s') = b_slot b) (process_attestations s1 (bb_attestations (b_body b)))"
    by (rule outcome_mono [OF process_attestations_ok [OF _ _ atts, of s1]])
       (use s1 pos chain_le_trans in \<open>auto simp: transition_error_def chain_inv_def\<close>)
qed

lemma state_transition_ok:
  assumes H: "digest_ok H" and inv: "chain_inv s" and b: "block_ok b"
  shows "outcome (transition_error b) (\<lambda>s'. chain_inv s' \<and> chain_le s s' \<and> st_slot s < b_slot b \<and> st_slot s' = b_slot b \<and>
    bh_slot (st_latest_block_header s') = b_slot b \<and> state_root H s' = Inr (b_state_root b)) (state_transition H s b)"
proof -
  have "b_slot b < 2 ^ 64" using b by (simp add: block_ok_iff)
  note slots = process_slots_ok [OF H inv this]
  have root: "\<exists>r. state_root H x = Inr r" if "chain_inv x" for x
    using state_root_total [OF H, of x] that by (auto simp: chain_inv_def)
  show ?thesis
    unfolding state_transition_def
  proof (rule outcome_bind [OF outcome_mono [OF slots]])
    show "transition_error b e" if "is_rejection e" for e using that by (simp add: transition_error_def)
  next
    fix s1
    assume s1: "chain_inv s1 \<and> chain_le s s1 \<and> st_slot s1 = b_slot b \<and> st_slot s < b_slot b \<and>
      bh_slot (st_latest_block_header s1) = bh_slot (st_latest_block_header s)"
    show "outcome (transition_error b) (\<lambda>s'. chain_inv s' \<and> chain_le s s' \<and> st_slot s < b_slot b \<and> st_slot s' = b_slot b \<and>
        bh_slot (st_latest_block_header s') = b_slot b \<and> state_root H s' = Inr (b_state_root b))
      (rbind (process_block H s1 b) (\<lambda>x. rbind (state_root H x) (\<lambda>r.
        if b_state_root b \<noteq> r then Inl (SpecRejectionError STATE_ROOT_MISMATCH) else Inr x)))"
    proof (rule outcome_bind [OF process_block_ok [OF H _ b]])
      show "chain_inv s1" using s1 by simp
      fix x
      assume x: "chain_inv x \<and> chain_le s1 x \<and> st_slot x = b_slot b \<and> bh_slot (st_latest_block_header x) = b_slot b"
      then obtain r where "state_root H x = Inr r" using root by blast
      then show "outcome (transition_error b) (\<lambda>s'. chain_inv s' \<and> chain_le s s' \<and> st_slot s < b_slot b \<and> st_slot s' = b_slot b \<and>
          bh_slot (st_latest_block_header s') = b_slot b \<and> state_root H s' = Inr (b_state_root b))
        (rbind (state_root H x) (\<lambda>r. if b_state_root b \<noteq> r then Inl (SpecRejectionError STATE_ROOT_MISMATCH) else Inr x))"
        using x s1 chain_le_trans [of s s1 x] by (simp add: transition_error_def)
    qed
  qed
qed

section \<open>The chain as a state machine\<close>

definition chain_init :: "digest \<Rightarrow> state \<Rightarrow> bool" where
  "chain_init H s \<longleftrightarrow> digest_ok H \<and> (\<exists>t vs. t < 2 ^ 64 \<and> length vs \<le> VALIDATOR_REGISTRY_LIMIT \<and> list_all validator_ok vs \<and>
     generate_genesis H t vs = Inr s)"

inductive chain_step :: "digest \<Rightarrow> state \<Rightarrow> state \<Rightarrow> bool" for H :: digest where
  accept_block: "digest_ok H \<Longrightarrow> block_ok b \<Longrightarrow> state_transition H s b = Inr s' \<Longrightarrow> chain_step H s s'"

inductive_cases chain_stepE [elim]: "chain_step H s s'"

lemma genesis_inv: "chain_init H s \<Longrightarrow> chain_inv s"
proof -
  assume "chain_init H s"
  then obtain t vs where "digest_ok H" "t < 2 ^ 64" "length vs \<le> VALIDATOR_REGISTRY_LIMIT" "list_all validator_ok vs"
    and g: "generate_genesis H t vs = Inr s" by (auto simp: chain_init_def)
  moreover obtain r where r: "body_root H \<lparr>bb_attestations = []\<rparr> = Inr r" "length r = 32"
    using body_root_total [OF \<open>digest_ok H\<close>, of "\<lparr>bb_attestations = []\<rparr>"] by (auto simp: body_ok_def)
  ultimately have "state_ok s"
    by (auto simp: generate_genesis_def Let_def state_ok_iff header_ok_def checkpoint_ok_def ZERO_CHECKPOINT_def ZERO_HASH_def)
  with g r show "chain_inv s" by (auto simp: generate_genesis_def Let_def chain_inv_def)
qed

lemma chain_step_inv: "chain_step H s s' \<Longrightarrow> chain_inv s \<Longrightarrow> chain_inv s' \<and> chain_le s s'"
  using state_transition_ok by (fastforce elim!: chain_stepE dest: outcome_Inr)

interpretation chain_machine: machine "chain_init H" "chain_step H" chain_inv for H
  by unfold_locales (use genesis_inv chain_step_inv in blast)+

lemma chain_run_le: "(chain_step H)\<^sup>*\<^sup>* s s' \<Longrightarrow> chain_inv s \<Longrightarrow> chain_le s s'"
proof (induction rule: rtranclp_induct)
  case (step x y)
  then show ?case using chain_machine.run_inv [OF step.hyps(1)] chain_step_inv [of H x y] chain_le_trans [of s x y] by simp
qed (simp add: chain_le_refl)

lemma chain_inv_checkpoints:
  assumes "chain_inv s" and "st_historical_block_hashes s \<noteq> []"
  shows "cp_slot (st_latest_finalized s) \<le> cp_slot (st_latest_justified s)"
    and "cp_slot (st_latest_justified s) < length (st_historical_block_hashes s)"
    and "cp_root (st_latest_justified s) = st_historical_block_hashes s ! cp_slot (st_latest_justified s)"
    and "cp_root (st_latest_finalized s) = st_historical_block_hashes s ! cp_slot (st_latest_finalized s)"
    and "state_justified s (cp_slot (st_latest_justified s))"
    and "ZERO_HASH \<notin> set (st_justifications_roots s)"
proof -
  have v: "votes_inv s" using assms by (simp add: chain_inv_def)
  then have "tally_inv (st_historical_block_hashes s) (length (st_validators s)) (tally_of s (stored_votes s))"
    by (simp add: votes_inv_def)
  then show "cp_slot (st_latest_finalized s) \<le> cp_slot (st_latest_justified s)"
    "cp_slot (st_latest_justified s) < length (st_historical_block_hashes s)"
    "cp_root (st_latest_justified s) = st_historical_block_hashes s ! cp_slot (st_latest_justified s)"
    "cp_root (st_latest_finalized s) = st_historical_block_hashes s ! cp_slot (st_latest_finalized s)"
    "state_justified s (cp_slot (st_latest_justified s))"
    unfolding tally_inv_def slot_justified_tally_of by (simp_all add: tally_of_def)
  show "ZERO_HASH \<notin> set (st_justifications_roots s)"
    using stored_votes_unpacked [OF v] by (auto simp: unpack_justifications_def)
qed

lemma chain_inv_votes:
  assumes "chain_inv s" and "st_historical_block_hashes s \<noteq> []"
  shows "length (st_justifications_validators s) = length (st_justifications_roots s) * length (st_validators s)"
    and "\<forall>r \<in> set (st_justifications_roots s). tracked (st_historical_block_hashes s) (cp_slot (st_latest_finalized s)) r"
proof -
  have v: "votes_inv s" using assms by (simp add: chain_inv_def)
  then show len: "length (st_justifications_validators s) = length (st_justifications_roots s) * length (st_validators s)"
    by (simp add: votes_inv_def)
  have inv: "tally_inv (st_historical_block_hashes s) (length (st_validators s)) (tally_of s (stored_votes s))"
    using v by (simp add: votes_inv_def)
  have "0 < length (st_validators s)" using v by (simp add: votes_inv_def)
  from batched_uniform(1) [OF this len] have "map fst (stored_votes s) = st_justifications_roots s" by (simp add: stored_votes_def)
  then have "r \<in> set (st_justifications_roots s) \<Longrightarrow> dget (stored_votes s) r \<noteq> None" for r
    by (simp add: dget_def map_of_eq_None_iff flip: set_map)
  then show "\<forall>r \<in> set (st_justifications_roots s). tracked (st_historical_block_hashes s) (cp_slot (st_latest_finalized s)) r"
    using tally_tracked [OF inv] by (auto simp: tally_of_def)
qed

lemma chain_step_history: "chain_step H s s' \<Longrightarrow> chain_inv s \<Longrightarrow> st_historical_block_hashes s' \<noteq> []"
proof -
  assume "chain_step H s s'" and inv: "chain_inv s"
  then obtain b where b: "digest_ok H" "block_ok b" "state_transition H s b = Inr s'" by blast
  from state_transition_ok [OF b(1) inv b(2)] b(3)
  have "chain_inv s'" "bh_slot (st_latest_block_header s') \<noteq> 0" by simp_all
  then show ?thesis by (auto simp: chain_inv_def)
qed

lemma reach_history: "reach (chain_init H) (chain_step H) s \<Longrightarrow> st_slot s \<noteq> 0 \<Longrightarrow> st_historical_block_hashes s \<noteq> []"
proof (induction rule: reach.induct)
  case (reach_init s)
  then show ?case by (auto simp: chain_init_def generate_genesis_def Let_def)
next
  case (reach_step s t)
  then show ?case using chain_step_history [OF reach_step.hyps(2)] chain_machine.reach_inv [OF reach_step.hyps(1)] by simp
qed

section \<open>Extending the chain\<close>

lemma process_attestations_none:
  assumes "votes_inv s" and "state_ok s"
  shows "\<exists>s'. process_attestations s [] = Inr s'"
  using process_attestations_eq [OF assms, of "[]" "tally_of s (stored_votes s)"] assms(1) by (simp add: votes_inv_def)

lemma block_at_slot:
  assumes H: "digest_ok H" and inv: "chain_inv s" and n: "st_validators s \<noteq> []"
    and k: "st_slot s < k" "k \<le> HISTORICAL_ROOTS_LIMIT"
  shows "\<exists>b s'. b_slot b = k \<and> block_ok b \<and> state_transition H s b = Inr s'"
proof -
  have k64: "k < 2 ^ 64" using k(2) by (simp add: HISTORICAL_ROOTS_LIMIT_def)
  obtain s1 where s1: "process_slots H s k = Inr s1" "chain_inv s1" "chain_le s s1" "st_slot s1 = k"
      "bh_slot (st_latest_block_header s1) = bh_slot (st_latest_block_header s)"
    using slots_loop_ok [OF H k64 inv] k(1) by (auto simp: process_slots_def)
  have hdr: "bh_slot (st_latest_block_header s1) < k" using inv k s1(5) by (simp add: chain_inv_def)
  have vs: "st_validators s1 = st_validators s" "length (st_validators s) \<le> VALIDATOR_REGISTRY_LIMIT"
    using s1(3) inv by (simp_all add: chain_le_def chain_inv_def state_ok_iff)
  obtain pr where pr: "header_root H (st_latest_block_header s1) = Inr pr" "length pr = 32"
    using header_root_total [OF H] s1(2) by (auto simp: chain_inv_def state_ok_iff)
  obtain br where br: "body_root H \<lparr>bb_attestations = []\<rparr> = Inr br" "length br = 32"
    using body_root_total [OF H, of "\<lparr>bb_attestations = []\<rparr>"] by (auto simp: body_ok_def)
  let ?b = "\<lambda>r. \<lparr>b_slot = k, b_proposer_index = k mod length (st_validators s), b_parent_root = pr, b_state_root = r,
    b_body = \<lparr>bb_attestations = []\<rparr>\<rparr>"
  have "k mod length (st_validators s) < 2 ^ 64" using k64 by (rule le_less_trans [OF mod_less_eq_dividend])
  then have b: "block_ok (?b r)" if "length r = 32" for r
    using that pr k64 by (simp add: block_ok_iff body_ok_def)
  define s2 where "s2 = after_header s1 (?b ZERO_HASH) pr br"
  have head: "process_block_header H s1 (?b r) = Inr s2" for r
    using process_block_header_eq [OF s1(2), of "?b r" H br] hdr s1(4) k(2) pr br n vs
    by (simp add: s2_def after_header_def proposer_for_slot_def Let_def)
  have "votes_inv s2" unfolding s2_def by (rule votes_inv_after_header [OF s1(2)]) (use hdr n vs in simp_all)
  moreover have "state_ok s2" unfolding s2_def
    by (rule state_ok_after_header(1) [OF s1(2) b]) (use hdr k pr br in \<open>simp_all add: ZERO_HASH_def\<close>)
  ultimately obtain s3 where s3: "process_attestations s2 [] = Inr s3" using process_attestations_none by blast
  then have pb: "process_block H s1 (?b r) = Inr s3" for r by (simp add: process_block_def head)
  have "chain_inv s3" using process_block_ok [OF H s1(2) b [of ZERO_HASH]] by (simp add: pb ZERO_HASH_def)
  then obtain r where r: "state_root H s3 = Inr r" "length r = 32"
    using state_root_total [OF H] by (auto simp: chain_inv_def)
  have "state_transition H s (?b r) = Inr s3" using s1(1) pb r by (simp add: state_transition_def)
  with b [OF r(2)] show ?thesis by (intro exI [of _ "?b r"] exI [of _ s3]) simp
qed

section \<open>What moves a checkpoint\<close>

lemma any_justifiable_False:
  "any_justifiable f ss = Inr False \<Longrightarrow> s \<in> set ss \<Longrightarrow> is_justifiable_after s f = Inr False"
  by (induction ss) (auto split: if_splits)

lemma finalize_source_checkpoints:
  "finalize_source slots source t = Inr t' \<Longrightarrow>
     ta_latest_justified t' = ta_latest_justified t \<and> ta_latest_finalized t' = source"
  by (auto simp: finalize_source_def Let_def split: if_splits)

lemma justify_target_checkpoints:
  assumes "justify_target slots source target t = Inr t'"
  shows "(ta_latest_justified t' = ta_latest_justified t \<or> ta_latest_justified t' = target) \<and>
    (ta_latest_finalized t' = ta_latest_finalized t \<or>
     ta_latest_finalized t' = source \<and> ta_finalized_slot t < cp_slot source \<and>
     (\<forall>i. cp_slot source < i \<and> i < cp_slot target \<longrightarrow> is_justifiable_after i (ta_finalized_slot t) = Inr False))"
proof (intro conjI)
  show "ta_latest_justified t' = ta_latest_justified t \<or> ta_latest_justified t' = target"
    using assms by (auto simp: justify_target_def Let_def dest!: finalize_source_checkpoints split: option.splits if_splits)
  show "ta_latest_finalized t' = ta_latest_finalized t \<or>
     ta_latest_finalized t' = source \<and> ta_finalized_slot t < cp_slot source \<and>
     (\<forall>i. cp_slot source < i \<and> i < cp_slot target \<longrightarrow> is_justifiable_after i (ta_finalized_slot t) = Inr False)"
    using assms any_justifiable_False [of "ta_finalized_slot t" "[cp_slot source + 1..<cp_slot target]"]
    by (auto simp: justify_target_def Let_def dest!: finalize_source_checkpoints split: option.splits if_splits)
qed

lemma checkpoint_moves:
  assumes "tally_inv hashes n t" and "process_attestation hashes n slots a t = Inr t'"
    and "ta_latest_justified t' \<noteq> ta_latest_justified t \<or> ta_latest_finalized t' \<noteq> ta_latest_finalized t"
  obtains voters w where "valid_vote hashes t (ad_source (aa_data a)) (ad_target (aa_data a))"
    and "to_validator_indices (aa_aggregation_bits a) = Inr voters"
    and "mark_votes (target_votes n t (cp_root (ad_target (aa_data a)))) voters = Inr w" and "2 * n \<le> 3 * count_votes w"
    and "justify_target slots (ad_source (aa_data a)) (ad_target (aa_data a))
      (t\<lparr>ta_justifications := dput (ta_justifications t) (cp_root (ad_target (aa_data a))) w\<rparr>) = Inr t'"
proof -
  obtain c where c: "vote_counts hashes t (aa_data a) = Inr c" using assms(2) by (auto simp: process_attestation_def)
  have "c" using assms(2,3) c by (cases c) (auto simp: process_attestation_def)
  with c vote_counts_ok [OF assms(1), of "aa_data a"] have v: "valid_vote hashes t (ad_source (aa_data a)) (ad_target (aa_data a))"
    by simp
  have "apply_votes n slots a t = Inr t'" using assms(2) c \<open>c\<close> by (simp add: process_attestation_def)
  with v assms(3) that show ?thesis by (auto simp: apply_votes_eq Let_def split: if_splits)
qed

section \<open>A sample chain\<close>

definition sample_digest :: digest where
  "sample_digest _ = replicate 32 0"

definition sample_validator :: validator where
  "sample_validator = \<lparr>v_attestation_public_key = replicate 52 0, v_proposal_public_key = replicate 52 0, v_index = 0\<rparr>"

lemma sample_chain:
  "\<exists>g b s. chain_init sample_digest g \<and> digest_ok sample_digest \<and> chain_inv g \<and> st_validators g \<noteq> [] \<and> st_slot g = 0 \<and>
     block_ok b \<and> b_slot b = 1 \<and> state_transition sample_digest g b = Inr s \<and> st_slot s = 1"
proof -
  have H: "digest_ok sample_digest" by (simp add: digest_ok_def sample_digest_def)
  obtain g where g: "generate_genesis sample_digest 0 [sample_validator] = Inr g"
    using body_root_total [OF H, of "\<lparr>bb_attestations = []\<rparr>"] by (auto simp: body_ok_def generate_genesis_def Let_def)
  then have init: "chain_init sample_digest g"
    using H by (auto simp: chain_init_def VALIDATOR_REGISTRY_LIMIT_def validator_ok_def sample_validator_def intro!: exI [of _ "0 :: nat"]
        exI [of _ "[sample_validator]"])
  have vs: "st_validators g \<noteq> []" "st_slot g = 0" using g by (auto simp: generate_genesis_def Let_def)
  obtain b s where b: "b_slot b = 1" "block_ok b" "state_transition sample_digest g b = Inr s"
    using block_at_slot [OF H genesis_inv [OF init] vs(1), of 1] vs(2) by (auto simp: HISTORICAL_ROOTS_LIMIT_def)
  moreover have "st_slot s = 1" using state_transition_ok [OF H genesis_inv [OF init] b(2)] b by simp
  ultimately show ?thesis using init H genesis_inv [OF init] vs by blast
qed

section \<open>Properties\<close>



text \<open>
  Property C1: on any block and any state that satisfies the invariant, the transition either returns a state that
  satisfies the invariant again and whose root is the one the block commits to, or raises a rejection. No assertion,
  index, key or value error of the implementation is reachable; the one other exception is the history list's
  limit, and only for a block beyond slot \<open>2 ^ 18\<close>.
\<close>

theorem state_transition_safe:
  assumes "digest_ok H" and "chain_inv s" and "block_ok b"
  shows "(\<exists>s'. state_transition H s b = Inr s' \<and> chain_inv s' \<and> st_slot s' = b_slot b \<and> state_root H s' = Inr (b_state_root b)) \<or>
    (\<exists>r. state_transition H s b = Inl (SpecRejectionError r)) \<or>
    (state_transition H s b = Inl SSZValueError \<and> b_slot b > HISTORICAL_ROOTS_LIMIT)"
  using state_transition_ok [OF assms]
  by (cases "state_transition H s b") (auto simp: transition_error_def is_rejection_def split: py_exn.splits)

theorem state_transition_safe_witness:
  "\<exists>g b s. chain_inv g \<and> block_ok b \<and> state_transition sample_digest g b = Inr s \<and> chain_inv s"
proof -
  obtain g b s where "digest_ok sample_digest" "chain_inv g" "block_ok b" "state_transition sample_digest g b = Inr s"
    using sample_chain by blast
  with state_transition_safe [of sample_digest g b] show ?thesis by auto
qed

text \<open>
  Property C2: finality is stable. Along any run of accepted blocks neither checkpoint moves back, a justified slot
  stays justified, and the history only grows, so the finalized block of an earlier state is still the entry of the
  later history at its slot.
\<close>

theorem finality_stable:
  assumes "chain_inv s" and "(chain_step H)\<^sup>*\<^sup>* s s'" and "st_historical_block_hashes s \<noteq> []"
  shows "cp_slot (st_latest_finalized s) \<le> cp_slot (st_latest_finalized s') \<and>
    cp_slot (st_latest_justified s) \<le> cp_slot (st_latest_justified s') \<and>
    (\<forall>i. is_slot_justified (st_justified_slots s) (cp_slot (st_latest_finalized s)) i = Inr True \<longrightarrow>
      is_slot_justified (st_justified_slots s') (cp_slot (st_latest_finalized s')) i = Inr True) \<and>
    prefix (st_historical_block_hashes s) (st_historical_block_hashes s') \<and>
    st_historical_block_hashes s' ! cp_slot (st_latest_finalized s) = cp_root (st_latest_finalized s)"
proof -
  have le: "chain_le s s'" by (rule chain_run_le [OF assms(2,1)])
  then obtain ext where "st_historical_block_hashes s' = st_historical_block_hashes s @ ext" by (auto simp: chain_le_def)
  with le chain_inv_checkpoints [OF assms(1,3)] show ?thesis
    by (auto simp: chain_le_def state_justified_def nth_append)
qed

theorem finality_stable_witness:
  "\<exists>s. chain_inv s \<and> (chain_step sample_digest)\<^sup>*\<^sup>* s s \<and> st_historical_block_hashes s \<noteq> [] \<and>
     st_historical_block_hashes s ! cp_slot (st_latest_finalized s) = cp_root (st_latest_finalized s)"
proof -
  obtain g b s where "digest_ok sample_digest" and g: "chain_inv g" and "block_ok b" "state_transition sample_digest g b = Inr s"
    using sample_chain by blast
  then have step: "chain_step sample_digest g s" by (intro accept_block)
  then have inv: "chain_inv s" and ne: "st_historical_block_hashes s \<noteq> []"
    using chain_step_inv chain_step_history g by blast+
  from finality_stable [OF inv rtranclp.rtrancl_refl ne] inv ne show ?thesis by blast
qed


definition sample_tally :: tally where
  "sample_tally = \<lparr>ta_latest_justified = \<lparr>cp_root = [1], cp_slot = 0\<rparr>, ta_latest_finalized = \<lparr>cp_root = [1], cp_slot = 0\<rparr>,
     ta_finalized_slot = 0, ta_justified_slots = [False, False], ta_justifications = []\<rparr>"

definition sample_vote :: aggregated_attestation where
  "sample_vote = \<lparr>aa_aggregation_bits = [True, True], aa_data = \<lparr>ad_slot = 2, ad_head = \<lparr>cp_root = [3], cp_slot = 2\<rparr>,
     ad_target = \<lparr>cp_root = [2], cp_slot = 1\<rparr>, ad_source = \<lparr>cp_root = [1], cp_slot = 0\<rparr>\<rparr>\<rparr>"


text \<open>
  Property C35: a slot is justifiable after a finalized slot exactly when their distance is at most five, a square, or a
  product of two consecutive numbers; the integer square roots of the implementation decide this for every slot.
\<close>

theorem justifiable_after_exact:
  "is_justifiable_after s f =
     (if s < f then Inl AssertionError
      else Inr (s - f \<le> 5 \<or> (\<exists>k. s - f = k ^ 2) \<or> (\<exists>k. s - f = k * (k + 1))))"
  by (rule justifiable_iff)



text \<open>
  Property C37: no block beyond slot \<open>2 ^ 18\<close> is ever accepted: the history holds one entry per slot and its list
  type has that limit, so the transition fails on every later block.
\<close>

theorem history_limit_final:
  assumes "digest_ok H" and "chain_inv s" and "block_ok b" and "b_slot b > HISTORICAL_ROOTS_LIMIT"
  shows "\<exists>e. state_transition H s b = Inl e \<and> (is_rejection e \<or> e = SSZValueError)"
proof (cases "state_transition H s b")
  case (Inl e)
  then show ?thesis using state_transition_ok [OF assms(1-3)] by (auto simp: transition_error_def)
next
  case (Inr s')
  then have "chain_inv s'" "bh_slot (st_latest_block_header s') = b_slot b"
    using state_transition_ok [OF assms(1-3)] by simp_all
  then have False using assms(4) by (simp add: chain_inv_def state_ok_iff)
  then show ?thesis ..
qed

theorem history_limit_final_witness:
  "\<exists>g b e. chain_inv g \<and> block_ok b \<and> b_slot b = 2 ^ 18 + 1 \<and> state_transition sample_digest g b = Inl e"
proof -
  obtain g where g: "digest_ok sample_digest" "chain_inv g" using sample_chain by blast
  let ?b = "\<lparr>b_slot = 2 ^ 18 + 1, b_proposer_index = 0, b_parent_root = ZERO_HASH, b_state_root = ZERO_HASH,
    b_body = \<lparr>bb_attestations = []\<rparr>\<rparr>"
  have b: "block_ok ?b" "b_slot ?b > HISTORICAL_ROOTS_LIMIT"
    by (simp_all add: block_ok_iff body_ok_def ZERO_HASH_def HISTORICAL_ROOTS_LIMIT_def)
  from history_limit_final [OF g b] g b(1) show ?thesis by (intro exI [of _ g] exI [of _ ?b]) auto
qed

end
