(* ===== verification/Fork_Choice.thy ===== *)
theory Fork_Choice
  imports State_Transition
begin

text \<open>
  Fork choice, \<^verbatim>\<open>spec/forks/lstar/fork_choice.py\<close> with the store of \<^verbatim>\<open>containers/store.py\<close>, the block signature
  check of \<^verbatim>\<open>signatures.py\<close> and the verifiers of \<^verbatim>\<open>containers/aggregation.py\<close>. What the code takes from outside
  (SHA-256, the signature scheme, the proof system, the iteration order of sets) is the record \<open>env\<close>.

  A walk along parent links visits roots of the block dict and is determined by the root it is at, so a walk that is
  longer than the dict repeats a root and never ends: the loops below are given one step more than there are
  blocks, and \<open>Diverges\<close> is the value of a loop that does not return. The block tree of a store has no such walk.
\<close>

section \<open>Containers\<close>

record single_proof =
  sp_participants :: "bool list"
  sp_proof :: bytes

definition PROOF_LIMIT :: nat where "PROOF_LIMIT = 512 * 1024"

definition SingleMessageAggregate_T :: ssz_type where
  "SingleMessageAggregate_T = TContainer [TBitlist VALIDATOR_REGISTRY_LIMIT, TByteList PROOF_LIMIT]"

definition ssz_single_proof :: "single_proof \<Rightarrow> ssz_value" where
  "ssz_single_proof p = VContainer [VBitlist (sp_participants p), VByteList (sp_proof p)]"

record signed_attestation =
  sa_validator_index :: nat
  sa_data :: attestation_data
  sa_signature :: bytes

record signed_aggregate =
  sg_data :: attestation_data
  sg_proof :: single_proof

type_synonym payloads = "(attestation_data, single_proof set) dict"
type_synonym signature_entry = "nat \<times> bytes"

record store =
  fc_time :: nat
  fc_config :: genesis_config
  fc_head :: root
  fc_safe_target :: root
  fc_latest_justified :: checkpoint
  fc_latest_finalized :: checkpoint
  fc_blocks :: "(root, block) dict"
  fc_states :: "(root, state) dict"
  fc_validator_index :: "nat option"
  fc_attestation_signatures :: "(attestation_data, signature_entry set) dict"
  fc_new_payloads :: payloads
  fc_known_payloads :: payloads

record env =
  ev_hash :: digest
  ev_verify :: "bytes \<Rightarrow> slot \<Rightarrow> root \<Rightarrow> bytes \<Rightarrow> bool"
  ev_verify_single :: "bytes list \<Rightarrow> root \<Rightarrow> slot \<Rightarrow> bytes \<Rightarrow> bool"
  ev_verify_multi :: "bytes list list \<Rightarrow> (root \<times> slot) list \<Rightarrow> bytes \<Rightarrow> bool"
  ev_aggregate :: "bytes list \<Rightarrow> bytes list \<Rightarrow> root \<Rightarrow> slot \<Rightarrow> (bytes list \<times> bytes) list \<Rightarrow> bytes option"
  ev_proofs :: "single_proof set \<Rightarrow> single_proof list"
  ev_entries :: "signature_entry set \<Rightarrow> signature_entry list"

definition env_ok :: "env \<Rightarrow> bool" where
  "env_ok E \<longleftrightarrow> digest_ok (ev_hash E) \<and> set_order (ev_proofs E) \<and> set_order (ev_entries E)"

definition attestation_data_root :: "digest \<Rightarrow> attestation_data \<Rightarrow> root result" where
  "attestation_data_root H d = hash_tree_root H AttestationData_T (ssz_attestation_data d)"

section \<open>Keys and proofs\<close>

definition PublicKey_T :: ssz_type where
  "PublicKey_T = TContainer [TVector TFp 8, TVector TFp 5]"

text \<open>A public key is passed on as its encoding.\<close>

definition public_key_decode :: "bytes \<Rightarrow> bytes result" where
  "public_key_decode bs = rbind (decode_bytes PublicKey_T bs) (encode_bytes PublicKey_T)"

definition attestation_keys :: "validator list \<Rightarrow> nat list \<Rightarrow> bytes list result" where
  "attestation_keys validators indices =
     rmap (\<lambda>i. rbind (py_index validators i) (\<lambda>v. public_key_decode (v_attestation_public_key v))) indices"

definition single_verify :: "env \<Rightarrow> single_proof \<Rightarrow> bytes list \<Rightarrow> root \<Rightarrow> slot \<Rightarrow> unit result" where
  "single_verify E p public_keys message s =
     rbind (to_validator_indices (sp_participants p)) (\<lambda>indices.
       if length public_keys \<noteq> length indices then Inl AggregationError
       else require (ev_verify_single E public_keys message s (sp_proof p)) AggregationError)"

definition multi_verify :: "env \<Rightarrow> bytes \<Rightarrow> bytes list list \<Rightarrow> (root \<times> slot) list \<Rightarrow> unit result" where
  "multi_verify E p public_keys_per_message messages =
     (if length messages \<noteq> length public_keys_per_message then Inl AggregationError
      else require (ev_verify_multi E public_keys_per_message messages p) AggregationError)"

text \<open>The keys of one attestation's voters and the message they signed.\<close>

definition attestation_component :: "env \<Rightarrow> validator list \<Rightarrow> aggregated_attestation \<Rightarrow> (bytes list \<times> root \<times> slot) result" where
  "attestation_component E validators a =
     rbind (to_validator_indices (aa_aggregation_bits a)) (\<lambda>voter_indices.
     if \<not> list_all (\<lambda>i. is_within_registry i (length validators)) voter_indices
     then Inl (SpecRejectionError VALIDATOR_INDEX_OUT_OF_RANGE)
     else rbind (attestation_keys validators voter_indices) (\<lambda>keys.
          rbind (attestation_data_root (ev_hash E) (aa_data a)) (\<lambda>r. Inr (keys, r, ad_slot (aa_data a)))))"

definition verify_signatures :: "env \<Rightarrow> signed_block \<Rightarrow> validator list \<Rightarrow> unit result" where
  "verify_signatures E sb validators =
     (let b = sb_block sb in
      rbind (rmap (attestation_component E validators) (bb_attestations (b_body b))) (\<lambda>components.
      if \<not> is_within_registry (b_proposer_index b) (length validators)
      then Inl (SpecRejectionError PROPOSER_INDEX_OUT_OF_RANGE)
      else rbind (py_index validators (b_proposer_index b)) (\<lambda>v.
           rbind (public_key_decode (v_proposal_public_key v)) (\<lambda>key.
           rbind (block_root (ev_hash E) b) (\<lambda>r.
             reraise AggregationError (SpecRejectionError INVALID_BLOCK_PROOF)
               (multi_verify E (sb_proof sb) (map fst components @ [[key]]) (map snd components @ [(r, b_slot b)])))))))"

section \<open>Ancestry\<close>

fun ancestor_loop :: "nat \<Rightarrow> (root, block) dict \<Rightarrow> checkpoint \<Rightarrow> root \<Rightarrow> bool result" where
  "ancestor_loop 0 blocks ancestor current_root = Inl Diverges"
| "ancestor_loop (Suc n) blocks ancestor current_root =
     (case dget blocks current_root of
        None \<Rightarrow> Inr False
      | Some current_block \<Rightarrow>
          if b_slot current_block = cp_slot ancestor then Inr (current_root = cp_root ancestor)
          else if b_slot current_block < cp_slot ancestor then Inr False
          else ancestor_loop n blocks ancestor (b_parent_root current_block))"

definition checkpoint_is_ancestor :: "store \<Rightarrow> checkpoint \<Rightarrow> checkpoint \<Rightarrow> bool result" where
  "checkpoint_is_ancestor st ancestor descendant =
     (if cp_slot ancestor > cp_slot descendant then Inr False
      else ancestor_loop (Suc (length (fc_blocks st))) (fc_blocks st) ancestor (cp_root descendant))"

section \<open>The anchor\<close>

definition create_store :: "env \<Rightarrow> state \<Rightarrow> block \<Rightarrow> nat option \<Rightarrow> store result" where
  "create_store E s anchor_block validator_index =
     rbind (state_root (ev_hash E) s) (\<lambda>computed_state_root.
     if b_state_root anchor_block \<noteq> computed_state_root then Inl (SpecRejectionError ANCHOR_STATE_ROOT_MISMATCH)
     else rbind (block_root (ev_hash E) anchor_block) (\<lambda>anchor_root.
          rbind (interval_from_slot (b_slot anchor_block)) (\<lambda>time.
            let anchor = \<lparr>cp_root = anchor_root, cp_slot = b_slot anchor_block\<rparr>
            in Inr \<lparr>fc_time = time, fc_config = st_config s, fc_head = anchor_root, fc_safe_target = anchor_root,
                    fc_latest_justified = anchor, fc_latest_finalized = anchor, fc_blocks = [(anchor_root, anchor_block)],
                    fc_states = [(anchor_root, s)], fc_validator_index = validator_index,
                    fc_attestation_signatures = [], fc_new_payloads = [], fc_known_payloads = []\<rparr>)))"

section \<open>Pruning\<close>

definition head_lives_under_finalized :: "store \<Rightarrow> attestation_data \<Rightarrow> bool result" where
  "head_lives_under_finalized st d =
     (if cp_slot (ad_head d) > cp_slot (fc_latest_finalized st)
      then checkpoint_is_ancestor st (fc_latest_finalized st) (ad_head d) else Inr False)"

definition prune_stale_attestation_data :: "store \<Rightarrow> store result" where
  "prune_stale_attestation_data st =
     rbind (rfilter (\<lambda>(d, _). head_lives_under_finalized st d) (fc_attestation_signatures st)) (\<lambda>signatures.
     rbind (rfilter (\<lambda>(d, _). head_lives_under_finalized st d) (fc_new_payloads st)) (\<lambda>new_payloads.
     rbind (rfilter (\<lambda>(d, _). head_lives_under_finalized st d) (fc_known_payloads st)) (\<lambda>known_payloads.
       Inr (st\<lparr>fc_attestation_signatures := signatures, fc_new_payloads := new_payloads, fc_known_payloads := known_payloads\<rparr>))))"

section \<open>Attestations from gossip\<close>

abbreviation reject_unless :: "bool \<Rightarrow> rejection_reason \<Rightarrow> unit result" where
  "reject_unless c r \<equiv> require c (SpecRejectionError r)"

definition validate_attestation :: "store \<Rightarrow> attestation_data \<Rightarrow> unit result" where
  "validate_attestation st d =
     (let source = ad_source d; target = ad_target d; head = ad_head d; blocks = fc_blocks st in
      rbind (reject_unless (dget blocks (cp_root source) \<noteq> None) UNKNOWN_SOURCE_BLOCK) (\<lambda>_.
      rbind (reject_unless (dget blocks (cp_root target) \<noteq> None) UNKNOWN_TARGET_BLOCK) (\<lambda>_.
      rbind (reject_unless (dget blocks (cp_root head) \<noteq> None) UNKNOWN_HEAD_BLOCK) (\<lambda>_.
      rbind (reject_unless (cp_slot source \<le> cp_slot target) SOURCE_AFTER_TARGET) (\<lambda>_.
      rbind (reject_unless (cp_slot target \<le> cp_slot head) HEAD_OLDER_THAN_TARGET) (\<lambda>_.
      rbind (dlookup blocks (cp_root source)) (\<lambda>b. rbind (reject_unless (b_slot b = cp_slot source) SOURCE_SLOT_MISMATCH) (\<lambda>_.
      rbind (dlookup blocks (cp_root target)) (\<lambda>b. rbind (reject_unless (b_slot b = cp_slot target) TARGET_SLOT_MISMATCH) (\<lambda>_.
      rbind (dlookup blocks (cp_root head)) (\<lambda>b. rbind (reject_unless (b_slot b = cp_slot head) HEAD_SLOT_MISMATCH) (\<lambda>_.
      rbind (checkpoint_is_ancestor st source target) (\<lambda>c. rbind (reject_unless c SOURCE_NOT_ANCESTOR_OF_TARGET) (\<lambda>_.
      rbind (checkpoint_is_ancestor st target head) (\<lambda>c. rbind (reject_unless c TARGET_NOT_ANCESTOR_OF_HEAD) (\<lambda>_.
      rbind (reject_unless (cp_slot head \<le> ad_slot d) ATTESTATION_SLOT_BEFORE_HEAD) (\<lambda>_.
        let admission_horizon_interval = fc_time st + GOSSIP_DISPARITY_INTERVALS;
            max_admissible_slot = admission_horizon_interval div INTERVALS_PER_SLOT
        in reject_unless (ad_slot d \<le> max_admissible_slot) ATTESTATION_TOO_FAR_IN_FUTURE)))))))))))))))))"

text \<open>The set stored for a vote, empty when there is none.\<close>

definition dset :: "('k, 'v set) dict \<Rightarrow> 'k \<Rightarrow> 'v set" where
  "dset d k = (case dget d k of None \<Rightarrow> {} | Some s \<Rightarrow> s)"

definition on_gossip_attestation :: "env \<Rightarrow> store \<Rightarrow> signed_attestation \<Rightarrow> bool \<Rightarrow> store result" where
  "on_gossip_attestation E st sa is_aggregator =
     (let validator_index = sa_validator_index sa; d = sa_data sa in
      rbind (validate_attestation st d) (\<lambda>_.
      case dget (fc_states st) (cp_root (ad_target d)) of
        None \<Rightarrow> Inl AssertionError
      | Some target_post_state \<Rightarrow>
          rbind (reject_unless (is_within_registry validator_index (length (st_validators target_post_state))) VALIDATOR_NOT_IN_STATE) (\<lambda>_.
          rbind (py_index (st_validators target_post_state) validator_index) (\<lambda>v.
          rbind (public_key_decode (v_attestation_public_key v)) (\<lambda>public_key.
          rbind (attestation_data_root (ev_hash E) d) (\<lambda>message.
          rbind (reject_unless (ev_verify E public_key (ad_slot d) message (sa_signature sa)) INVALID_SIGNATURE) (\<lambda>_.
          if \<not> is_aggregator then Inr st
          else Inr (st\<lparr>fc_attestation_signatures := dput (fc_attestation_signatures st) d
                 (insert (validator_index, sa_signature sa) (dset (fc_attestation_signatures st) d))\<rparr>))))))))"

definition on_gossip_aggregated_attestation :: "env \<Rightarrow> store \<Rightarrow> signed_aggregate \<Rightarrow> store result" where
  "on_gossip_aggregated_attestation E st sg =
     (let d = sg_data sg; aggregated_proof = sg_proof sg in
      rbind (validate_attestation st d) (\<lambda>_.
      rbind (to_validator_indices (sp_participants aggregated_proof)) (\<lambda>validator_indices.
      case dget (fc_states st) (cp_root (ad_target d)) of
        None \<Rightarrow> Inl AssertionError
      | Some target_post_state \<Rightarrow>
          let validators = st_validators target_post_state in
          rbind (reject_unless (list_all (\<lambda>i. is_within_registry i (length validators)) validator_indices) VALIDATOR_NOT_IN_STATE) (\<lambda>_.
          rbind (attestation_keys validators validator_indices) (\<lambda>public_keys.
          rbind (attestation_data_root (ev_hash E) d) (\<lambda>message.
          rbind (reraise AggregationError (SpecRejectionError INVALID_SIGNATURE)
                   (single_verify E aggregated_proof public_keys message (ad_slot d))) (\<lambda>_.
            Inr (st\<lparr>fc_new_payloads := dput (fc_new_payloads st) d (insert aggregated_proof (dset (fc_new_payloads st) d))\<rparr>))))))))"

section \<open>Latest votes and weights\<close>

definition record_vote :: "attestation_data \<Rightarrow> nat \<Rightarrow> (nat, attestation_data) dict \<Rightarrow> (nat, attestation_data) dict" where
  "record_vote d i votes =
     (case dget votes i of
        None \<Rightarrow> dput votes i d
      | Some previous_vote \<Rightarrow> if ad_slot previous_vote < ad_slot d then dput votes i d else votes)"

definition extract_attestations :: "env \<Rightarrow> payloads \<Rightarrow> slot \<Rightarrow> (nat, attestation_data) dict result" where
  "extract_attestations E payloads latest_finalized_slot =
     rfold (\<lambda>(d, proofs) votes.
       if cp_slot (ad_head d) \<le> latest_finalized_slot then Inr votes
       else rfold (\<lambda>p votes. rbind (to_validator_indices (sp_participants p)) (\<lambda>indices. Inr (fold (record_vote d) indices votes)))
              (ev_proofs E proofs) votes) payloads []"

text \<open>A \<^verbatim>\<open>defaultdict(int)\<close>.\<close>

definition weight :: "(root, nat) dict \<Rightarrow> root \<Rightarrow> nat" where
  "weight w r = (case dget w r of None \<Rightarrow> 0 | Some n \<Rightarrow> n)"

fun credit_loop :: "nat \<Rightarrow> (root, block) dict \<Rightarrow> slot \<Rightarrow> root \<Rightarrow> (root, nat) dict \<Rightarrow> (root, nat) dict result" where
  "credit_loop 0 blocks start_slot current_root weights = Inl Diverges"
| "credit_loop (Suc n) blocks start_slot current_root weights =
     (case dget blocks current_root of
        None \<Rightarrow> Inr weights
      | Some current_block \<Rightarrow>
          if b_slot current_block \<le> start_slot then Inr weights
          else credit_loop n blocks start_slot (b_parent_root current_block)
                 (dput weights current_root (weight weights current_root + 1)))"

definition accumulate_ancestor_weights :: "store \<Rightarrow> (nat, attestation_data) dict \<Rightarrow> slot \<Rightarrow> (root, nat) dict result" where
  "accumulate_ancestor_weights st attestations start_slot =
     rfold (\<lambda>(_, d). credit_loop (Suc (length (fc_blocks st))) (fc_blocks st) start_slot (cp_root (ad_head d))) attestations []"

definition compute_block_weights :: "env \<Rightarrow> store \<Rightarrow> (root, nat) dict result" where
  "compute_block_weights E st =
     rbind (extract_attestations E (fc_known_payloads st) (cp_slot (fc_latest_finalized st))) (\<lambda>latest_votes.
       accumulate_ancestor_weights st latest_votes (cp_slot (fc_latest_finalized st)))"

section \<open>LMD-GHOST\<close>

definition ghost_children :: "(root, block) dict \<Rightarrow> (root, nat) dict \<Rightarrow> nat option \<Rightarrow> root \<Rightarrow> root list" where
  "ghost_children blocks weights min_score parent =
     map fst (filter (\<lambda>(r, b). (case min_score of None \<Rightarrow> True | Some m \<Rightarrow> m \<le> weight weights r) \<and> b_parent_root b = parent) blocks)"

fun ghost_loop :: "nat \<Rightarrow> (root, block) dict \<Rightarrow> (root, nat) dict \<Rightarrow> nat option \<Rightarrow> root \<Rightarrow> root result" where
  "ghost_loop 0 blocks weights min_score head = Inl Diverges"
| "ghost_loop (Suc n) blocks weights min_score head =
     (case max_by (\<lambda>child_root. (weight weights child_root, child_root)) (ghost_children blocks weights min_score head) of
        None \<Rightarrow> Inr head
      | Some best \<Rightarrow> ghost_loop n blocks weights min_score best)"

definition compute_lmd_ghost_head :: "store \<Rightarrow> root \<Rightarrow> (nat, attestation_data) dict \<Rightarrow> nat option \<Rightarrow> root result" where
  "compute_lmd_ghost_head st start_root attestations min_score =
     (case dget (fc_blocks st) start_root of
        None \<Rightarrow> Inl AssertionError
      | Some start_block \<Rightarrow>
          rbind (accumulate_ancestor_weights st attestations (b_slot start_block)) (\<lambda>weights.
            ghost_loop (Suc (length (fc_blocks st))) (fc_blocks st) weights min_score start_root))"

fun finalized_loop :: "nat \<Rightarrow> (root, block) dict \<Rightarrow> slot \<Rightarrow> root \<Rightarrow> root result" where
  "finalized_loop 0 blocks finalized_slot finalized_root = Inl Diverges"
| "finalized_loop (Suc n) blocks finalized_slot finalized_root =
     (case dget blocks finalized_root of
        None \<Rightarrow> Inr finalized_root
      | Some b \<Rightarrow>
          if b_slot b > finalized_slot \<and> dget blocks (b_parent_root b) \<noteq> None
          then finalized_loop n blocks finalized_slot (b_parent_root b) else Inr finalized_root)"

definition update_head :: "env \<Rightarrow> store \<Rightarrow> store result" where
  "update_head E st =
     rbind (extract_attestations E (fc_known_payloads st) (cp_slot (fc_latest_finalized st))) (\<lambda>latest_votes.
     rbind (compute_lmd_ghost_head st (cp_root (fc_latest_justified st)) latest_votes None) (\<lambda>new_head.
     rbind (dlookup (fc_states st) new_head) (\<lambda>head_state.
       let finalized_slot = cp_slot (st_latest_finalized head_state) in
       rbind (finalized_loop (Suc (length (fc_blocks st))) (fc_blocks st) finalized_slot new_head) (\<lambda>finalized_root.
       rbind (dlookup (fc_blocks st) finalized_root) (\<lambda>b.
         Inr (st\<lparr>fc_head := new_head,
                 fc_latest_finalized := (if b_slot b = finalized_slot
                   then \<lparr>cp_root = finalized_root, cp_slot = finalized_slot\<rparr> else fc_latest_finalized st)\<rparr>))))))"

definition accept_new_attestations :: "env \<Rightarrow> store \<Rightarrow> store result" where
  "accept_new_attestations E st =
     (let known_payloads = fc_known_payloads st;
          new_payloads = fc_new_payloads st;
          merged = dict_of (map (\<lambda>d. (d, dset known_payloads d \<union> dset new_payloads d)) (dkeys known_payloads @ dkeys new_payloads))
      in update_head E (st\<lparr>fc_known_payloads := merged, fc_new_payloads := []\<rparr>))"

text \<open>The threshold \<^verbatim>\<open>math.ceil(num_validators * 2 / 3)\<close>; the quotient of a registry size is exact enough in a float.\<close>

definition update_safe_target :: "env \<Rightarrow> store \<Rightarrow> store result" where
  "update_safe_target E st =
     rbind (dlookup (fc_states st) (fc_head st)) (\<lambda>head_state.
       let num_validators = length (st_validators head_state);
           min_target_score = ceil_div (num_validators * 2) 3
       in rbind (extract_attestations E (fc_new_payloads st) (cp_slot (fc_latest_finalized st))) (\<lambda>latest_votes.
          rbind (compute_lmd_ghost_head st (cp_root (fc_latest_justified st)) latest_votes (Some min_target_score)) (\<lambda>safe_target.
            Inr (st\<lparr>fc_safe_target := safe_target\<rparr>))))"

section \<open>Blocks\<close>

text \<open>\<^verbatim>\<open>d | e\<close>\<close>

definition dunion :: "('k, 'v) dict \<Rightarrow> ('k, 'v) dict \<Rightarrow> ('k, 'v) dict" where
  "dunion d e = fold (\<lambda>(k, v) d. dput d k v) e d"

definition on_block :: "env \<Rightarrow> store \<Rightarrow> signed_block \<Rightarrow> store result" where
  "on_block E st sb =
     (let b = sb_block sb in
      rbind (block_root (ev_hash E) b) (\<lambda>r.
      if dget (fc_blocks st) r \<noteq> None then Inr st
      else case dget (fc_states st) (b_parent_root b) of
             None \<Rightarrow> Inl (SpecRejectionError UNKNOWN_PARENT_BLOCK)
           | Some parent_state \<Rightarrow>
               let aggregated_attestations = bb_attestations (b_body b) in
               rbind (reject_unless (card (set (map aa_data aggregated_attestations)) = length aggregated_attestations)
                        DUPLICATE_ATTESTATION_DATA) (\<lambda>_.
               rbind (verify_signatures E sb (st_validators parent_state)) (\<lambda>_.
               rbind (state_transition (ev_hash E) parent_state b) (\<lambda>post_state.
               let st1 = st\<lparr>fc_blocks := dput (fc_blocks st) r b, fc_states := dput (fc_states st) r post_state,
                     fc_latest_justified := advance_to (fc_latest_justified st) (st_latest_justified post_state),
                     fc_known_payloads := dunion (dict_of (map (\<lambda>a. (aa_data a, {})) aggregated_attestations)) (fc_known_payloads st)\<rparr>
               in rbind (update_head E st1) (\<lambda>st2.
                  if cp_slot (fc_latest_finalized st2) > cp_slot (fc_latest_finalized st)
                  then prune_stale_attestation_data st2 else Inr st2))))))"

section \<open>The block tree\<close>

text \<open>A block comes after its parent, whenever the parent is known.\<close>

definition tree_ok :: "(root, block) dict \<Rightarrow> bool" where
  "tree_ok blocks \<longleftrightarrow> dwf blocks \<and>
     (\<forall>r b p. dget blocks r = Some b \<and> dget blocks (b_parent_root b) = Some p \<longrightarrow> b_slot p < b_slot b)"

definition parent_link :: "(root, block) dict \<Rightarrow> root \<Rightarrow> root \<Rightarrow> bool" where
  "parent_link blocks p r \<longleftrightarrow> (\<exists>b. dget blocks r = Some b \<and> b_parent_root b = p)"

definition descends :: "(root, block) dict \<Rightarrow> root \<Rightarrow> root \<Rightarrow> bool" where
  "descends blocks a r \<longleftrightarrow> dget blocks a \<noteq> None \<and> (parent_link blocks)\<^sup>*\<^sup>* a r"

definition block_slot :: "(root, block) dict \<Rightarrow> root \<Rightarrow> slot" where
  "block_slot blocks r = (case dget blocks r of None \<Rightarrow> 0 | Some b \<Rightarrow> b_slot b)"

lemma block_slot_Some [simp]: "dget blocks r = Some b \<Longrightarrow> block_slot blocks r = b_slot b"
  by (simp add: block_slot_def)

lemma descends_refl: "dget blocks r = Some b \<Longrightarrow> descends blocks r r"
  by (simp add: descends_def)

lemma descends_known: "descends blocks a r \<Longrightarrow> dget blocks r \<noteq> None"
proof -
  assume "descends blocks a r"
  then have "(parent_link blocks)\<^sup>*\<^sup>* a r" "dget blocks a \<noteq> None" by (simp_all add: descends_def)
  then show ?thesis by (induction rule: rtranclp_induct) (auto simp: parent_link_def)
qed

lemma descends_trans: "descends blocks a b \<Longrightarrow> descends blocks b c \<Longrightarrow> descends blocks a c"
  by (auto simp: descends_def)

lemma descends_step:
  assumes "dget blocks r = Some b"
  shows "descends blocks a r \<longleftrightarrow> a = r \<or> descends blocks a (b_parent_root b)"
proof -
  have "(parent_link blocks)\<^sup>*\<^sup>* a r \<longleftrightarrow> a = r \<or> (parent_link blocks)\<^sup>*\<^sup>* a (b_parent_root b)"
  proof
    assume "(parent_link blocks)\<^sup>*\<^sup>* a r"
    then show "a = r \<or> (parent_link blocks)\<^sup>*\<^sup>* a (b_parent_root b)"
      using assms by (cases rule: rtranclp.cases) (auto simp: parent_link_def)
  next
    assume "a = r \<or> (parent_link blocks)\<^sup>*\<^sup>* a (b_parent_root b)"
    then show "(parent_link blocks)\<^sup>*\<^sup>* a r"
      using assms by (auto simp: parent_link_def intro: rtranclp.rtrancl_into_rtrancl)
  qed
  with assms show ?thesis by (auto simp: descends_def)
qed

lemma descends_unknown: "dget blocks r = None \<Longrightarrow> \<not> descends blocks a r"
  using descends_known by blast

lemma descends_slot:
  assumes "tree_ok blocks" and "descends blocks a r"
  shows "a = r \<or> block_slot blocks a < block_slot blocks r"
proof -
  have "(parent_link blocks)\<^sup>*\<^sup>* a r" and a: "dget blocks a \<noteq> None" using assms(2) by (simp_all add: descends_def)
  then show ?thesis
  proof (induction rule: rtranclp_induct)
    case (step y z)
    then obtain b where b: "dget blocks z = Some b" "b_parent_root b = y" by (auto simp: parent_link_def)
    have "dget blocks y \<noteq> None"
      using step.hyps(1) a descends_known [of blocks a y] by (simp add: descends_def)
    then have "block_slot blocks y < block_slot blocks z"
      using assms(1) b by (auto simp: tree_ok_def)
    with step.IH a show ?case by auto
  qed simp
qed

lemma descends_linear:
  assumes "descends blocks a r" and "descends blocks a' r"
  shows "descends blocks a a' \<or> descends blocks a' a"
proof -
  have "(parent_link blocks)\<^sup>*\<^sup>* a r" using assms(1) by (simp add: descends_def)
  then show ?thesis using assms(2)
  proof (induction rule: rtranclp_induct)
    case base
    then show ?case by simp
  next
    case (step y z)
    obtain b where b: "dget blocks z = Some b" "b_parent_root b = y" using step.hyps(2) by (auto simp: parent_link_def)
    from step.prems b consider "a' = z" | "descends blocks a' y" using descends_step [OF b(1), of a'] by auto
    then show ?case
    proof cases
      case 1
      have "descends blocks a z"
        using step.hyps assms(1) by (auto simp: descends_def intro: rtranclp.rtrancl_into_rtrancl)
      with 1 show ?thesis by simp
    next
      case 2
      then show ?thesis by (rule step.IH)
    qed
  qed
qed

lemma ancestor_unique:
  assumes "tree_ok blocks" and "descends blocks a r" and "descends blocks a' r" and "block_slot blocks a = block_slot blocks a'"
  shows "a = a'"
  using descends_linear [OF assms(2,3)] descends_slot [OF assms(1)] assms(4) by (metis less_irrefl)

section \<open>Walks end\<close>

definition below :: "(root, block) dict \<Rightarrow> slot \<Rightarrow> nat" where
  "below blocks k = length (filter (\<lambda>(_, b). b_slot b < k) blocks)"

definition above :: "(root, block) dict \<Rightarrow> slot \<Rightarrow> nat" where
  "above blocks k = length (filter (\<lambda>(_, b). k < b_slot b) blocks)"

lemma length_filter_mono_less:
  assumes "\<And>x. x \<in> set xs \<Longrightarrow> P x \<Longrightarrow> Q x" and "x \<in> set xs" and "Q x" and "\<not> P x"
  shows "length (filter P xs) < length (filter Q xs)"
proof -
  have "filter P xs = filter P (filter Q xs)" using assms(1) by (induction xs) auto
  moreover have "length (filter P (filter Q xs)) < length (filter Q xs)"
    by (rule length_filter_less) (use assms(2-4) in auto)
  ultimately show ?thesis by simp
qed

lemma below_less: "dget blocks r = Some b \<Longrightarrow> b_slot b < k \<Longrightarrow> below blocks (b_slot b) < below blocks k"
  unfolding below_def by (rule length_filter_mono_less [where x = "(r, b)"]) (auto dest: dget_in_set)

lemma below_length: "dget blocks r = Some b \<Longrightarrow> below blocks (b_slot b) < length blocks"
  unfolding below_def by (rule length_filter_less [where x = "(r, b)"]) (auto dest: dget_in_set)

lemma above_less: "dget blocks r = Some b \<Longrightarrow> k < b_slot b \<Longrightarrow> above blocks (b_slot b) < above blocks k"
  unfolding above_def by (rule length_filter_mono_less [where x = "(r, b)"]) (auto dest: dget_in_set)

text \<open>Enough steps for a walk towards the anchor.\<close>

definition steps_ok :: "nat \<Rightarrow> (root, block) dict \<Rightarrow> root \<Rightarrow> bool" where
  "steps_ok n blocks r \<longleftrightarrow> (case dget blocks r of None \<Rightarrow> 0 < n | Some b \<Rightarrow> below blocks (b_slot b) + 1 < n)"

lemma steps_ok_init: "steps_ok (Suc (length blocks)) blocks r"
  using below_length [of blocks r] by (auto simp: steps_ok_def split: option.split)

lemma steps_ok_parent:
  assumes "tree_ok blocks" and "steps_ok (Suc n) blocks r" and "dget blocks r = Some b"
  shows "steps_ok n blocks (b_parent_root b)"
proof (cases "dget blocks (b_parent_root b)")
  case None
  then show ?thesis using assms(2,3) by (simp add: steps_ok_def)
next
  case (Some p)
  then have "below blocks (b_slot p) < below blocks (b_slot b)"
    using assms(1,3) by (intro below_less) (auto simp: tree_ok_def)
  then show ?thesis using Some assms(2,3) by (simp add: steps_ok_def)
qed

lemma ancestor_loop_exact:
  assumes "tree_ok blocks"
  shows "steps_ok n blocks r \<Longrightarrow> ancestor_loop n blocks a r =
    Inr (descends blocks (cp_root a) r \<and> block_slot blocks (cp_root a) = cp_slot a)"
proof (induction n arbitrary: r)
  case 0
  then show ?case by (simp add: steps_ok_def split: option.splits)
next
  case (Suc n)
  show ?case
  proof (cases "dget blocks r")
    case None
    then show ?thesis by (simp add: descends_unknown)
  next
    case (Some b)
    have IH: "ancestor_loop n blocks a (b_parent_root b) =
        Inr (descends blocks (cp_root a) (b_parent_root b) \<and> block_slot blocks (cp_root a) = cp_slot a)"
      by (rule Suc.IH [OF steps_ok_parent [OF assms Suc.prems Some]])
    note slot = descends_slot [OF assms, of "cp_root a" r]
    consider (at) "b_slot b = cp_slot a" | (low) "b_slot b < cp_slot a" | (high) "cp_slot a < b_slot b" by linarith
    then show ?thesis
    proof cases
      case at
      then show ?thesis using slot Some descends_refl [OF Some] by auto
    next
      case low
      then show ?thesis using slot Some by auto
    next
      case high
      then show ?thesis using Some IH descends_step [OF Some, of "cp_root a"] by auto
    qed
  qed
qed

lemma checkpoint_is_ancestor_iff:
  assumes "tree_ok (fc_blocks st)"
  shows "checkpoint_is_ancestor st a d = Inr (cp_slot a \<le> cp_slot d \<and>
    descends (fc_blocks st) (cp_root a) (cp_root d) \<and> block_slot (fc_blocks st) (cp_root a) = cp_slot a)"
  using ancestor_loop_exact [OF assms steps_ok_init] by (simp add: checkpoint_is_ancestor_def)

section \<open>Weights\<close>

lemma weight_put: "weight (dput w r n) x = (if x = r then n else weight w x)"
  by (simp add: weight_def dict.get_put)

lemma credit_loop_exact:
  assumes "tree_ok blocks"
  shows "steps_ok n blocks r \<Longrightarrow> \<exists>w'. credit_loop n blocks start r w = Inr w' \<and>
    (\<forall>x. weight w' x = weight w x + (if descends blocks x r \<and> start < block_slot blocks x then 1 else 0))"
proof (induction n arbitrary: r w)
  case 0
  then show ?case by (simp add: steps_ok_def split: option.splits)
next
  case (Suc n)
  show ?case
  proof (cases "dget blocks r")
    case None
    then show ?thesis by (simp add: descends_unknown)
  next
    case (Some b)
    show ?thesis
    proof (cases "b_slot b \<le> start")
      case True
      have "\<not> start < block_slot blocks x" if "descends blocks x r" for x
        using descends_slot [OF assms that] Some True by auto
      with True Some show ?thesis by auto
    next
      case False
      obtain w' where w': "credit_loop n blocks start (b_parent_root b) (dput w r (weight w r + 1)) = Inr w'"
        "weight w' x = weight (dput w r (weight w r + 1)) x +
           (if descends blocks x (b_parent_root b) \<and> start < block_slot blocks x then 1 else 0)" for x
        using Suc.IH [OF steps_ok_parent [OF assms Suc.prems Some], of "dput w r (weight w r + 1)"] by blast
      have own: "\<not> descends blocks r (b_parent_root b)"
      proof
        assume d: "descends blocks r (b_parent_root b)"
        then obtain p where "dget blocks (b_parent_root b) = Some p" using descends_known by blast
        then have "block_slot blocks (b_parent_root b) < block_slot blocks r" using assms Some by (auto simp: tree_ok_def)
        with descends_slot [OF assms d] show False by auto
      qed
      have "weight w' x = weight w x + (if descends blocks x r \<and> start < block_slot blocks x then 1 else 0)" for x
        unfolding w'(2) weight_put using own descends_step [OF Some, of x] Some False by auto
      with w'(1) Some False show ?thesis by auto
    qed
  qed
qed

text \<open>The votes that support a block: those whose head is the block or descends from it.\<close>

definition supporters :: "(root, block) dict \<Rightarrow> (nat, attestation_data) dict \<Rightarrow> root \<Rightarrow> nat" where
  "supporters blocks votes x = length (filter (\<lambda>(_, d). descends blocks x (cp_root (ad_head d))) votes)"

lemma credit_all_exact:
  assumes "tree_ok blocks"
  shows "\<exists>w'. rfold (\<lambda>(_, d). credit_loop (Suc (length blocks)) blocks start (cp_root (ad_head d))) votes w = Inr w' \<and>
    (\<forall>x. weight w' x = weight w x + (if start < block_slot blocks x then supporters blocks votes x else 0))"
proof (induction votes arbitrary: w)
  case (Cons v votes)
  obtain i d where v: "v = (i, d)" by fastforce
  obtain w1 where w1: "credit_loop (Suc (length blocks)) blocks start (cp_root (ad_head d)) w = Inr w1"
    "\<And>x. weight w1 x = weight w x + (if descends blocks x (cp_root (ad_head d)) \<and> start < block_slot blocks x then 1 else 0)"
    using credit_loop_exact [OF assms steps_ok_init] by blast
  obtain w2 where w2: "rfold (\<lambda>(_, d). credit_loop (Suc (length blocks)) blocks start (cp_root (ad_head d))) votes w1 = Inr w2"
    "\<And>x. weight w2 x = weight w1 x + (if start < block_slot blocks x then supporters blocks votes x else 0)"
    using Cons.IH by blast
  show ?case
    by (rule exI [of _ w2]) (simp add: v w1 w2 supporters_def del: credit_loop.simps)
qed (simp add: supporters_def)

lemma accumulate_exact:
  assumes "tree_ok (fc_blocks st)"
  shows "\<exists>w. accumulate_ancestor_weights st votes start = Inr w \<and>
    (\<forall>x. weight w x = (if start < block_slot (fc_blocks st) x then supporters (fc_blocks st) votes x else 0))"
  using credit_all_exact [OF assms, of start votes "[]"]
  by (simp add: accumulate_ancestor_weights_def weight_def [of "[]"] dget_def del: credit_loop.simps)

section \<open>The greedy walk\<close>

text \<open>
  The rule, stated on the tree: at each block take the child that is heaviest, and among equally heavy ones the one with
  the largest root; stop where no child qualifies.
\<close>

definition qualifies :: "(root, block) dict \<Rightarrow> (root \<Rightarrow> nat) \<Rightarrow> nat option \<Rightarrow> root \<Rightarrow> root \<Rightarrow> bool" where
  "qualifies blocks wt min_score parent c \<longleftrightarrow> parent_link blocks parent c \<and> (\<forall>m. min_score = Some m \<longrightarrow> m \<le> wt c)"

inductive heaviest :: "(root, block) dict \<Rightarrow> (root \<Rightarrow> nat) \<Rightarrow> nat option \<Rightarrow> root \<Rightarrow> root \<Rightarrow> bool"
  for blocks wt min_score where
  heaviest_leaf: "\<forall>c. \<not> qualifies blocks wt min_score h c \<Longrightarrow> heaviest blocks wt min_score h h"
| heaviest_child: "qualifies blocks wt min_score h c \<Longrightarrow>
    \<forall>c'. qualifies blocks wt min_score h c' \<and> c' \<noteq> c \<longrightarrow> wt c' < wt c \<or> (wt c' = wt c \<and> c' < c) \<Longrightarrow>
    heaviest blocks wt min_score c r \<Longrightarrow> heaviest blocks wt min_score h r"

inductive_cases heaviestE: "heaviest blocks wt min_score h r"

lemma ghost_children_iff:
  assumes "dwf blocks"
  shows "c \<in> set (ghost_children blocks w min_score h) \<longleftrightarrow> qualifies blocks (weight w) min_score h c"
proof -
  have mem: "(c, b) \<in> set blocks \<longleftrightarrow> dget blocks c = Some b" for b
    using assms by (auto simp: dwf_def dget_def)
  show ?thesis
    by (cases min_score) (auto simp: ghost_children_def qualifies_def parent_link_def mem image_iff)
qed

lemma best_child:
  "max_by (\<lambda>r. (weight w r, r)) cs = Some c \<longleftrightarrow> c \<in> set cs \<and>
     (\<forall>x \<in> set cs. x \<noteq> c \<longrightarrow> weight w x < weight w c \<or> (weight w x = weight w c \<and> x < c))"
proof -
  have "inj_on (\<lambda>r. (weight w r, r)) (set cs)" by (simp add: inj_on_def)
  from max_by_iff [OF this] show ?thesis by (auto simp: less_prod_def le_less)
qed

lemma ghost_loop_exact:
  assumes tree: "tree_ok blocks"
  shows "dget blocks h = Some b \<Longrightarrow> above blocks (b_slot b) < n \<Longrightarrow>
    \<exists>r. ghost_loop n blocks w min_score h = Inr r \<and> heaviest blocks (weight w) min_score h r \<and> descends blocks h r"
proof (induction n arbitrary: h b)
  case (Suc n)
  let ?cs = "ghost_children blocks w min_score h"
  have wf: "dwf blocks" using tree by (simp add: tree_ok_def)
  note iff = ghost_children_iff [OF wf, of _ w min_score h]
  show ?case
  proof (cases "max_by (\<lambda>r. (weight w r, r)) ?cs")
    case None
    then have "heaviest blocks (weight w) min_score h h"
      using iff by (intro heaviest_leaf) auto
    with None descends_refl [OF Suc.prems(1)] show ?thesis by (intro exI [of _ h]) simp
  next
    case (Some c)
    note best = iffD1 [OF best_child Some]
    have q: "qualifies blocks (weight w) min_score h c" using best iff by blast
    then obtain cb where cb: "dget blocks c = Some cb" "b_parent_root cb = h" by (auto simp: qualifies_def parent_link_def)
    have lt: "b_slot b < b_slot cb" using tree cb Suc.prems(1) by (auto simp: tree_ok_def)
    have "above blocks (b_slot cb) < n" using above_less [OF cb(1) lt] Suc.prems(2) by simp
    then obtain r where r: "ghost_loop n blocks w min_score c = Inr r" "heaviest blocks (weight w) min_score c r"
      "descends blocks c r" using Suc.IH [OF cb(1)] by blast
    have "heaviest blocks (weight w) min_score h r"
      by (rule heaviest_child [OF q _ r(2)]) (use best iff in auto)
    moreover have "descends blocks h c" using descends_step [OF cb(1), of h] descends_refl [OF Suc.prems(1)] cb(2) by simp
    ultimately show ?thesis using r Some descends_trans by (intro exI [of _ r]) simp
  qed
qed simp

text \<open>Only the weights of the descendants of the start matter, and they all lie above its slot.\<close>

lemma heaviest_cong:
  assumes eq: "\<And>x c. descends blocks s x \<Longrightarrow> parent_link blocks x c \<Longrightarrow> wt c = wt' c"
  shows "heaviest blocks wt ms h r \<Longrightarrow> descends blocks s h \<Longrightarrow> heaviest blocks wt' ms h r"
proof (induction rule: heaviest.induct)
  case (heaviest_leaf h)
  have "\<forall>c. \<not> qualifies blocks wt' ms h c" using heaviest_leaf eq [of h] by (auto simp: qualifies_def)
  then show ?case by (rule heaviest.heaviest_leaf)
next
  case (heaviest_child h c r)
  have q: "qualifies blocks wt' ms h x \<longleftrightarrow> qualifies blocks wt ms h x" for x
    using eq [OF heaviest_child.prems, of x] by (auto simp: qualifies_def)
  have w: "wt x = wt' x" if "qualifies blocks wt ms h x" for x
    using eq [OF heaviest_child.prems, of x] that by (simp add: qualifies_def)
  have "parent_link blocks h c" using heaviest_child.hyps(1) by (simp add: qualifies_def)
  then have "descends blocks s c"
    using heaviest_child.prems unfolding descends_def by (metis rtranclp.rtrancl_into_rtrancl)
  then have r: "heaviest blocks wt' ms c r" by (rule heaviest_child.IH)
  have "\<forall>c'. qualifies blocks wt' ms h c' \<and> c' \<noteq> c \<longrightarrow> wt' c' < wt' c \<or> (wt' c' = wt' c \<and> c' < c)"
    using heaviest_child.hyps(2) w [OF heaviest_child.hyps(1)] unfolding q by (metis w)
  with r heaviest_child.hyps(1) q show ?case by (blast intro: heaviest.heaviest_child)
qed

lemma compute_lmd_ghost_head_exact:
  assumes tree: "tree_ok (fc_blocks st)" and start: "dget (fc_blocks st) start = Some b"
  shows "\<exists>r. compute_lmd_ghost_head st start votes min_score = Inr r \<and>
    heaviest (fc_blocks st) (supporters (fc_blocks st) votes) min_score start r \<and> descends (fc_blocks st) start r"
proof -
  let ?B = "fc_blocks st"
  obtain w where w: "accumulate_ancestor_weights st votes (b_slot b) = Inr w"
    "\<And>x. weight w x = (if b_slot b < block_slot ?B x then supporters ?B votes x else 0)"
    using accumulate_exact [OF tree] by blast
  have "above ?B (b_slot b) < Suc (length ?B)" by (simp add: above_def le_imp_less_Suc)
  then obtain r where r: "ghost_loop (Suc (length ?B)) ?B w min_score start = Inr r"
    "heaviest ?B (weight w) min_score start r" "descends ?B start r"
    using ghost_loop_exact [OF tree start] by blast
  have "weight w c = supporters ?B votes c" if x: "descends ?B start x" and c: "parent_link ?B x c" for x c
  proof -
    obtain cb where cb: "dget ?B c = Some cb" "b_parent_root cb = x" using c by (auto simp: parent_link_def)
    obtain xb where xb: "dget ?B x = Some xb" using descends_known [OF x] by blast
    have "b_slot xb < b_slot cb" using tree cb xb by (auto simp: tree_ok_def)
    moreover have "b_slot b \<le> b_slot xb" using descends_slot [OF tree x] start xb by auto
    ultimately show ?thesis using w(2) [of c] cb by simp
  qed
  then have "heaviest ?B (supporters ?B votes) min_score start r"
    by (rule heaviest_cong [OF _ r(2) descends_refl [OF start]])
  with w(1) r start show ?thesis by (simp add: compute_lmd_ghost_head_def del: ghost_loop.simps)
qed

section \<open>Latest votes\<close>

text \<open>The limits of the container's fields, and a bitfield that names someone.\<close>

definition single_proof_ok :: "single_proof \<Rightarrow> bool" where
  "single_proof_ok p \<longleftrightarrow> length (sp_participants p) \<le> VALIDATOR_REGISTRY_LIMIT \<and> length (sp_proof p) \<le> PROOF_LIMIT"

definition proof_ok :: "single_proof \<Rightarrow> bool" where
  "proof_ok p \<longleftrightarrow> single_proof_ok p \<and> to_validator_indices (sp_participants p) = Inr (set_indices (sp_participants p))"

definition payloads_ok :: "payloads \<Rightarrow> bool" where
  "payloads_ok payloads \<longleftrightarrow> dwf payloads \<and> (\<forall>d proofs. dget payloads d = Some proofs \<longrightarrow> finite proofs \<and> (\<forall>p \<in> proofs. proof_ok p))"

text \<open>A validator casts a vote when some proof for it names the validator and its head is above the finalized slot.\<close>

definition casts :: "payloads \<Rightarrow> slot \<Rightarrow> nat \<Rightarrow> attestation_data \<Rightarrow> bool" where
  "casts payloads finalized_slot i d \<longleftrightarrow> finalized_slot < cp_slot (ad_head d) \<and>
     (\<exists>p \<in> dset payloads d. i \<in> set (set_indices (sp_participants p)))"

definition vote_list :: "env \<Rightarrow> slot \<Rightarrow> payloads \<Rightarrow> (attestation_data \<times> nat) list" where
  "vote_list E finalized_slot payloads = concat (map (\<lambda>(d, proofs).
     if cp_slot (ad_head d) \<le> finalized_slot then []
     else concat (map (\<lambda>p. map (Pair d) (set_indices (sp_participants p))) (ev_proofs E proofs))) payloads)"

lemma fold_pairs: "fold (record_vote d) is votes = fold (\<lambda>(d, i). record_vote d i) (map (Pair d) is) votes"
  by (induction "is" arbitrary: votes) simp_all

lemma extract_proofs_eq:
  "\<forall>p \<in> set ps. proof_ok p \<Longrightarrow>
   rfold (\<lambda>p votes. rbind (to_validator_indices (sp_participants p)) (\<lambda>indices. Inr (fold (record_vote d) indices votes))) ps votes =
     Inr (fold (\<lambda>(d, i). record_vote d i) (concat (map (\<lambda>p. map (Pair d) (set_indices (sp_participants p))) ps)) votes)"
  by (induction ps arbitrary: votes) (simp_all add: proof_ok_def fold_pairs)

lemma extract_eq:
  assumes "\<forall>d proofs. (d, proofs) \<in> set payloads \<longrightarrow> (\<forall>p \<in> set (ev_proofs E proofs). proof_ok p)"
  shows "rfold (\<lambda>(d, proofs) votes.
      if cp_slot (ad_head d) \<le> f then Inr votes
      else rfold (\<lambda>p votes. rbind (to_validator_indices (sp_participants p)) (\<lambda>indices. Inr (fold (record_vote d) indices votes)))
             (ev_proofs E proofs) votes) payloads votes = Inr (fold (\<lambda>(d, i). record_vote d i) (vote_list E f payloads) votes)"
  using assms
proof (induction payloads arbitrary: votes)
  case (Cons x payloads)
  obtain d proofs where x: "x = (d, proofs)" by fastforce
  have "\<forall>p \<in> set (ev_proofs E proofs). proof_ok p" using Cons.prems x by simp
  note eq = extract_proofs_eq [OF this]
  have "\<forall>d proofs. (d, proofs) \<in> set payloads \<longrightarrow> (\<forall>p \<in> set (ev_proofs E proofs). proof_ok p)" using Cons.prems by simp
  note IH = Cons.IH [OF this]
  show ?case unfolding x by (simp add: eq IH vote_list_def)
qed (simp add: vote_list_def)

lemma record_vote_get:
  "dget (record_vote d i votes) j = (if j = i \<and> (\<forall>e. dget votes i = Some e \<longrightarrow> ad_slot e < ad_slot d) then Some d else dget votes j)"
  by (auto simp: record_vote_def dict.get_put split: option.split)

lemma record_vote_wf: "dwf votes \<Longrightarrow> dwf (record_vote d i votes)"
  by (auto simp: record_vote_def dict.wf_put split: option.split)

lemma fold_votes_wf: "dwf votes \<Longrightarrow> dwf (fold (\<lambda>(d, i). record_vote d i) ps votes)"
  by (induction ps arbitrary: votes) (auto simp: record_vote_wf)

lemma fold_votes_None:
  "dget (fold (\<lambda>(d, i). record_vote d i) ps votes) j = None \<longleftrightarrow> dget votes j = None \<and> (\<forall>d. (d, j) \<notin> set ps)"
  by (induction ps arbitrary: votes) (auto simp: record_vote_get split: if_splits)

lemma fold_votes_Some:
  "dget (fold (\<lambda>(d, i). record_vote d i) ps votes) j = Some e \<Longrightarrow>
   ((e, j) \<in> set ps \<or> dget votes j = Some e) \<and> (\<forall>d. (d, j) \<in> set ps \<longrightarrow> ad_slot d \<le> ad_slot e) \<and>
   (\<forall>d. dget votes j = Some d \<longrightarrow> ad_slot d \<le> ad_slot e)"
proof (induction ps arbitrary: votes)
  case (Cons x ps)
  obtain d i where x: "x = (d, i)" by fastforce
  have run: "dget (fold (\<lambda>(d, i). record_vote d i) ps (record_vote d i votes)) j = Some e" using Cons.prems x by simp
  note IH = Cons.IH [OF run]
  show ?case
  proof (cases "i = j")
    case False
    then show ?thesis using IH x by (simp add: record_vote_get)
  next
    case True
    then show ?thesis using IH x by (cases "dget votes j") (auto simp: record_vote_get split: if_splits)
  qed
qed simp

lemma vote_list_iff:
  assumes "payloads_ok payloads" and "set_order (ev_proofs E)"
  shows "(d, i) \<in> set (vote_list E f payloads) \<longleftrightarrow> casts payloads f i d"
proof -
  have mem: "(d, ps) \<in> set payloads \<longleftrightarrow> dget payloads d = Some ps" for ps
    using assms(1) by (auto simp: payloads_ok_def dwf_def dget_def)
  have order: "set (ev_proofs E ps) = ps" if "dget payloads d = Some ps" for ps
    using that assms by (auto simp: payloads_ok_def set_order_def)
  have "(d, i) \<in> set (vote_list E f payloads) \<longleftrightarrow> f < cp_slot (ad_head d) \<and>
      (\<exists>ps. dget payloads d = Some ps \<and> (\<exists>p \<in> set (ev_proofs E ps). i \<in> set (set_indices (sp_participants p))))"
    by (force simp: vote_list_def mem [symmetric] image_iff)
  then show ?thesis using order by (auto simp: casts_def dset_def split: option.split)
qed

lemma extract_exact:
  assumes "payloads_ok payloads" and "set_order (ev_proofs E)"
  shows "\<exists>votes. extract_attestations E payloads f = Inr votes \<and> dwf votes \<and>
    (\<forall>i d. dget votes i = Some d \<longrightarrow> casts payloads f i d \<and> (\<forall>d'. casts payloads f i d' \<longrightarrow> ad_slot d' \<le> ad_slot d)) \<and>
    (\<forall>i. dget votes i = None \<longrightarrow> (\<forall>d. \<not> casts payloads f i d))"
proof -
  let ?v = "fold (\<lambda>(d, i). record_vote d i) (vote_list E f payloads) []"
  have "\<forall>d proofs. (d, proofs) \<in> set payloads \<longrightarrow> (\<forall>p \<in> set (ev_proofs E proofs). proof_ok p)"
    using assms by (auto simp: payloads_ok_def dwf_def dget_def set_order_def)
  then have "extract_attestations E payloads f = Inr ?v" by (simp add: extract_attestations_def extract_eq)
  moreover have "dwf ?v" by (rule fold_votes_wf) (simp add: dwf_def)
  moreover have "casts payloads f i d \<and> (\<forall>d'. casts payloads f i d' \<longrightarrow> ad_slot d' \<le> ad_slot d)" if "dget ?v i = Some d" for i d
    using fold_votes_Some [OF that] vote_list_iff [OF assms] by (simp add: dget_def [of "[]"])
  moreover have "\<not> casts payloads f i d" if "dget ?v i = None" for i d
    using that unfolding fold_votes_None vote_list_iff [OF assms] by simp
  ultimately show ?thesis by blast
qed

lemma supporters_card:
  assumes "dwf votes"
  shows "supporters blocks votes x = card {i. \<exists>d. dget votes i = Some d \<and> descends blocks x (cp_root (ad_head d))}"
proof -
  let ?xs = "filter (\<lambda>(_, d). descends blocks x (cp_root (ad_head d))) votes"
  have "set (map fst ?xs) = {i. \<exists>d. dget votes i = Some d \<and> descends blocks x (cp_root (ad_head d))}"
    using assms by (auto simp: dwf_def dget_def image_iff)
  moreover have "distinct (map fst ?xs)" using assms unfolding dwf_def by (rule distinct_map_filter)
  then have "length ?xs = card (set (map fst ?xs))" using distinct_card [of "map fst ?xs"] by simp
  ultimately show ?thesis by (simp only: supporters_def)
qed

section \<open>The finalized checkpoint of the head\<close>

text \<open>The walk stops at the first ancestor that is at or below the slot or whose parent is unknown.\<close>

lemma finalized_loop_exact:
  assumes "tree_ok blocks"
  shows "dget blocks r = Some b \<Longrightarrow> below blocks (b_slot b) < n \<Longrightarrow>
    \<exists>x c. finalized_loop n blocks k r = Inr x \<and> dget blocks x = Some c \<and> descends blocks x r \<and>
      (b_slot c \<le> k \<or> dget blocks (b_parent_root c) = None) \<and>
      (\<forall>a. descends blocks a r \<and> block_slot blocks a \<le> k \<longrightarrow> descends blocks a x)"
proof (induction n arbitrary: r b)
  case (Suc n)
  show ?case
  proof (cases "k < b_slot b \<and> dget blocks (b_parent_root b) \<noteq> None")
    case True
    then obtain p where p: "dget blocks (b_parent_root b) = Some p" by blast
    have lt: "b_slot p < b_slot b" using assms p Suc.prems(1) by (auto simp: tree_ok_def)
    have "below blocks (b_slot p) < n" using below_less [OF p lt] Suc.prems(2) by simp
    then obtain x c where x: "finalized_loop n blocks k (b_parent_root b) = Inr x" "dget blocks x = Some c"
      "descends blocks x (b_parent_root b)" "b_slot c \<le> k \<or> dget blocks (b_parent_root c) = None"
      "\<forall>a. descends blocks a (b_parent_root b) \<and> block_slot blocks a \<le> k \<longrightarrow> descends blocks a x"
      using Suc.IH [OF p] by blast
    have "descends blocks a (b_parent_root b)" if "descends blocks a r" "block_slot blocks a \<le> k" for a
      using that True Suc.prems(1) descends_step [OF Suc.prems(1), of a] by auto
    moreover have "descends blocks x r" using x(3) descends_step [OF Suc.prems(1), of x] by simp
    ultimately show ?thesis using x True Suc.prems(1) by (intro exI [of _ x] exI [of _ c]) auto
  next
    case False
    then show ?thesis using Suc.prems descends_refl [OF Suc.prems(1)]
      by (intro exI [of _ r] exI [of _ b]) auto
  qed
qed simp

end
