(* ===== verification/Fork_Store.thy ===== *)
theory Fork_Store
  imports Fork_Choice
begin

text \<open>
  The invariant of the fork-choice store. Every block of the store but the anchor has its parent in the store, the
  history of a post-state lists the roots of the block's ancestors, and the checkpoints the store follows are blocks of
  the store. From it: importing a block never fails but with a rejection, and the head is the one LMD-GHOST prescribes.
\<close>

section \<open>What a transition adds\<close>

text \<open>A checkpoint beyond genesis names a block, not an empty slot.\<close>

definition real_checkpoint :: "checkpoint \<Rightarrow> bool" where
  "real_checkpoint c \<longleftrightarrow> cp_slot c = 0 \<or> cp_root c \<noteq> ZERO_HASH"

definition real_checkpoints :: "state \<Rightarrow> bool" where
  "real_checkpoints s \<longleftrightarrow> real_checkpoint (st_latest_justified s) \<and> real_checkpoint (st_latest_finalized s)"

lemma process_attestation_real:
  assumes "tally_inv hashes n t" and run: "process_attestation hashes n slots a t = Inr t'"
    and real: "real_checkpoint (ta_latest_justified t)" "real_checkpoint (ta_latest_finalized t)"
  shows "real_checkpoint (ta_latest_justified t') \<and> real_checkpoint (ta_latest_finalized t')"
proof (cases "ta_latest_justified t' \<noteq> ta_latest_justified t \<or> ta_latest_finalized t' \<noteq> ta_latest_finalized t")
  case True
  obtain voters w where vote: "valid_vote hashes t (ad_source (aa_data a)) (ad_target (aa_data a))"
    and j: "justify_target slots (ad_source (aa_data a)) (ad_target (aa_data a))
      (t\<lparr>ta_justifications := dput (ta_justifications t) (cp_root (ad_target (aa_data a))) w\<rparr>) = Inr t'"
    by (rule checkpoint_moves [OF assms(1,2) True])
  from justify_target_checkpoints [OF j] vote real show ?thesis
    by (auto simp: real_checkpoint_def valid_vote_def)
qed (use real in simp)

lemma attestation_loop_real:
  assumes "slots_inv hashes f slots" and "length hashes \<le> HISTORICAL_ROOTS_LIMIT"
  shows "tally_inv hashes n t \<Longrightarrow> f \<le> ta_finalized_slot t \<Longrightarrow> list_all attestation_ok as \<Longrightarrow>
    real_checkpoint (ta_latest_justified t) \<Longrightarrow> real_checkpoint (ta_latest_finalized t) \<Longrightarrow>
    attestation_loop hashes n slots as t = Inr t' \<Longrightarrow>
    real_checkpoint (ta_latest_justified t') \<and> real_checkpoint (ta_latest_finalized t')"
proof (induction "as" arbitrary: t)
  case (Cons a "as")
  obtain x where x: "process_attestation hashes n slots a t = Inr x" "attestation_loop hashes n slots as x = Inr t'"
    using Cons.prems(6) by auto
  have a: "attestation_ok a" "list_all attestation_ok as" using Cons.prems(3) by simp_all
  have inv: "tally_inv hashes n x" "tally_le t x"
    using process_attestation_ok [OF Cons.prems(1) assms(1) Cons.prems(2) assms(2) a(1)] x(1) by simp_all
  have "f \<le> ta_finalized_slot x" using inv(2) Cons.prems(2) by (simp add: tally_le_def)
  with Cons.IH [OF inv(1) _ a(2)] process_attestation_real [OF Cons.prems(1) x(1) Cons.prems(4,5)] x(2) show ?case by blast
qed simp

lemma process_attestations_real:
  assumes "votes_inv s" and "state_ok s" and "list_all attestation_ok as" and run: "process_attestations s as = Inr s'"
    and "real_checkpoints s"
  shows "real_checkpoints s'"
proof -
  let ?h = "st_historical_block_hashes s" and ?n = "length (st_validators s)" and ?f = "cp_slot (st_latest_finalized s)"
  let ?t0 = "tally_of s (stored_votes s)"
  obtain t where t: "attestation_loop ?h ?n (root_to_slot ?h ?f) as ?t0 = Inr t"
    "st_latest_justified s' = ta_latest_justified t" "st_latest_finalized s' = ta_latest_finalized t"
    using run stored_votes_unpacked [OF assms(1)] by (auto simp: process_attestations_def tally_of_def Let_def split: if_splits)
  have "length ?h \<le> HISTORICAL_ROOTS_LIMIT" using assms(2) by (simp add: state_ok_iff)
  from attestation_loop_real [OF root_to_slot_inv this _ _ assms(3) _ _ t(1)] assms(1,5) t(2,3)
  show ?thesis by (simp add: real_checkpoints_def votes_inv_def tally_of_def)
qed

lemma slots_loop_frame:
  "slots_loop H s k = Inr s' \<Longrightarrow> st_historical_block_hashes s' = st_historical_block_hashes s \<and>
     st_latest_justified s' = st_latest_justified s \<and> st_latest_finalized s' = st_latest_finalized s \<and>
     st_validators s' = st_validators s \<and> bh_slot (st_latest_block_header s') = bh_slot (st_latest_block_header s)"
proof (induction H s k rule: slots_loop.induct)
  case (1 H s k)
  show ?case
  proof (cases "st_slot s < k")
    case False
    then show ?thesis using "1.prems" by (simp add: slots_loop.simps [of H s k])
  next
    case True
    then obtain x where x: "advance_slot H s = Inr x" "slots_loop H x k = Inr s'"
      using "1.prems" by (auto simp: slots_loop.simps [of H s k])
    from "1.IH" [OF True x] x(1) show ?thesis by (auto simp: advance_slot_def Let_def)
  qed
qed

lemma process_block_header_frame:
  assumes "process_block_header H s b = Inr s'"
  shows "st_historical_block_hashes s' = st_historical_block_hashes s @ [b_parent_root b] @
      replicate (b_slot b - bh_slot (st_latest_block_header s) - 1) ZERO_HASH"
    and "st_validators s' = st_validators s"
    and "real_checkpoints s \<Longrightarrow> real_checkpoints s'"
  using assms by (auto simp: process_block_header_def Let_def limited_def real_checkpoints_def real_checkpoint_def split: if_splits)

lemma process_attestations_frame:
  "process_attestations s as = Inr s' \<Longrightarrow> st_historical_block_hashes s' = st_historical_block_hashes s \<and>
     st_validators s' = st_validators s"
  by (auto simp: process_attestations_def Let_def split: if_splits)

lemma state_transition_links:
  assumes H: "digest_ok H" and inv: "chain_inv s" and b: "block_ok b" and real: "real_checkpoints s"
    and run: "state_transition H s b = Inr s'"
  shows "st_historical_block_hashes s' = st_historical_block_hashes s @ [b_parent_root b] @
      replicate (b_slot b - bh_slot (st_latest_block_header s) - 1) ZERO_HASH \<and>
    st_validators s' = st_validators s \<and> real_checkpoints s' \<and> bh_slot (st_latest_block_header s) < b_slot b"
proof -
  obtain s1 s2 where s1: "process_slots H s (b_slot b) = Inr s1" and s2: "process_block_header H s1 b = Inr s2"
    and s3: "process_attestations s2 (bb_attestations (b_body b)) = Inr s'"
    using run by (auto simp: state_transition_def process_block_def split: if_splits)
  have f1: "st_historical_block_hashes s1 = st_historical_block_hashes s \<and> st_latest_justified s1 = st_latest_justified s \<and>
      st_latest_finalized s1 = st_latest_finalized s \<and> st_validators s1 = st_validators s \<and>
      bh_slot (st_latest_block_header s1) = bh_slot (st_latest_block_header s)"
    using s1 by (intro slots_loop_frame [of H s "b_slot b"]) (simp add: process_slots_def split: if_splits)
  have k: "b_slot b < 2 ^ 64" using b by (simp add: block_ok_iff)
  have inv1: "chain_inv s1" using outcome_Inr [OF process_slots_ok [OF H inv k] s1] by blast
  have r1: "real_checkpoints s1" using real f1 by (simp add: real_checkpoints_def)
  note f2 = process_block_header_frame [OF s2]
  have v2: "votes_inv s2" "state_ok s2" using outcome_Inr [OF process_block_header_ok [OF H inv1 b] s2] by blast+
  have "list_all attestation_ok (bb_attestations (b_body b))" using b by (simp add: block_ok_iff body_ok_def)
  then have r3: "real_checkpoints s'" by (rule process_attestations_real [OF v2 _ s3 f2(3) [OF r1]])
  have "bh_slot (st_latest_block_header s1) < b_slot b" by (rule process_block_header_Inr(2) [OF s2])
  with r3 process_attestations_frame [OF s3] f1 f2(1,2) show ?thesis by simp
qed

section \<open>The tree of post-states\<close>

definition post_ok :: "validator list \<Rightarrow> block \<Rightarrow> state \<Rightarrow> bool" where
  "post_ok vs b s \<longleftrightarrow> chain_inv s \<and> real_checkpoints s \<and> bh_slot (st_latest_block_header s) = b_slot b \<and> st_validators s = vs"

definition linked :: "(root, block) dict \<Rightarrow> (root, state) dict \<Rightarrow> block \<Rightarrow> state \<Rightarrow> bool" where
  "linked blocks states b s \<longleftrightarrow> (\<exists>p ps. dget blocks (b_parent_root b) = Some p \<and> dget states (b_parent_root b) = Some ps \<and>
     b_slot p < b_slot b \<and> st_historical_block_hashes s =
       st_historical_block_hashes ps @ [b_parent_root b] @ replicate (b_slot b - b_slot p - 1) ZERO_HASH)"

text \<open>\<open>A\<close> is the anchor: its own parent is not in the store.\<close>

definition tree_inv :: "root \<Rightarrow> validator list \<Rightarrow> (root, block) dict \<Rightarrow> (root, state) dict \<Rightarrow> bool" where
  "tree_inv A vs blocks states \<longleftrightarrow> dwf blocks \<and> dwf states \<and> (\<forall>r. dget states r = None \<longleftrightarrow> dget blocks r = None) \<and>
     (\<exists>a. dget blocks A = Some a \<and> dget blocks (b_parent_root a) = None) \<and>
     (\<forall>r b s. dget blocks r = Some b \<and> dget states r = Some s \<longrightarrow> post_ok vs b s \<and> (r = A \<or> linked blocks states b s))"

lemma tree_inv_state:
  assumes "tree_inv A vs blocks states" and "dget blocks r = Some b"
  obtains s where "dget states r = Some s" "post_ok vs b s" "r = A \<or> linked blocks states b s"
  using assms unfolding tree_inv_def by (metis option.exhaust option.distinct(1))

lemma tree_inv_block:
  assumes "tree_inv A vs blocks states" and "dget states r = Some s"
  obtains b where "dget blocks r = Some b" "post_ok vs b s" "r = A \<or> linked blocks states b s"
proof -
  have "dget states r = None \<longleftrightarrow> dget blocks r = None" using assms(1) unfolding tree_inv_def by blast
  then obtain b where b: "dget blocks r = Some b" using assms(2) by auto
  with tree_inv_state [OF assms(1) b] assms(2) that show ?thesis by auto
qed

lemma tree_inv_tree_ok:
  assumes inv: "tree_inv A vs blocks states"
  shows "tree_ok blocks"
  unfolding tree_ok_def
proof (intro conjI allI impI)
  show "dwf blocks" using inv by (simp add: tree_inv_def)
  fix r b p
  assume h: "dget blocks r = Some b \<and> dget blocks (b_parent_root b) = Some p"
  obtain s where s: "r = A \<or> linked blocks states b s" using tree_inv_state [OF inv] h by blast
  have "r \<noteq> A" using inv h by (auto simp: tree_inv_def)
  with s h show "b_slot p < b_slot b" by (auto simp: linked_def)
qed

lemma tree_inv_anchor:
  assumes inv: "tree_inv A vs blocks states"
  shows "dget blocks r = Some b \<Longrightarrow> descends blocks A r"
proof (induction "b_slot b" arbitrary: r b rule: less_induct)
  case less
  obtain s where s: "r = A \<or> linked blocks states b s" using tree_inv_state [OF inv less.prems] by blast
  show ?case
  proof (cases "r = A")
    case True
    then show ?thesis using less.prems by (simp add: descends_refl)
  next
    case False
    then obtain p where p: "dget blocks (b_parent_root b) = Some p" "b_slot p < b_slot b" using s by (auto simp: linked_def)
    from less.hyps [OF p(2,1)] show ?thesis using descends_step [OF less.prems] by simp
  qed
qed

lemma anchor_lowest:
  assumes "tree_inv A vs blocks states" and "dget blocks r = Some b"
  shows "block_slot blocks A \<le> b_slot b"
  using descends_slot [OF tree_inv_tree_ok [OF assms(1)] tree_inv_anchor [OF assms]] assms(2) by auto

text \<open>A history entry above the anchor is an ancestor of the block or an empty slot.\<close>

lemma history_ancestor:
  assumes inv: "tree_inv A vs blocks states"
  shows "dget blocks r = Some b \<Longrightarrow> dget states r = Some s \<Longrightarrow> block_slot blocks A \<le> k \<Longrightarrow> k < b_slot b \<Longrightarrow>
    st_historical_block_hashes s ! k = ZERO_HASH \<or>
    (descends blocks (st_historical_block_hashes s ! k) r \<and> block_slot blocks (st_historical_block_hashes s ! k) = k)"
proof (induction "b_slot b" arbitrary: r b s rule: less_induct)
  case less
  have "r = A \<or> linked blocks states b s" using tree_inv_state [OF inv less.prems(1)] less.prems(2) by auto
  moreover have "r \<noteq> A" using less.prems by auto
  ultimately obtain p ps where p: "dget blocks (b_parent_root b) = Some p" "dget states (b_parent_root b) = Some ps"
    "b_slot p < b_slot b" and h: "st_historical_block_hashes s =
       st_historical_block_hashes ps @ [b_parent_root b] @ replicate (b_slot b - b_slot p - 1) ZERO_HASH"
    by (auto simp: linked_def)
  have "post_ok vs p ps" using tree_inv_state [OF inv p(1)] p(2) by auto
  then have len: "length (st_historical_block_hashes ps) = b_slot p" by (simp add: post_ok_def chain_inv_def)
  consider "k < b_slot p" | "k = b_slot p" | "b_slot p < k" by linarith
  then show ?case
  proof cases
    case 1
    then have eq: "st_historical_block_hashes s ! k = st_historical_block_hashes ps ! k" using len by (simp add: h nth_append)
    from less.hyps [OF p(3,1,2) less.prems(3) 1] show ?thesis unfolding eq using descends_step [OF less.prems(1)] by blast
  next
    case 2
    then have "st_historical_block_hashes s ! k = b_parent_root b" using len by (simp add: h nth_append)
    then show ?thesis using 2 p(1) descends_refl [OF p(1)] descends_step [OF less.prems(1), of "b_parent_root b"] by auto
  next
    case 3
    then have "st_historical_block_hashes s ! k = ZERO_HASH" using len less.prems(4) by (simp add: h nth_append nth_Cons')
    then show ?thesis ..
  qed
qed

text \<open>A checkpoint that is a block of the store, at its slot.\<close>

definition known :: "(root, block) dict \<Rightarrow> checkpoint \<Rightarrow> bool" where
  "known blocks c \<longleftrightarrow> (\<exists>b. dget blocks (cp_root c) = Some b \<and> b_slot b = cp_slot c)"

text \<open>The checkpoints of a post-state that lie above the anchor are ancestors of its block.\<close>

lemma state_checkpoint_ancestor:
  assumes inv: "tree_inv A vs blocks states" and r: "dget blocks r = Some b" "dget states r = Some s"
    and c: "c = st_latest_justified s \<or> c = st_latest_finalized s" and lo: "block_slot blocks A \<le> cp_slot c" "0 < cp_slot c"
  shows "descends blocks (cp_root c) r \<and> known blocks c \<and> cp_slot c < b_slot b"
proof -
  have ok: "post_ok vs b s" using tree_inv_state [OF inv r(1)] r(2) by auto
  then have ci: "chain_inv s" and real: "real_checkpoint c" and slot: "length (st_historical_block_hashes s) = b_slot b"
    using c by (auto simp: post_ok_def real_checkpoints_def chain_inv_def)
  have ne: "st_historical_block_hashes s \<noteq> []"
    using ci c lo(2) by (auto simp: chain_inv_def ZERO_CHECKPOINT_def)
  note ch = chain_inv_checkpoints [OF ci ne]
  have lt: "cp_slot c < b_slot b" and root: "cp_root c = st_historical_block_hashes s ! cp_slot c"
    using ch c slot by auto
  have "cp_root c \<noteq> ZERO_HASH" using real lo(2) by (simp add: real_checkpoint_def)
  with history_ancestor [OF inv r lo(1) lt] root have d: "descends blocks (cp_root c) r" "block_slot blocks (cp_root c) = cp_slot c"
    by auto
  obtain cb where "dget blocks (cp_root c) = Some cb" using d(1) by (auto simp: descends_def)
  with d lt show ?thesis by (auto simp: known_def)
qed

lemma dput_mono: "dget d r = None \<Longrightarrow> dget d x = Some y \<Longrightarrow> dget (dput d r v) x = Some y"
  by (auto simp: dict.get_put)

lemma linked_mono:
  assumes "linked blocks states b s" and "dget blocks r = None" and "dget states r = None"
  shows "linked (dput blocks r b') (dput states r s') b s"
  using assms by (auto simp: linked_def dict.get_put)

lemma tree_inv_insert:
  assumes inv: "tree_inv A vs blocks states" and new: "dget blocks r = None" and fresh: "\<And>a. dget blocks A = Some a \<Longrightarrow> b_parent_root a \<noteq> r"
    and post: "post_ok vs b s" and link: "linked blocks states b s"
  shows "tree_inv A vs (dput blocks r b) (dput states r s)"
proof -
  have new': "dget states r = None" using inv new by (simp add: tree_inv_def)
  have each: "post_ok vs b' s' \<and> (x = A \<or> linked (dput blocks r b) (dput states r s) b' s')"
    if x: "dget (dput blocks r b) x = Some b'" "dget (dput states r s) x = Some s'" for x b' s'
  proof (cases "x = r")
    case True
    then show ?thesis using x post linked_mono [OF link new new'] by (simp add: dict.get_put)
  next
    case False
    then have y: "dget blocks x = Some b'" "dget states x = Some s'" using x by (simp_all add: dict.get_put)
    then have "post_ok vs b' s' \<and> (x = A \<or> linked blocks states b' s')" using inv by (simp add: tree_inv_def)
    then show ?thesis using linked_mono [OF _ new new'] by blast
  qed
  obtain a where "dget blocks A = Some a" "dget blocks (b_parent_root a) = None" using inv by (auto simp: tree_inv_def)
  then have "\<exists>a. dget (dput blocks r b) A = Some a \<and> dget (dput blocks r b) (b_parent_root a) = None"
    using new fresh by (intro exI [of _ a]) (auto simp: dict.get_put)
  moreover have "dwf (dput blocks r b)" "dwf (dput states r s)" "\<forall>x. dget (dput states r s) x = None \<longleftrightarrow> dget (dput blocks r b) x = None"
    using inv by (auto simp: tree_inv_def dict.wf_put dict.get_put)
  ultimately show ?thesis unfolding tree_inv_def using each by blast
qed

lemma descends_mono:
  assumes "dget blocks r = None" and "descends blocks a x"
  shows "descends (dput blocks r b) a x"
proof -
  have "parent_link blocks \<le> parent_link (dput blocks r b)" using assms(1) by (auto simp: parent_link_def dict.get_put)
  then have "(parent_link (dput blocks r b))\<^sup>*\<^sup>* a x" using assms(2) rtranclp_mono by (auto simp: descends_def)
  then show ?thesis using assms by (auto simp: descends_def dict.get_put)
qed

lemma known_mono: "dget blocks r = None \<Longrightarrow> known blocks c \<Longrightarrow> known (dput blocks r b) c"
  by (auto simp: known_def dict.get_put)

section \<open>The store invariant\<close>

definition keys_ok :: "validator list \<Rightarrow> bool" where
  "keys_ok vs \<longleftrightarrow> list_all (\<lambda>v. (\<exists>k. public_key_decode (v_attestation_public_key v) = Inr k) \<and>
     (\<exists>k. public_key_decode (v_proposal_public_key v) = Inr k)) vs"

definition pool_ok :: "validator list \<Rightarrow> payloads \<Rightarrow> bool" where
  "pool_ok vs payloads \<longleftrightarrow> payloads_ok payloads \<and> (\<forall>d proofs. dget payloads d = Some proofs \<longrightarrow> attestation_data_ok d \<and>
     (\<forall>p \<in> proofs. \<forall>i \<in> set (set_indices (sp_participants p)). i < length vs))"

definition signatures_ok :: "validator list \<Rightarrow> (attestation_data, signature_entry set) dict \<Rightarrow> bool" where
  "signatures_ok vs sigs \<longleftrightarrow> dwf sigs \<and> (\<forall>d entries. dget sigs d = Some entries \<longrightarrow> attestation_data_ok d \<and>
     finite entries \<and> (\<forall>e \<in> entries. fst e < length vs))"

definition core_inv :: "root \<Rightarrow> validator list \<Rightarrow> store \<Rightarrow> bool" where
  "core_inv A vs st \<longleftrightarrow> tree_inv A vs (fc_blocks st) (fc_states st) \<and> keys_ok vs \<and>
     known (fc_blocks st) (fc_latest_justified st) \<and> known (fc_blocks st) (fc_latest_finalized st) \<and>
     dget (fc_blocks st) (fc_safe_target st) \<noteq> None \<and> block_slot (fc_blocks st) A \<le> cp_slot (fc_latest_justified st) \<and>
     pool_ok vs (fc_new_payloads st) \<and> pool_ok vs (fc_known_payloads st) \<and> signatures_ok vs (fc_attestation_signatures st)"

text \<open>
  The finalized checkpoint is the one of the head's chain, unless the head's post-state still refers to a finalized
  block from before the anchor.
\<close>

definition final_inv :: "root \<Rightarrow> store \<Rightarrow> bool" where
  "final_inv A st \<longleftrightarrow> (\<forall>s. dget (fc_states st) (fc_head st) = Some s \<and>
     block_slot (fc_blocks st) A \<le> cp_slot (st_latest_finalized s) \<longrightarrow>
     cp_slot (fc_latest_finalized st) = cp_slot (st_latest_finalized s) \<and>
     descends (fc_blocks st) (cp_root (fc_latest_finalized st)) (fc_head st))"

lemma final_inv_frame [simp]:
  "final_inv A (st\<lparr>fc_attestation_signatures := x\<rparr>) = final_inv A st" "final_inv A (st\<lparr>fc_new_payloads := p\<rparr>) = final_inv A st"
  "final_inv A (st\<lparr>fc_known_payloads := p\<rparr>) = final_inv A st" "final_inv A (st\<lparr>fc_safe_target := r\<rparr>) = final_inv A st"
  "final_inv A (st\<lparr>fc_time := t\<rparr>) = final_inv A st"
  by (simp_all add: final_inv_def)

definition store_inv :: "root \<Rightarrow> validator list \<Rightarrow> store \<Rightarrow> bool" where
  "store_inv A vs st \<longleftrightarrow> core_inv A vs st \<and> descends (fc_blocks st) (cp_root (fc_latest_justified st)) (fc_head st) \<and> final_inv A st"

lemma core_tree: "core_inv A vs st \<Longrightarrow> tree_ok (fc_blocks st)"
  by (auto simp: core_inv_def intro: tree_inv_tree_ok)

lemma finalized_of_head:
  assumes inv: "tree_inv A vs blocks states" and h: "dget blocks h = Some b" "dget states h = Some s"
  shows "\<exists>x c. finalized_loop (Suc (length blocks)) blocks (cp_slot (st_latest_finalized s)) h = Inr x \<and>
    dget blocks x = Some c \<and> descends blocks x h \<and>
    (block_slot blocks A \<le> cp_slot (st_latest_finalized s) \<longrightarrow> b_slot c = cp_slot (st_latest_finalized s))"
proof -
  let ?k = "cp_slot (st_latest_finalized s)"
  note tree = tree_inv_tree_ok [OF inv]
  have "below blocks (b_slot b) < Suc (length blocks)" using below_length [OF h(1)] by simp
  then obtain x c where x: "finalized_loop (Suc (length blocks)) blocks ?k h = Inr x" "dget blocks x = Some c" "descends blocks x h"
    "b_slot c \<le> ?k \<or> dget blocks (b_parent_root c) = None"
    "\<And>a. descends blocks a h \<Longrightarrow> block_slot blocks a \<le> ?k \<Longrightarrow> descends blocks a x"
    using finalized_loop_exact [OF tree h(1), of "Suc (length blocks)" ?k] by blast
  have "b_slot c = ?k" if lo: "block_slot blocks A \<le> ?k"
  proof -
    obtain a where a: "descends blocks a h" "block_slot blocks a = ?k"
    proof (cases "?k = 0")
      case True
      then show ?thesis using lo tree_inv_anchor [OF inv h(1)] that by simp
    next
      case False
      then show ?thesis using state_checkpoint_ancestor [OF inv h, of "st_latest_finalized s"] lo that by (auto simp: known_def)
    qed
    have ax: "descends blocks a x" using x(5) a by simp
    from x(4) show ?thesis
    proof
      assume "b_slot c \<le> ?k"
      then show ?thesis using descends_slot [OF tree ax] a(2) x(2) by auto
    next
      assume "dget blocks (b_parent_root c) = None"
      then have "a = x" using ax descends_step [OF x(2), of a] descends_unknown by blast
      then show ?thesis using a(2) x(2) by simp
    qed
  qed
  with x show ?thesis by blast
qed

lemma update_head_eq:
  assumes inv: "core_inv A vs st" and E: "set_order (ev_proofs E)"
  shows "\<exists>votes h f b s. extract_attestations E (fc_known_payloads st) (cp_slot (fc_latest_finalized st)) = Inr votes \<and> dwf votes \<and>
    update_head E st = Inr (st\<lparr>fc_head := h, fc_latest_finalized := f\<rparr>) \<and>
    heaviest (fc_blocks st) (supporters (fc_blocks st) votes) None (cp_root (fc_latest_justified st)) h \<and>
    descends (fc_blocks st) (cp_root (fc_latest_justified st)) h \<and> known (fc_blocks st) f \<and>
    dget (fc_blocks st) h = Some b \<and> dget (fc_states st) h = Some s \<and>
    (block_slot (fc_blocks st) A \<le> cp_slot (st_latest_finalized s) \<longrightarrow>
      cp_slot f = cp_slot (st_latest_finalized s) \<and> descends (fc_blocks st) (cp_root f) h)"
proof -
  have tree: "tree_inv A vs (fc_blocks st) (fc_states st)" and pl: "payloads_ok (fc_known_payloads st)"
    using inv by (simp_all add: core_inv_def pool_ok_def)
  obtain votes where v: "extract_attestations E (fc_known_payloads st) (cp_slot (fc_latest_finalized st)) = Inr votes" "dwf votes"
    using extract_exact [OF pl E] by blast
  obtain jb where j: "dget (fc_blocks st) (cp_root (fc_latest_justified st)) = Some jb"
    using inv by (auto simp: core_inv_def known_def)
  obtain h where h: "compute_lmd_ghost_head st (cp_root (fc_latest_justified st)) votes None = Inr h"
    "heaviest (fc_blocks st) (supporters (fc_blocks st) votes) None (cp_root (fc_latest_justified st)) h"
    "descends (fc_blocks st) (cp_root (fc_latest_justified st)) h"
    using compute_lmd_ghost_head_exact [OF core_tree [OF inv] j] by blast
  obtain b where b: "dget (fc_blocks st) h = Some b" using descends_known [OF h(3)] by blast
  obtain s where s: "dget (fc_states st) h = Some s" using tree_inv_state [OF tree b] by blast
  obtain x c where x: "finalized_loop (Suc (length (fc_blocks st))) (fc_blocks st) (cp_slot (st_latest_finalized s)) h = Inr x"
    "dget (fc_blocks st) x = Some c" "descends (fc_blocks st) x h"
    "block_slot (fc_blocks st) A \<le> cp_slot (st_latest_finalized s) \<longrightarrow> b_slot c = cp_slot (st_latest_finalized s)"
    using finalized_of_head [OF tree b s] by blast
  let ?f = "if b_slot c = cp_slot (st_latest_finalized s) then \<lparr>cp_root = x, cp_slot = cp_slot (st_latest_finalized s)\<rparr>
    else fc_latest_finalized st"
  have "dlookup (fc_states st) h = Inr s" "dlookup (fc_blocks st) x = Inr c" using s x(2) by simp_all
  then have run: "update_head E st = Inr (st\<lparr>fc_head := h, fc_latest_finalized := ?f\<rparr>)"
    unfolding update_head_def v(1) h(1) rbind_Inr Let_def x(1) by (simp only: rbind_Inr x(1))
  have "known (fc_blocks st) ?f" using inv x(2) by (auto simp: core_inv_def known_def)
  moreover have "block_slot (fc_blocks st) A \<le> cp_slot (st_latest_finalized s) \<longrightarrow>
      cp_slot ?f = cp_slot (st_latest_finalized s) \<and> descends (fc_blocks st) (cp_root ?f) h" using x(3,4) by simp
  ultimately show ?thesis using v run h(2,3) b s by blast
qed

lemma update_head_ok:
  assumes "core_inv A vs st" and "set_order (ev_proofs E)"
  shows "\<exists>h f. update_head E st = Inr (st\<lparr>fc_head := h, fc_latest_finalized := f\<rparr>) \<and>
    store_inv A vs (st\<lparr>fc_head := h, fc_latest_finalized := f\<rparr>)"
proof -
  obtain h f s where "update_head E st = Inr (st\<lparr>fc_head := h, fc_latest_finalized := f\<rparr>)" "known (fc_blocks st) f"
    "descends (fc_blocks st) (cp_root (fc_latest_justified st)) h" "dget (fc_states st) h = Some s"
    "block_slot (fc_blocks st) A \<le> cp_slot (st_latest_finalized s) \<longrightarrow>
      cp_slot f = cp_slot (st_latest_finalized s) \<and> descends (fc_blocks st) (cp_root f) h"
    using update_head_eq [OF assms] by blast
  with assms(1) show ?thesis by (intro exI [of _ h] exI [of _ f]) (simp add: store_inv_def core_inv_def final_inv_def)
qed

section \<open>Pools\<close>

lemma filter_get:
  assumes "dwf d"
  shows "dget (filter (\<lambda>(k, _). q k) d) k = (if q k then dget d k else None)" and "dwf (filter (\<lambda>(k, _). q k) d)"
proof -
  have "filter (\<lambda>(k, _). q k) d = dfilter q d" by (simp add: dfilter_def case_prod_unfold)
  then show "dget (filter (\<lambda>(k, _). q k) d) k = (if q k then dget d k else None)" "dwf (filter (\<lambda>(k, _). q k) d)"
    using dict.get_restrict [of q d k] dict.wf_restrict [of d q] assms by simp_all
qed

lemma pool_filter: "pool_ok vs d \<Longrightarrow> pool_ok vs (filter (\<lambda>(k, _). q k) d)"
  by (auto simp: pool_ok_def payloads_ok_def filter_get split: if_splits)

lemma signatures_filter: "signatures_ok vs d \<Longrightarrow> signatures_ok vs (filter (\<lambda>(k, _). q k) d)"
  by (auto simp: signatures_ok_def filter_get split: if_splits)

definition lives_under :: "store \<Rightarrow> attestation_data \<Rightarrow> bool" where
  "lives_under st d \<longleftrightarrow> cp_slot (fc_latest_finalized st) < cp_slot (ad_head d) \<and>
     descends (fc_blocks st) (cp_root (fc_latest_finalized st)) (cp_root (ad_head d)) \<and>
     block_slot (fc_blocks st) (cp_root (fc_latest_finalized st)) = cp_slot (fc_latest_finalized st)"

lemma head_lives_eq: "tree_ok (fc_blocks st) \<Longrightarrow> head_lives_under_finalized st d = Inr (lives_under st d)"
  by (auto simp: head_lives_under_finalized_def checkpoint_is_ancestor_iff lives_under_def)

lemma prune_filter: "tree_ok (fc_blocks st) \<Longrightarrow>
    rfilter (\<lambda>(d, _). head_lives_under_finalized st d) xs = Inr (filter (\<lambda>(d, _). lives_under st d) xs)"
  by (rule rfilter_pure) (auto simp: head_lives_eq)

lemma prune_eq:
  assumes "tree_ok (fc_blocks st)"
  shows "prune_stale_attestation_data st = Inr (st\<lparr>
    fc_attestation_signatures := filter (\<lambda>(d, _). lives_under st d) (fc_attestation_signatures st),
    fc_new_payloads := filter (\<lambda>(d, _). lives_under st d) (fc_new_payloads st),
    fc_known_payloads := filter (\<lambda>(d, _). lives_under st d) (fc_known_payloads st)\<rparr>)"
  unfolding prune_stale_attestation_data_def prune_filter [OF assms] rbind_Inr ..

lemma prune_ok:
  assumes "store_inv A vs st"
  shows "\<exists>st'. prune_stale_attestation_data st = Inr st' \<and> store_inv A vs st' \<and> fc_blocks st' = fc_blocks st"
  using assms core_tree [of A vs st]
  by (simp add: prune_eq store_inv_def core_inv_def pool_filter signatures_filter)

lemma dunion_get: "dget (dunion d e) k = (case dget e k of None \<Rightarrow> dget d k | Some v \<Rightarrow> Some v)" if "dwf e"
  using that
proof (induction e arbitrary: d)
  case (Cons x e)
  obtain a v where x: "x = (a, v)" by fastforce
  have "dunion d (x # e) = dunion (dput d a v) e" by (simp add: dunion_def x)
  moreover have "dwf e" "a \<notin> fst ` set e" using Cons.prems x by (auto simp: dwf_def)
  moreover have "dget e a = None" using \<open>a \<notin> fst ` set e\<close> by (simp add: dget_def map_of_eq_None_iff)
  moreover have "dget (x # e) k = (if k = a then Some v else dget e k)" by (simp add: x dget_def)
  ultimately show ?case using Cons.IH [of "dput d a v"] by (simp add: dict.get_put split: option.split)
qed (simp add: dunion_def dget_def)

lemma dunion_wf: "dwf d \<Longrightarrow> dwf (dunion d e)"
  unfolding dunion_def by (induction e arbitrary: d) (auto simp: dict.wf_put)

lemma dict_of_wf: "dwf (dict_of kvs)"
proof -
  have "dwf d \<Longrightarrow> dwf (foldl (\<lambda>d (k, v). dput d k v) d kvs)" for d
    by (induction kvs arbitrary: d) (auto simp: dict.wf_put)
  then show ?thesis by (simp add: dict_of_def dwf_def)
qed

lemma seeded_pool_ok:
  assumes "list_all (\<lambda>a. attestation_data_ok (aa_data a)) as" and pool: "pool_ok vs payloads"
  shows "pool_ok vs (dunion (dict_of (map (\<lambda>a. (aa_data a, {})) as)) payloads)"
proof -
  let ?seed = "dict_of (map (\<lambda>a. (aa_data a, {})) as) :: payloads"
  have wf: "dwf payloads" using pool by (simp add: pool_ok_def payloads_ok_def)
  have seed: "attestation_data_ok d \<and> proofs = {}" if "dget ?seed d = Some proofs" for d proofs
    using dict_of_sound [OF that] assms(1) by (auto simp: list_all_iff)
  have get: "dget (dunion ?seed payloads) d = Some proofs \<Longrightarrow> dget payloads d = Some proofs \<or> dget ?seed d = Some proofs" for d proofs
    using dunion_get [OF wf, of ?seed d] by (auto split: option.splits)
  show ?thesis
    unfolding pool_ok_def payloads_ok_def
    using dunion_wf [OF dict_of_wf] pool by (auto simp: pool_ok_def payloads_ok_def dest!: get seed)
qed

section \<open>Signatures never fail with an internal error\<close>

lemma attestation_data_bounded: "ssz_bounded AttestationData_T"
  by (simp add: container_types)

lemma data_root_total: "digest_ok H \<Longrightarrow> attestation_data_ok d \<Longrightarrow> \<exists>r. attestation_data_root H d = Inr r"
  using hash_tree_root_ok [of H AttestationData_T "ssz_attestation_data d"] attestation_data_bounded
  by (auto simp: attestation_data_root_def)

lemma rmap_outcome: "(\<And>x. x \<in> set xs \<Longrightarrow> outcome P (\<lambda>_. True) (f x)) \<Longrightarrow> outcome P (\<lambda>_. True) (rmap f xs)"
  by (induction xs) (auto intro!: outcome_bind [where P = "\<lambda>_. True"])

lemma attestation_keys_total:
  assumes "keys_ok vs" and "list_all (\<lambda>i. i < length vs) is"
  shows "\<exists>ks. attestation_keys vs is = Inr ks \<and> length ks = length is"
proof -
  have "list_all (\<lambda>i. \<exists>k. rbind (py_index vs i) (\<lambda>v. public_key_decode (v_attestation_public_key v)) = Inr k \<and> True) is"
    using assms by (auto simp: keys_ok_def list_all_iff py_index_def)
  from rmap_total [OF this] show ?thesis by (auto simp: attestation_keys_def)
qed

lemma attestation_component_ok:
  assumes "digest_ok (ev_hash E)" and "keys_ok vs" and "attestation_ok a"
  shows "outcome is_rejection (\<lambda>_. True) (attestation_component E vs a)"
  unfolding attestation_component_def
proof (rule outcome_bind [OF to_validator_indices_ok])
  show "length (aa_aggregation_bits a) \<le> VALIDATOR_REGISTRY_LIMIT" using assms(3) by (simp add: attestation_ok_def)
  fix voters
  obtain r where r: "attestation_data_root (ev_hash E) (aa_data a) = Inr r"
    using data_root_total [OF assms(1)] assms(3) by (auto simp: attestation_ok_def)
  have "\<exists>ks. attestation_keys vs voters = Inr ks" if "list_all (\<lambda>i. i < length vs) voters"
    using attestation_keys_total [OF assms(2) that] by blast
  then show "outcome is_rejection (\<lambda>_. True)
      (if \<not> list_all (\<lambda>i. is_within_registry i (length vs)) voters then Inl (SpecRejectionError VALIDATOR_INDEX_OUT_OF_RANGE)
       else rbind (attestation_keys vs voters) (\<lambda>keys.
         rbind (attestation_data_root (ev_hash E) (aa_data a)) (\<lambda>r. Inr (keys, r, ad_slot (aa_data a)))))"
    using r by (auto simp: is_within_registry_def)
qed

lemma verify_signatures_ok:
  assumes H: "digest_ok (ev_hash E)" and keys: "keys_ok vs" and b: "block_ok (sb_block sb)"
  shows "outcome is_rejection (\<lambda>_. True) (verify_signatures E sb vs)"
proof -
  have "list_all attestation_ok (bb_attestations (b_body (sb_block sb)))" using b by (simp add: block_ok_iff body_ok_def)
  then have comps: "outcome is_rejection (\<lambda>_. True) (rmap (attestation_component E vs) (bb_attestations (b_body (sb_block sb))))"
    by (intro rmap_outcome attestation_component_ok [OF H keys]) (simp add: list_all_iff)
  obtain r where r: "block_root (ev_hash E) (sb_block sb) = Inr r" using block_root_total [OF H b] by blast
  have key: "\<exists>k. public_key_decode (v_proposal_public_key (vs ! i)) = Inr k" if "i < length vs" for i
    using keys that by (auto simp: keys_ok_def list_all_length)
  have verdict: "outcome is_rejection (\<lambda>_. True) (reraise AggregationError (SpecRejectionError INVALID_BLOCK_PROOF) (multi_verify E p ks ms))"
    for p ks ms by (auto simp: multi_verify_def require_def)
  show ?thesis
    unfolding verify_signatures_def Let_def r rbind_Inr
  proof (rule outcome_bind [OF comps])
    fix x
    show "outcome is_rejection (\<lambda>_. True) (if \<not> is_within_registry (b_proposer_index (sb_block sb)) (length vs)
        then Inl (SpecRejectionError PROPOSER_INDEX_OUT_OF_RANGE)
        else rbind (py_index vs (b_proposer_index (sb_block sb))) (\<lambda>v. rbind (public_key_decode (v_proposal_public_key v))
          (\<lambda>key. reraise AggregationError (SpecRejectionError INVALID_BLOCK_PROOF)
            (multi_verify E (sb_proof sb) (map fst x @ [[key]]) (map snd x @ [(r, b_slot (sb_block sb))])))))"
      using key [of "b_proposer_index (sb_block sb)"] verdict by (auto simp: is_within_registry_def py_index_def)
  qed
qed

section \<open>Importing a block\<close>

lemma block_slot_put: "dget blocks r = None \<Longrightarrow> dget blocks x \<noteq> None \<Longrightarrow> block_slot (dput blocks r b) x = block_slot blocks x"
  by (auto simp: block_slot_def dict.get_put)

definition with_block :: "root \<Rightarrow> block \<Rightarrow> state \<Rightarrow> store \<Rightarrow> store" where
  "with_block r b s st = st\<lparr>fc_blocks := dput (fc_blocks st) r b, fc_states := dput (fc_states st) r s,
     fc_latest_justified := advance_to (fc_latest_justified st) (st_latest_justified s)\<rparr>"

lemma with_block_core:
  assumes inv: "core_inv A vs st" and new: "dget (fc_blocks st) r = None"
    and fresh: "\<And>a. dget (fc_blocks st) A = Some a \<Longrightarrow> b_parent_root a \<noteq> r"
    and post: "post_ok vs b s" and link: "linked (fc_blocks st) (fc_states st) b s"
  shows "core_inv A vs (with_block r b s st)"
proof -
  let ?B = "dput (fc_blocks st) r b" and ?S = "dput (fc_states st) r s" and ?j = "st_latest_justified s"
  have tree: "tree_inv A vs ?B ?S" using inv tree_inv_insert [OF _ new fresh post link] by (simp add: core_inv_def)
  have A: "dget (fc_blocks st) A \<noteq> None" using inv by (auto simp: core_inv_def tree_inv_def)
  note slotA = block_slot_put [OF new A]
  have lo: "block_slot (fc_blocks st) A \<le> cp_slot (fc_latest_justified st)" using inv by (simp add: core_inv_def)
  have "known ?B (advance_to (fc_latest_justified st) ?j)"
  proof (cases "cp_slot (fc_latest_justified st) < cp_slot ?j")
    case True
    have "known ?B ?j"
      using state_checkpoint_ancestor [OF tree, of r b s ?j] True lo slotA by (simp add: dict.get_put)
    with True show ?thesis by (simp add: advance_to_def)
  next
    case False
    then show ?thesis using inv known_mono [OF new] by (simp add: advance_to_def core_inv_def)
  qed
  moreover have "block_slot ?B A \<le> cp_slot (advance_to (fc_latest_justified st) ?j)"
    using lo slotA by (simp add: advance_to_def)
  moreover have "dget ?B (fc_safe_target st) \<noteq> None" "known ?B (fc_latest_finalized st)"
    using inv known_mono [OF new] by (auto simp: core_inv_def dict.get_put)
  ultimately show ?thesis using inv tree by (simp add: core_inv_def with_block_def)
qed

lemma linked_transition:
  assumes E: "digest_ok H" and inv: "tree_inv A vs blocks states" and b: "block_ok b"
    and parent: "dget states (b_parent_root b) = Some ps" and run: "state_transition H ps b = Inr s"
  shows "post_ok vs b s \<and> linked blocks states b s"
proof -
  obtain p where p: "dget blocks (b_parent_root b) = Some p" and ok: "post_ok vs p ps"
    using tree_inv_block [OF inv parent] by blast
  then have ci: "chain_inv ps" "real_checkpoints ps" by (simp_all add: post_ok_def)
  have s: "chain_inv s" "bh_slot (st_latest_block_header s) = b_slot b"
    using outcome_Inr [OF state_transition_ok [OF E ci(1) b] run] by simp_all
  note l = state_transition_links [OF E ci(1) b ci(2) run]
  have "post_ok vs b s" using l s ok by (simp add: post_ok_def)
  moreover have "linked blocks states b s"
    unfolding linked_def using l ok p parent by (intro exI [of _ p] exI [of _ ps]) (simp add: post_ok_def)
  ultimately show ?thesis ..
qed

text \<open>
  The root of a block that extends the store is not the anchor's parent root: a block descending from the anchor is
  hashed over the anchor's root, so that root would lie on a cycle of digests.
\<close>

definition fresh_block :: "env \<Rightarrow> root \<Rightarrow> store \<Rightarrow> block \<Rightarrow> bool" where
  "fresh_block E A st b \<longleftrightarrow> (\<forall>r a. block_root (ev_hash E) b = Inr r \<and> dget (fc_states st) (b_parent_root b) \<noteq> None \<and>
     dget (fc_blocks st) A = Some a \<longrightarrow> b_parent_root a \<noteq> r)"

lemma on_block_ok:
  assumes E: "env_ok E" and inv: "store_inv A vs st" and b: "block_ok (sb_block sb)"
    and fresh: "fresh_block E A st (sb_block sb)"
  shows "outcome (transition_error (sb_block sb)) (\<lambda>st'. store_inv A vs st' \<and>
    (\<exists>r. block_root (ev_hash E) (sb_block sb) = Inr r \<and> dget (fc_blocks st') r \<noteq> None)) (on_block E st sb)"
proof -
  let ?b = "sb_block sb"
  have H: "digest_ok (ev_hash E)" and order: "set_order (ev_proofs E)" using E by (simp_all add: env_ok_def)
  have core: "core_inv A vs st" and tree: "tree_inv A vs (fc_blocks st) (fc_states st)" and keys: "keys_ok vs"
    using inv by (simp_all add: store_inv_def core_inv_def)
  obtain r where r: "block_root (ev_hash E) ?b = Inr r" using block_root_total [OF H b] by blast
  show ?thesis
  proof (cases "dget (fc_blocks st) r")
    case (Some x)
    then show ?thesis using inv by (simp add: on_block_def r Let_def)
  next
    case new: None
    show ?thesis
    proof (cases "dget (fc_states st) (b_parent_root ?b)")
      case None
      then show ?thesis using new by (simp add: on_block_def r Let_def transition_error_def)
    next
      case (Some ps)
      let ?as = "bb_attestations (b_body ?b)"
      obtain p where ps: "post_ok vs p ps" using tree_inv_block [OF tree Some] by blast
      have vs: "st_validators ps = vs" and ci: "chain_inv ps" using ps by (simp_all add: post_ok_def)
      have anchor: "b_parent_root a \<noteq> r" if "dget (fc_blocks st) A = Some a" for a
        using fresh r Some that by (auto simp: fresh_block_def)
      let ?seed = "dunion (dict_of (map (\<lambda>a. (aa_data a, {})) ?as)) (fc_known_payloads st)"
      let ?st1 = "\<lambda>s. (with_block r ?b s st)\<lparr>fc_known_payloads := ?seed\<rparr>"
      have unfold: "on_block E st sb =
          rbind (reject_unless (card (set (map aa_data ?as)) = length ?as) DUPLICATE_ATTESTATION_DATA) (\<lambda>_.
          rbind (verify_signatures E sb vs) (\<lambda>_. rbind (state_transition (ev_hash E) ps ?b) (\<lambda>s.
          rbind (update_head E (?st1 s)) (\<lambda>st2. if cp_slot (fc_latest_finalized st2) > cp_slot (fc_latest_finalized st)
            then prune_stale_attestation_data st2 else Inr st2))))"
        using new Some vs by (simp add: on_block_def r Let_def with_block_def)
      have "list_all (\<lambda>a. attestation_data_ok (aa_data a)) ?as"
        using b by (auto simp: block_ok_iff body_ok_def attestation_ok_def list_all_iff)
      then have seed: "pool_ok vs ?seed" using core by (intro seeded_pool_ok) (simp_all add: core_inv_def)
      have final: "outcome (transition_error ?b) (\<lambda>st'. store_inv A vs st' \<and> dget (fc_blocks st') r \<noteq> None)
          (rbind (update_head E (?st1 s)) (\<lambda>st2. if cp_slot (fc_latest_finalized st2) > cp_slot (fc_latest_finalized st)
            then prune_stale_attestation_data st2 else Inr st2))"
        if run: "state_transition (ev_hash E) ps ?b = Inr s" for s
      proof -
        have "core_inv A vs (with_block r ?b s st)"
          using linked_transition [OF H tree b Some run] with_block_core [OF core new anchor] by blast
        then have "core_inv A vs (?st1 s)" using seed by (simp add: core_inv_def)
        then obtain h f where u: "update_head E (?st1 s) = Inr ((?st1 s)\<lparr>fc_head := h, fc_latest_finalized := f\<rparr>)"
          "store_inv A vs ((?st1 s)\<lparr>fc_head := h, fc_latest_finalized := f\<rparr>)" using update_head_ok [OF _ order] by blast
        have "dget (fc_blocks (?st1 s)) r \<noteq> None" by (simp add: with_block_def dict.get_put)
        then show ?thesis using u prune_ok [OF u(2)] by auto
      qed
      show ?thesis
        unfolding unfold r
      proof (rule outcome_bind [where P = "\<lambda>_. True"])
        show "outcome (transition_error ?b) (\<lambda>_. True) (reject_unless (card (set (map aa_data ?as)) = length ?as) DUPLICATE_ATTESTATION_DATA)"
          by (simp add: require_def transition_error_def)
        show "outcome (transition_error ?b) (\<lambda>st'. store_inv A vs st' \<and> (\<exists>x. Inr r = Inr x \<and> dget (fc_blocks st') x \<noteq> None))
          (rbind (verify_signatures E sb vs) (\<lambda>_. rbind (state_transition (ev_hash E) ps ?b) (\<lambda>s.
            rbind (update_head E (?st1 s)) (\<lambda>st2. if cp_slot (fc_latest_finalized st2) > cp_slot (fc_latest_finalized st)
              then prune_stale_attestation_data st2 else Inr st2))))"
        proof (rule outcome_bind [OF outcome_mono [OF verify_signatures_ok [OF H keys b]]])
          show "transition_error ?b e" if "is_rejection e" for e using that by (simp add: transition_error_def)
          show "outcome (transition_error ?b) (\<lambda>st'. store_inv A vs st' \<and> (\<exists>x. Inr r = Inr x \<and> dget (fc_blocks st') x \<noteq> None))
            (rbind (state_transition (ev_hash E) ps ?b) (\<lambda>s.
              rbind (update_head E (?st1 s)) (\<lambda>st2. if cp_slot (fc_latest_finalized st2) > cp_slot (fc_latest_finalized st)
                then prune_stale_attestation_data st2 else Inr st2)))"
            by (rule outcome_bind [OF state_transition_ok [OF H ci b]]) (use final in simp)
        qed simp
      qed
    qed
  qed
qed

section \<open>Attestations from gossip\<close>

lemma validate_attestation_ok:
  assumes tree: "tree_ok (fc_blocks st)"
  shows "outcome is_rejection (\<lambda>_. known (fc_blocks st) (ad_source d) \<and> known (fc_blocks st) (ad_target d) \<and>
    known (fc_blocks st) (ad_head d) \<and> descends (fc_blocks st) (cp_root (ad_source d)) (cp_root (ad_target d)) \<and>
    descends (fc_blocks st) (cp_root (ad_target d)) (cp_root (ad_head d)) \<and>
    cp_slot (ad_head d) \<le> ad_slot d \<and> ad_slot d \<le> (fc_time st + 1) div 5) (validate_attestation st d)"
  using checkpoint_is_ancestor_iff [OF tree]
  by (auto simp: validate_attestation_def Let_def require_def dlookup_def known_def GOSSIP_DISPARITY_INTERVALS_def
      INTERVALS_PER_SLOT_def split: option.split)

lemma validate_attestation_total:
  assumes tree: "tree_ok (fc_blocks st)" and "known (fc_blocks st) (ad_source d)" "known (fc_blocks st) (ad_target d)"
    "known (fc_blocks st) (ad_head d)" and "descends (fc_blocks st) (cp_root (ad_source d)) (cp_root (ad_target d))"
    "descends (fc_blocks st) (cp_root (ad_target d)) (cp_root (ad_head d))"
    and "cp_slot (ad_head d) \<le> ad_slot d" "ad_slot d \<le> (fc_time st + 1) div 5"
  shows "validate_attestation st d = Inr ()"
proof -
  have slots: "cp_slot (ad_source d) \<le> cp_slot (ad_target d)" "cp_slot (ad_target d) \<le> cp_slot (ad_head d)"
    using assms(2-4) descends_slot [OF tree assms(5)] descends_slot [OF tree assms(6)] by (auto simp: known_def)
  have "checkpoint_is_ancestor st (ad_source d) (ad_target d) = Inr True" "checkpoint_is_ancestor st (ad_target d) (ad_head d) = Inr True"
    unfolding checkpoint_is_ancestor_iff [OF tree] using assms(2-6) slots by (auto simp: known_def)
  then show ?thesis using assms(2-4,7,8) slots
    by (auto simp: validate_attestation_def Let_def dlookup_def known_def GOSSIP_DISPARITY_INTERVALS_def INTERVALS_PER_SLOT_def)
qed

lemma target_state:
  assumes "core_inv A vs st" and "known (fc_blocks st) c"
  obtains s where "dget (fc_states st) (cp_root c) = Some s" "st_validators s = vs"
proof -
  have tree: "tree_inv A vs (fc_blocks st) (fc_states st)" using assms(1) by (simp add: core_inv_def)
  obtain b where "dget (fc_blocks st) (cp_root c) = Some b" using assms(2) by (auto simp: known_def)
  with tree_inv_state [OF tree] that show ?thesis by (metis post_ok_def)
qed

lemma on_gossip_attestation_ok:
  assumes E: "env_ok E" and inv: "store_inv A vs st" and d: "attestation_data_ok (sa_data sa)"
  shows "outcome is_rejection (store_inv A vs) (on_gossip_attestation E st sa is_aggregator)"
proof -
  let ?d = "sa_data sa"
  have core: "core_inv A vs st" using inv by (simp add: store_inv_def)
  obtain m where m: "attestation_data_root (ev_hash E) ?d = Inr m"
    using data_root_total d E by (auto simp: env_ok_def)
  have key: "\<exists>k. public_key_decode (v_attestation_public_key (vs ! i)) = Inr k" if "i < length vs" for i
    using core that by (auto simp: core_inv_def keys_ok_def list_all_length)
  have put: "store_inv A vs (st\<lparr>fc_attestation_signatures := dput (fc_attestation_signatures st) ?d
      (insert (sa_validator_index sa, sg) (dset (fc_attestation_signatures st) ?d))\<rparr>)" if "sa_validator_index sa < length vs" for sg
    using inv d that by (auto simp: store_inv_def core_inv_def signatures_ok_def dict.wf_put dict.get_put dset_def split: option.splits)
  show ?thesis
    unfolding on_gossip_attestation_def Let_def
  proof (rule outcome_bind [OF validate_attestation_ok [OF core_tree [OF core], of ?d]])
    assume "known (fc_blocks st) (ad_source ?d) \<and> known (fc_blocks st) (ad_target ?d) \<and> known (fc_blocks st) (ad_head ?d) \<and>
      descends (fc_blocks st) (cp_root (ad_source ?d)) (cp_root (ad_target ?d)) \<and>
      descends (fc_blocks st) (cp_root (ad_target ?d)) (cp_root (ad_head ?d)) \<and>
      cp_slot (ad_head ?d) \<le> ad_slot ?d \<and> ad_slot ?d \<le> (fc_time st + 1) div 5"
    then obtain s where s: "dget (fc_states st) (cp_root (ad_target ?d)) = Some s" "st_validators s = vs"
      using target_state [OF core] by blast
    show "outcome is_rejection (store_inv A vs) (case dget (fc_states st) (cp_root (ad_target ?d)) of
        None \<Rightarrow> Inl AssertionError
      | Some target_post_state \<Rightarrow>
          rbind (reject_unless (is_within_registry (sa_validator_index sa) (length (st_validators target_post_state))) VALIDATOR_NOT_IN_STATE) (\<lambda>_.
          rbind (py_index (st_validators target_post_state) (sa_validator_index sa)) (\<lambda>v.
          rbind (public_key_decode (v_attestation_public_key v)) (\<lambda>public_key.
          rbind (attestation_data_root (ev_hash E) ?d) (\<lambda>message.
          rbind (reject_unless (ev_verify E public_key (ad_slot ?d) message (sa_signature sa)) INVALID_SIGNATURE) (\<lambda>_.
          if \<not> is_aggregator then Inr st
          else Inr (st\<lparr>fc_attestation_signatures := dput (fc_attestation_signatures st) ?d
                 (insert (sa_validator_index sa, sa_signature sa) (dset (fc_attestation_signatures st) ?d))\<rparr>)))))))"
      using key [of "sa_validator_index sa"] put inv
      by (auto simp: s m is_within_registry_def py_index_def require_def)
  qed
qed

lemma on_gossip_aggregated_ok:
  assumes E: "env_ok E" and inv: "store_inv A vs st" and d: "attestation_data_ok (sg_data sg)"
    and wire: "single_proof_ok (sg_proof sg)"
  shows "outcome is_rejection (store_inv A vs) (on_gossip_aggregated_attestation E st sg)"
proof -
  let ?d = "sg_data sg" and ?p = "sg_proof sg"
  have core: "core_inv A vs st" and keys: "keys_ok vs" using inv by (simp_all add: store_inv_def core_inv_def)
  have bits: "length (sp_participants ?p) \<le> VALIDATOR_REGISTRY_LIMIT" using wire by (simp add: single_proof_ok_def)
  obtain m where m: "attestation_data_root (ev_hash E) ?d = Inr m"
    using data_root_total d E by (auto simp: env_ok_def)
  have put: "store_inv A vs (st\<lparr>fc_new_payloads := dput (fc_new_payloads st) ?d (insert ?p (dset (fc_new_payloads st) ?d))\<rparr>)"
    if "proof_ok ?p" "list_all (\<lambda>i. i < length vs) (set_indices (sp_participants ?p))"
    using inv d that
    by (auto simp: store_inv_def core_inv_def pool_ok_def payloads_ok_def dict.wf_put dict.get_put dset_def list_all_iff split: option.splits)
  show ?thesis
    unfolding on_gossip_aggregated_attestation_def Let_def
  proof (rule outcome_bind [OF validate_attestation_ok [OF core_tree [OF core], of ?d]])
    assume "known (fc_blocks st) (ad_source ?d) \<and> known (fc_blocks st) (ad_target ?d) \<and> known (fc_blocks st) (ad_head ?d) \<and>
      descends (fc_blocks st) (cp_root (ad_source ?d)) (cp_root (ad_target ?d)) \<and>
      descends (fc_blocks st) (cp_root (ad_target ?d)) (cp_root (ad_head ?d)) \<and>
      cp_slot (ad_head ?d) \<le> ad_slot ?d \<and> ad_slot ?d \<le> (fc_time st + 1) div 5"
    then obtain s where s: "dget (fc_states st) (cp_root (ad_target ?d)) = Some s" "st_validators s = vs"
      using target_state [OF core] by blast
    show "outcome is_rejection (store_inv A vs)
        (rbind (to_validator_indices (sp_participants ?p)) (\<lambda>validator_indices.
        case dget (fc_states st) (cp_root (ad_target ?d)) of
          None \<Rightarrow> Inl AssertionError
        | Some target_post_state \<Rightarrow>
          rbind (reject_unless (list_all (\<lambda>i. is_within_registry i (length (st_validators target_post_state))) validator_indices) VALIDATOR_NOT_IN_STATE) (\<lambda>_.
          rbind (attestation_keys (st_validators target_post_state) validator_indices) (\<lambda>public_keys.
          rbind (attestation_data_root (ev_hash E) ?d) (\<lambda>message.
          rbind (reraise AggregationError (SpecRejectionError INVALID_SIGNATURE)
                   (single_verify E ?p public_keys message (ad_slot ?d))) (\<lambda>_.
            Inr (st\<lparr>fc_new_payloads := dput (fc_new_payloads st) ?d (insert ?p (dset (fc_new_payloads st) ?d))\<rparr>)))))))"
    proof (rule outcome_bind [OF to_validator_indices_ok [OF bits]])
      fix "is"
      assume idx: "to_validator_indices (sp_participants ?p) = Inr is"
      then have "is": "is = set_indices (sp_participants ?p)" by (auto simp: to_validator_indices_def Let_def split: if_splits)
      have ok: "proof_ok ?p" using idx "is" wire by (simp add: proof_ok_def)
      show "outcome is_rejection (store_inv A vs) (case dget (fc_states st) (cp_root (ad_target ?d)) of
          None \<Rightarrow> Inl AssertionError
        | Some target_post_state \<Rightarrow>
          rbind (reject_unless (list_all (\<lambda>i. is_within_registry i (length (st_validators target_post_state))) is) VALIDATOR_NOT_IN_STATE) (\<lambda>_.
          rbind (attestation_keys (st_validators target_post_state) is) (\<lambda>public_keys.
          rbind (attestation_data_root (ev_hash E) ?d) (\<lambda>message.
          rbind (reraise AggregationError (SpecRejectionError INVALID_SIGNATURE)
                   (single_verify E ?p public_keys message (ad_slot ?d))) (\<lambda>_.
            Inr (st\<lparr>fc_new_payloads := dput (fc_new_payloads st) ?d (insert ?p (dset (fc_new_payloads st) ?d))\<rparr>))))))"
        using put [OF ok] attestation_keys_total [OF keys, of "is"] idx "is"
        by (auto simp: s m is_within_registry_def require_def single_verify_def)
    qed
  qed
qed

section \<open>Ticks\<close>

lemma dset_empty: "dget d k = None \<Longrightarrow> dset d k = {}" and dset_Some: "dget d k = Some s \<Longrightarrow> dset d k = s"
  by (simp_all add: dset_def)

lemma pool_dset: "pool_ok vs d \<Longrightarrow> finite (dset d k) \<and> (\<forall>p \<in> dset d k. proof_ok p \<and> (\<forall>i \<in> set (set_indices (sp_participants p)). i < length vs))"
  by (auto simp: dset_def pool_ok_def payloads_ok_def split: option.split)

lemma dkeys_get: "k \<in> set (dkeys d) \<longleftrightarrow> (\<exists>v. dget d k = Some v)"
  using dict.set_keys [of d] by auto

lemma merged_pool_ok:
  assumes "pool_ok vs old" and "pool_ok vs new"
  shows "pool_ok vs (dict_of (map (\<lambda>d. (d, dset old d \<union> dset new d)) (dkeys old @ dkeys new)))"
    (is "pool_ok vs (dict_of ?kvs)")
proof -
  have each: "attestation_data_ok d \<and> proofs = dset old d \<union> dset new d" if "dget (dict_of ?kvs) d = Some proofs" for d proofs
    using dict_of_sound [OF that] assms by (auto simp: dkeys_get pool_ok_def)
  show ?thesis
    unfolding pool_ok_def payloads_ok_def using dict_of_wf [of ?kvs] pool_dset [OF assms(1)] pool_dset [OF assms(2)]
    by (auto simp del: map_append dest!: each)
qed

lemma pool_empty: "pool_ok vs []"
  by (simp add: pool_ok_def payloads_ok_def dwf_def dget_def)

lemma accept_new_ok:
  assumes inv: "store_inv A vs st" and E: "set_order (ev_proofs E)"
  shows "\<exists>st'. accept_new_attestations E st = Inr st' \<and> store_inv A vs st' \<and> fc_blocks st' = fc_blocks st \<and>
    fc_time st' = fc_time st \<and> fc_states st' = fc_states st"
proof -
  let ?merged = "dict_of (map (\<lambda>d. (d, dset (fc_known_payloads st) d \<union> dset (fc_new_payloads st) d))
    (dkeys (fc_known_payloads st) @ dkeys (fc_new_payloads st)))"
  let ?st = "st\<lparr>fc_known_payloads := ?merged, fc_new_payloads := []\<rparr>"
  have core: "core_inv A vs st" using inv by (simp add: store_inv_def)
  then have "core_inv A vs ?st" using merged_pool_ok [of vs "fc_known_payloads st" "fc_new_payloads st"] pool_empty
    by (simp add: core_inv_def)
  then obtain h f where "update_head E ?st = Inr (?st\<lparr>fc_head := h, fc_latest_finalized := f\<rparr>)"
    "store_inv A vs (?st\<lparr>fc_head := h, fc_latest_finalized := f\<rparr>)" using update_head_ok [OF _ E] by blast
  then show ?thesis by (simp add: accept_new_attestations_def Let_def)
qed

lemma head_known:
  assumes "store_inv A vs st"
  obtains b s where "dget (fc_blocks st) (fc_head st) = Some b" "dget (fc_states st) (fc_head st) = Some s" "post_ok vs b s"
proof -
  have tree: "tree_inv A vs (fc_blocks st) (fc_states st)" and d: "descends (fc_blocks st) (cp_root (fc_latest_justified st)) (fc_head st)"
    using assms by (simp_all add: store_inv_def core_inv_def)
  obtain b where b: "dget (fc_blocks st) (fc_head st) = Some b" using descends_known [OF d] by blast
  with tree_inv_state [OF tree b] that show ?thesis by blast
qed

lemma update_safe_target_eq:
  assumes inv: "store_inv A vs st" and E: "set_order (ev_proofs E)"
  shows "\<exists>votes t. extract_attestations E (fc_new_payloads st) (cp_slot (fc_latest_finalized st)) = Inr votes \<and> dwf votes \<and>
    update_safe_target E st = Inr (st\<lparr>fc_safe_target := t\<rparr>) \<and> descends (fc_blocks st) (cp_root (fc_latest_justified st)) t \<and>
    heaviest (fc_blocks st) (supporters (fc_blocks st) votes) (Some (ceil_div (length vs * 2) 3)) (cp_root (fc_latest_justified st)) t"
proof -
  have core: "core_inv A vs st" and pl: "payloads_ok (fc_new_payloads st)" using inv by (simp_all add: store_inv_def core_inv_def pool_ok_def)
  obtain b s where h: "dget (fc_states st) (fc_head st) = Some s" "post_ok vs b s" using head_known [OF inv] by blast
  obtain votes where v: "extract_attestations E (fc_new_payloads st) (cp_slot (fc_latest_finalized st)) = Inr votes" "dwf votes"
    using extract_exact [OF pl E] by blast
  obtain jb where j: "dget (fc_blocks st) (cp_root (fc_latest_justified st)) = Some jb"
    using core by (auto simp: core_inv_def known_def)
  obtain t where "compute_lmd_ghost_head st (cp_root (fc_latest_justified st)) votes (Some (ceil_div (length vs * 2) 3)) = Inr t"
    "heaviest (fc_blocks st) (supporters (fc_blocks st) votes) (Some (ceil_div (length vs * 2) 3)) (cp_root (fc_latest_justified st)) t"
    "descends (fc_blocks st) (cp_root (fc_latest_justified st)) t"
    using compute_lmd_ghost_head_exact [OF core_tree [OF core] j] by blast
  moreover have "st_validators s = vs" "dlookup (fc_states st) (fc_head st) = Inr s" using h by (simp_all add: post_ok_def)
  ultimately show ?thesis using v by (auto simp: update_safe_target_def Let_def)
qed

lemma update_safe_target_ok:
  assumes inv: "store_inv A vs st" and E: "set_order (ev_proofs E)"
  shows "\<exists>t. update_safe_target E st = Inr (st\<lparr>fc_safe_target := t\<rparr>) \<and> store_inv A vs (st\<lparr>fc_safe_target := t\<rparr>)"
proof -
  obtain t where t: "update_safe_target E st = Inr (st\<lparr>fc_safe_target := t\<rparr>)" "descends (fc_blocks st) (cp_root (fc_latest_justified st)) t"
    using update_safe_target_eq [OF assms] by blast
  then have "dget (fc_blocks st) t \<noteq> None" using descends_known by blast
  with t inv show ?thesis by (auto simp: store_inv_def core_inv_def)
qed

end
