(* ===== verification/Spec2Isabelle.thy ===== *)
theory Spec2Isabelle
  imports Uint Ssz_Codec Containers Rlp Reqresp_Codec Gossip_Rpc Gossip_Topic Peer_Id Block_Cache Peer_Manager Gossip_Router Fork_Store
begin

text \<open>
  A verification library for the lean Ethereum consensus specification and its node (\<^verbatim>\<open>lean_spec\<close>). Paths
  are below \<^verbatim>\<open>src/src/lean_spec/\<close>.

  \<^bold>\<open>The program.\<close> A node receives bytes from peers. The transport hands streams to the gossipsub router
  (\<^verbatim>\<open>node/networking/gossipsub\<close>) and to the request/response protocol (\<^verbatim>\<open>node/networking/reqresp\<close>). Both
  compress with Snappy (\<^verbatim>\<open>node/snappy\<close>) and carry SSZ values (\<^verbatim>\<open>spec/ssz\<close>). Blocks whose parent is unknown
  wait in the block cache of the sync service (\<^verbatim>\<open>node/sync\<close>), which asks peers chosen by the peer manager. A block
  with a known parent goes through the state transition (\<^verbatim>\<open>spec/forks/lstar/state_transition.py\<close>), whose states and
  blocks are identified by their hash tree roots (\<^verbatim>\<open>spec/crypto/merkleization.py\<close>).

  \<^bold>\<open>Conventions.\<close> A byte string is a list of 8-bit words; a Python integer is an \<open>int\<close> or, where it is never
  negative, a \<open>nat\<close>; the SSZ integers are numbers with their range checked by the constructor, as in the code. A
  function that can raise returns \<open>py_exn + 'a\<close>; a method that changes an object and can raise part way is an
  \<open>action\<close>, which returns the state and the exception. A dict is a list of pairs in insertion order. What the code
  takes from outside (SHA-256, the clock, random choices, the iteration order of sets, Unicode tables) is an argument
  of the definitions that use it, and what is relied on is a named predicate (\<open>digest_ok\<close>, \<open>set_order\<close>,
  \<open>samples\<close>, \<open>world_ok\<close>).

  \<^bold>\<open>Theories.\<close>
  \<^item> \<open>Py_Prelude\<close>: results, slices, dicts (locale \<open>py_dict\<close>), machines with an invariant (locale
    \<open>machine\<close>), codecs that read at an offset (locale \<open>offset_codec\<close>), Hoare-style rules for results.
    \<open>Py_Str\<close>: UTF-8 and string operations. \<open>Py_Effects\<close>: actions and what they keep.
  \<^item> \<open>Uint\<close>: the strict integers of \<^verbatim>\<open>spec/ssz/uint.py\<close>; arithmetic is exact or raises.
  \<^item> \<open>Ssz_Types\<close>, \<open>Ssz_Codec\<close>: every SSZ type with \<^verbatim>\<open>serialize\<close>, \<^verbatim>\<open>deserialize\<close>, \<^verbatim>\<open>encode_bytes\<close>,
    \<^verbatim>\<open>decode_bytes\<close>; decoding inverts encoding and accepts only the canonical form.
  \<^item> \<open>Merkle\<close>: \<^verbatim>\<open>merkleize\<close> and \<^verbatim>\<open>hash_tree_root\<close>, equal to the full padded tree.
  \<^item> \<open>Containers\<close>: the consensus containers of \<^verbatim>\<open>spec/forks/lstar/containers\<close>.
  \<^item> \<open>State_Transition\<close>: \<^verbatim>\<open>spec/forks/lstar/state_transition.py\<close> and \<^verbatim>\<open>slot.py\<close>; safety, finality, the
    invariant of reachable states, the supermajority rule, extendability and the history limit.
  \<^item> \<open>Varint\<close>, \<open>Rlp\<close>, \<open>Snappy_Tags\<close>, \<open>Snappy_Block\<close>, \<open>Snappy_Frame\<close>, \<open>Reqresp_Codec\<close>,
    \<open>Gossip_Rpc\<close>, \<open>Gossip_Topic\<close>, \<open>Peer_Id\<close>: the codecs of \<^verbatim>\<open>node\<close>, each with its round trip and
    with the exceptions that leave its decoder.
  \<^item> \<open>Gossip_Cache\<close>, \<open>Gossip_Mesh\<close>, \<open>Gossip_Router\<close>: message identifiers, caches, mesh and fanout,
    and the router of \<^verbatim>\<open>behavior.py\<close> as a state machine.
  \<^item> \<open>Block_Cache\<close>, \<open>Peer_Manager\<close>: \<^verbatim>\<open>node/sync/block_cache.py\<close> and \<^verbatim>\<open>peer_manager.py\<close> with the
    invariants of their reachable states.

  \<^bold>\<open>Loops.\<close> No definition uses fuel: every loop of the code is a structural recursion or a function with a
  termination measure (bytes left to read, slots left to fill, levels of a tree).

  \<^bold>\<open>Not modelled.\<close> Poseidon and XMSS signatures and the aggregation proofs (external cryptography); QUIC, TLS and
  sockets, SQLite, HTTP, Prometheus, logging and the command line (input and output through libraries); pydantic
  schema hooks.
\<close>

end
